(* ===== verification/MPIPCL_Prelude.thy ===== *)
theory MPIPCL_Prelude
  imports Main "HOL-Library.Signed_Division"
begin

text \<open>
  What all components share: the ways a C function can stop without returning, the error
  monad over them, checked C integer arithmetic, and the counting loop
  \<open>for (i = lo; i < hi; i++)\<close> with its proof rules.

  \<^item> \<open>AssertFailed\<close>: an \<open>assert\<close> of the source failed (asserts are modelled as enabled);
  \<^item> \<open>Undefined k\<close>: the execution has undefined behaviour of kind \<open>k\<close>;
  \<^item> \<open>Blocked\<close>: a blocking MPI call never returns.
\<close>

named_theorems c_defs \<open>definitions of the checked C primitives, for evaluation\<close>

section \<open>Outcomes and the error monad\<close>

datatype ub =
    SignedOverflow
  | DivByZero
  | OutOfBounds
  | UninitRead
  | BadPointer
  | BufferOverflow
  | BadMutex
  | BadThread

datatype stop = AssertFailed | Undefined ub | Blocked

type_synonym 'a res = "stop + 'a"

definition bindE :: "'a res \<Rightarrow> ('a \<Rightarrow> 'b res) \<Rightarrow> 'b res" where
  "bindE m f = (case m of Inl e \<Rightarrow> Inl e | Inr x \<Rightarrow> f x)"

lemma bindE_Inl [simp]: "bindE (Inl e) f = Inl e"
  by (simp add: bindE_def)

lemma bindE_Inr [simp]: "bindE (Inr x) f = f x"
  by (simp add: bindE_def)

lemma bindE_eq_Inr [simp]: "bindE m f = Inr y \<longleftrightarrow> (\<exists>x. m = Inr x \<and> f x = Inr y)"
  by (auto simp: bindE_def split: sum.splits)

lemma bindE_assoc: "bindE (bindE m f) g = bindE m (\<lambda>x. bindE (f x) g)"
  by (auto simp: bindE_def split: sum.splits)

lemma bindE_cong [fundef_cong]:
  "m = m' \<Longrightarrow> (\<And>x. m' = Inr x \<Longrightarrow> f x = g x) \<Longrightarrow> bindE m f = bindE m' g"
  by (auto simp: bindE_def split: sum.splits)

definition c_assert :: "bool \<Rightarrow> unit res" where
  "c_assert b = (if b then Inr () else Inl AssertFailed)"

lemma c_assert_True [simp]: "c_assert True = Inr ()"
  by (simp add: c_assert_def)

lemma c_assert_False [simp]: "c_assert False = Inl AssertFailed"
  by (simp add: c_assert_def)

lemma c_assert_eq_Inr [simp]: "c_assert b = Inr u \<longleftrightarrow> b"
  by (simp add: c_assert_def)

section \<open>C integers\<close>

text \<open>
  A C \<open>int\<close> is modelled as an \<^typ>\<open>int\<close> in the 32-bit range. Signed arithmetic that leaves
  the range is undefined behaviour, so each operation checks its result. \<open>MPI_Aint\<close> is
  64 bits wide. Division truncates towards zero.
\<close>

abbreviation (input) INT_MAX :: int where "INT_MAX \<equiv> 2147483647"

abbreviation (input) INT_MIN :: int where "INT_MIN \<equiv> - 2147483648"

definition chk_int :: "int \<Rightarrow> int res" where
  "chk_int x = (if INT_MIN \<le> x \<and> x \<le> INT_MAX then Inr x else Inl (Undefined SignedOverflow))"

definition chk_aint :: "int \<Rightarrow> int res" where
  "chk_aint x = (if - (2 ^ 63) \<le> x \<and> x < 2 ^ 63 then Inr x else Inl (Undefined SignedOverflow))"

definition c_add :: "int \<Rightarrow> int \<Rightarrow> int res" where
  "c_add a b = chk_int (a + b)"

definition c_mul :: "int \<Rightarrow> int \<Rightarrow> int res" where
  "c_mul a b = chk_int (a * b)"

definition c_div :: "int \<Rightarrow> int \<Rightarrow> int res" where
  "c_div a b = (if b = 0 then Inl (Undefined DivByZero) else chk_int (a sdiv b))"

text \<open>
  The conversion of a wider value to \<open>int\<close> (an \<open>MPI_Count\<close>), and the wrap-around of an
  atomic \<open>int\<close> counter: the value is reduced modulo
  \<open>2 ^ 32\<close> into the signed range, as the supported compilers do.
\<close>

definition int32_of :: "int \<Rightarrow> int" where
  "int32_of c = (c + 2147483648) mod 4294967296 - 2147483648"

declare chk_int_def [c_defs] chk_aint_def [c_defs] c_add_def [c_defs] c_mul_def [c_defs]
  c_div_def [c_defs] int32_of_def [c_defs]

lemma chk_int_eq_Inr: "chk_int x = Inr y \<longleftrightarrow> y = x \<and> INT_MIN \<le> x \<and> x \<le> INT_MAX"
  by (auto simp: chk_int_def)

lemma chk_int_small [simp]: "0 \<le> x \<Longrightarrow> x \<le> INT_MAX \<Longrightarrow> chk_int x = Inr x"
  by (simp add: chk_int_def)

lemma sdiv_nonneg: "0 \<le> a \<Longrightarrow> 0 < b \<Longrightarrow> (a::int) sdiv b = a div b"
  by (cases "a = 0") (auto simp: signed_divide_int_def sgn_if)

lemma c_div_pos:
  assumes "0 \<le> a" "a \<le> INT_MAX" "0 < b"
  shows "c_div a b = Inr (a div b)"
proof -
  have "a div b \<le> a div 1"
    using assms by (intro zdiv_mono2) auto
  moreover have "0 \<le> a div b"
    using assms by (simp add: pos_imp_zdiv_nonneg_iff)
  ultimately show ?thesis
    using assms by (simp add: c_div_def sdiv_nonneg)
qed

lemma int32_of_id: "INT_MIN \<le> c \<Longrightarrow> c \<le> INT_MAX \<Longrightarrow> int32_of c = c"
  by (simp add: int32_of_def)

lemma int32_of_range: "INT_MIN \<le> int32_of c \<and> int32_of c \<le> INT_MAX"
proof -
  have "0 \<le> (c + 2147483648) mod 4294967296" "(c + 2147483648) mod 4294967296 < 4294967296"
    by simp_all
  then show ?thesis unfolding int32_of_def by linarith
qed

section \<open>Counting loops\<close>

function for_up :: "int \<Rightarrow> int \<Rightarrow> (int \<Rightarrow> 's \<Rightarrow> 's res) \<Rightarrow> 's \<Rightarrow> 's res" where
  "for_up i n body s = (if i < n then bindE (body i s) (for_up (i + 1) n body) else Inr s)"
  by pat_completeness auto
termination
  by (relation "measure (\<lambda>(i, n, _, _). nat (n - i))") auto

declare for_up.simps [simp del]

lemma for_up_done [simp]: "n \<le> i \<Longrightarrow> for_up i n body s = Inr s"
  by (simp add: for_up.simps)

lemma for_up_step: "i < n \<Longrightarrow> for_up i n body s = bindE (body i s) (for_up (i + 1) n body)"
  by (simp add: for_up.simps)

text \<open>Total correctness: an invariant that every iteration re-establishes without stopping.\<close>

lemma for_up_inv:
  assumes "lo \<le> hi" and "I lo s"
    and "\<And>i s. lo \<le> i \<Longrightarrow> i < hi \<Longrightarrow> I i s \<Longrightarrow> \<exists>s'. body i s = Inr s' \<and> I (i + 1) s'"
  shows "\<exists>s'. for_up lo hi body s = Inr s' \<and> I hi s'"
  using assms
proof (induction lo hi body s rule: for_up.induct)
  case (1 lo hi body s)
  show ?case
  proof (cases "lo < hi")
    case True
    then obtain s' where s': "body lo s = Inr s'" "I (lo + 1) s'"
      using 1(3,4) by force
    have "\<exists>t. for_up (lo + 1) hi body s' = Inr t \<and> I hi t"
      using True s' 1(4) by (intro 1(1)) auto
    then show ?thesis using True s' by (simp add: for_up_step)
  next
    case False
    with 1 show ?thesis by simp
  qed
qed

text \<open>A loop whose last iteration stops, when earlier ones can stop in the same way only.\<close>

lemma for_up_stops:
  assumes "lo < hi" and "I lo s"
    and "\<And>i s. lo \<le> i \<Longrightarrow> i < hi \<Longrightarrow> I i s \<Longrightarrow> body i s = Inl e \<or> (\<exists>s'. body i s = Inr s' \<and> I (i + 1) s')"
    and "\<And>s. I (hi - 1) s \<Longrightarrow> body (hi - 1) s = Inl e"
  shows "for_up lo hi body s = Inl e"
  using assms
proof (induction lo hi body s rule: for_up.induct)
  case (1 lo hi body s)
  have step: "for_up lo hi body s = bindE (body lo s) (for_up (lo + 1) hi body)"
    using 1(2) by (rule for_up_step)
  show ?case
  proof (cases "body lo s")
    case (Inr t)
    then have "lo \<noteq> hi - 1" using 1(5) [of s] 1(3) by auto
    moreover have "I (lo + 1) t" using 1(4) [of lo s] 1(2,3) Inr by auto
    ultimately have "for_up (lo + 1) hi body t = Inl e"
      using 1(2,4,5) by (intro 1(1) [OF _ Inr]) auto
    with step Inr show ?thesis by simp
  next
    case (Inl d)
    with step 1(4) [of lo s] 1(2,3) show ?thesis by auto
  qed
qed

text \<open>Partial correctness: what every iteration that goes through keeps.\<close>

lemma for_up_preserves:
  assumes "for_up lo hi body s = Inr s'" and "P s"
    and "\<And>i s s'. lo \<le> i \<Longrightarrow> i < hi \<Longrightarrow> P s \<Longrightarrow> body i s = Inr s' \<Longrightarrow> P s'"
  shows "P s'"
  using assms
proof (induction lo hi body s rule: for_up.induct)
  case (1 lo hi body s)
  show ?case
  proof (cases "lo < hi")
    case True
    then obtain t where t: "body lo s = Inr t" "for_up (lo + 1) hi body t = Inr s'"
      using 1(2) by (auto simp: for_up_step)
    have "P t" using 1(3) 1(4) [of lo s t] True t(1) by simp
    moreover have "P u'" if "lo + 1 \<le> i" "i < hi" "P u" "body i u = Inr u'" for i u u'
      using 1(4) [of i u u'] that by simp
    ultimately show ?thesis using 1(1) [OF True t(1) t(2)] by blast
  next
    case False
    with 1 show ?thesis by simp
  qed
qed

text \<open>A loop that only touches one component of the state is a loop on that component.\<close>

lemma for_up_field:
  assumes "\<And>b r. f (upd b r) = b" and "\<And>b b' r. upd b (upd b' r) = upd b r"
    and "upd (f r) r = r"
  shows "for_up lo hi (\<lambda>i r. bindE (body i (f r)) (\<lambda>b. Inr (upd b r))) r
       = bindE (for_up lo hi body (f r)) (\<lambda>b. Inr (upd b r))"
proof -
  have "for_up lo hi (\<lambda>i r. bindE (body i (f r)) (\<lambda>b. Inr (upd b r))) (upd b r)
      = bindE (for_up lo hi body b) (\<lambda>b. Inr (upd b r))" for b
  proof (induction lo hi body b rule: for_up.induct)
    case (1 lo hi body b)
    show ?case
    proof (cases "lo < hi")
      case True
      then show ?thesis
        using 1 assms(1,2) by (cases "body lo b") (auto simp: for_up_step)
    next
      case False
      then show ?thesis by simp
    qed
  qed
  from this [of "f r"] show ?thesis by (simp add: assms(3))
qed

lemma for_up_cong:
  assumes "\<And>i s. lo \<le> i \<Longrightarrow> i < hi \<Longrightarrow> body i s = body' i s"
  shows "for_up lo hi body s = for_up lo hi body' s"
  using assms
proof (induction lo hi body s rule: for_up.induct)
  case (1 lo hi body s)
  show ?case
  proof (cases "lo < hi")
    case True
    have "for_up (lo + 1) hi body t = for_up (lo + 1) hi body' t" if "body lo s = Inr t" for t
      using that True 1(2) by (intro 1(1)) auto
    then show ?thesis
      using True 1(2) by (simp add: for_up_step) (auto simp: bindE_def split: sum.splits)
  qed simp
qed

section \<open>Lists and intervals\<close>

lemma card_int_interval: "card {p::int. a \<le> p \<and> p < b} = nat (b - a)"
proof -
  have "{p::int. a \<le> p \<and> p < b} = {a..<b}" by auto
  then show ?thesis by simp
qed

lemma finite_int_interval [simp]: "finite {p::int. a \<le> p \<and> p < b \<and> P p}"
  by (rule finite_subset [of _ "{a..<b}"]) auto

lemma div_eq_iff_interval:
  fixes p k i :: int
  assumes k: "0 < k"
  shows "p div k = i \<longleftrightarrow> k * i \<le> p \<and> p < k * (i + 1)"
proof
  assume "p div k = i"
  with mult_div_mod_eq [of k p] have "p = k * i + p mod k" by simp
  with k pos_mod_bound [OF k, of p] pos_mod_sign [OF k, of p]
  show "k * i \<le> p \<and> p < k * (i + 1)" by (simp add: algebra_simps)
next
  assume "k * i \<le> p \<and> p < k * (i + 1)"
  then have r: "0 \<le> p - k * i" "p - k * i < k" by (auto simp: algebra_simps)
  have "p div k = (p - k * i + k * i) div k" by simp
  also have "\<dots> = i" using k r by (subst div_mult_self2) auto
  finally show "p div k = i" .
qed

lemma div_less_factor:
  fixes i k n :: int
  assumes "0 < k" "i < k * n"
  shows "i div k < n"
proof -
  have "k * (i div k) \<le> i" using div_eq_iff_interval [OF assms(1), of i "i div k"] by simp
  with assms have "k * (i div k) < k * n" by linarith
  with assms(1) show ?thesis by simp
qed

lemma set_take_drop:
  assumes "n + m \<le> length xs"
  shows "set (take m (drop n xs)) = {xs ! (n + k) | k. k < m}"
proof -
  have "set (take m (drop n xs)) = {take m (drop n xs) ! k | k. k < m}"
    using assms by (simp add: set_conv_nth min_absorb2)
  also have "\<dots> = {xs ! (n + k) | k. k < m}" using assms by force
  finally show ?thesis .
qed

end
