(* ===== verification/C_Blocks.thy ===== *)
theory C_Blocks
  imports MPIPCL_Prelude
begin

text \<open>
  The heap blocks a request owns (\<open>malloc\<close>ed arrays reached through one pointer field each).
  A pointer that was never assigned is \<open>Indet\<close>, a failed allocation is \<open>Null\<close>, a live block
  holds its cells, and a freed block is \<open>Freed\<close>. A cell that was allocated but never
  written is \<open>None\<close>: reading it is undefined behaviour. Accesses outside the block and through
  a dead pointer are undefined behaviour as well.

  The interface the loops of the library rely on is the locale \<open>c_array\<close>; it is interpreted on
  these blocks as \<open>blk\<close>.
\<close>

section \<open>Blocks\<close>

datatype 'a block = Indet | Null | Live "'a option list" | Freed

definition blk_malloc :: "int \<Rightarrow> 'a block" where
  "blk_malloc n = (if n < 0 then Null else Live (replicate (nat n) None))"

fun blk_len :: "'a block \<Rightarrow> int" where
  "blk_len (Live xs) = int (length xs)"
| "blk_len _ = 0"

fun blk_get :: "'a block \<Rightarrow> int \<Rightarrow> 'a res" where
  "blk_get (Live xs) i =
     (if 0 \<le> i \<and> i < int (length xs)
      then (case xs ! nat i of None \<Rightarrow> Inl (Undefined UninitRead) | Some v \<Rightarrow> Inr v)
      else Inl (Undefined OutOfBounds))"
| "blk_get _ i = Inl (Undefined BadPointer)"

fun blk_set :: "'a block \<Rightarrow> int \<Rightarrow> 'a \<Rightarrow> 'a block res" where
  "blk_set (Live xs) i v =
     (if 0 \<le> i \<and> i < int (length xs) then Inr (Live (xs[nat i := Some v]))
      else Inl (Undefined OutOfBounds))"
| "blk_set _ i v = Inl (Undefined BadPointer)"

text \<open>\<open>free(NULL)\<close> does nothing; freeing twice, or an indeterminate pointer, is undefined.\<close>

fun blk_free :: "'a block \<Rightarrow> 'a block res" where
  "blk_free (Live xs) = Inr Freed"
| "blk_free Null = Inr Null"
| "blk_free Indet = Inl (Undefined BadPointer)"
| "blk_free Freed = Inl (Undefined BadPointer)"

text \<open>The cells \<open>p[start], \<dots>, p[start + n - 1]\<close>, as an MPI array argument reads them.\<close>

function blk_slice :: "'a block \<Rightarrow> int \<Rightarrow> int \<Rightarrow> 'a list res" where
  "blk_slice b start n =
     (if n \<le> 0 then Inr []
      else bindE (blk_get b start) (\<lambda>x.
           bindE (blk_slice b (start + 1) (n - 1)) (\<lambda>xs. Inr (x # xs))))"
  by pat_completeness auto
termination
  by (relation "measure (\<lambda>(_, _, n). nat n)") auto

declare blk_slice.simps [simp del]

text \<open>A block whose cells all hold a value, written as the list of the values.\<close>

definition filled :: "'a list \<Rightarrow> 'a block" where
  "filled xs = Live (map Some xs)"

lemma blk_len_filled [simp]: "blk_len (filled xs) = int (length xs)"
  by (simp add: filled_def)

lemma blk_get_filled [simp]:
  "0 \<le> i \<Longrightarrow> i < int (length xs) \<Longrightarrow> blk_get (filled xs) i = Inr (xs ! nat i)"
  by (simp add: filled_def)

lemma blk_get_filled_iff:
  "blk_get (filled xs) i = Inr v \<longleftrightarrow> 0 \<le> i \<and> i < int (length xs) \<and> v = xs ! nat i"
  by (auto simp: filled_def)

lemma blk_set_filled [simp]:
  "0 \<le> i \<Longrightarrow> i < int (length xs) \<Longrightarrow> blk_set (filled xs) i v = Inr (filled (xs[nat i := v]))"
  by (simp add: filled_def map_update)

lemma blk_set_filled_iff:
  "blk_set (filled xs) i v = Inr b \<longleftrightarrow>
     0 \<le> i \<and> i < int (length xs) \<and> b = filled (xs[nat i := v])"
  by (auto simp: filled_def map_update)

lemma blk_free_filled [simp]: "blk_free (filled xs) = Inr Freed"
  by (simp add: filled_def)

lemma filled_eq_iff [simp]: "filled xs = filled ys \<longleftrightarrow> xs = ys"
  by (auto simp: filled_def inj_map_eq_map)

lemma blk_slice_filled:
  "0 \<le> a \<Longrightarrow> 0 \<le> n \<Longrightarrow> a + n \<le> int (length xs) \<Longrightarrow>
   blk_slice (filled xs) a n = Inr (take (nat n) (drop (nat a) xs))"
proof (induction "filled xs" a n rule: blk_slice.induct)
  case (1 a n)
  show ?case
  proof (cases "n \<le> 0")
    case True
    then show ?thesis by (simp add: blk_slice.simps)
  next
    case False
    with 1(2-4) have get: "blk_get (filled xs) a = Inr (xs ! nat a)" by simp
    have "blk_slice (filled xs) (a + 1) (n - 1) = Inr (take (nat (n - 1)) (drop (nat (a + 1)) xs))"
      using 1(2-4) False by (intro 1(1) [OF False get]) auto
    moreover have "xs ! nat a # take (nat (n - 1)) (drop (nat (a + 1)) xs) = take (nat n) (drop (nat a) xs)"
      using False 1(2,3,4) by (simp add: Cons_nth_drop_Suc [symmetric] nat_add_distrib take_Cons' nat_diff_distrib)
    ultimately show ?thesis
      using False get by (simp add: blk_slice.simps [of _ a n])
  qed
qed

lemma blk_slice_all: "blk_slice (filled xs) 0 (int (length xs)) = Inr xs"
  by (simp add: blk_slice_filled)

text \<open>The values of a block, and the blocks all of whose \<open>n\<close> cells hold a value.\<close>

fun blk_vals :: "'a block \<Rightarrow> 'a list" where
  "blk_vals (Live xs) = map the xs"
| "blk_vals _ = []"

fun is_filled :: "'a block \<Rightarrow> int \<Rightarrow> bool" where
  "is_filled (Live xs) n = (int (length xs) = n \<and> None \<notin> set xs)"
| "is_filled _ n = False"

lemma blk_vals_filled [simp]: "blk_vals (filled xs) = xs"
  by (simp add: filled_def comp_def)

lemma is_filled_filled [simp]: "is_filled (filled xs) n \<longleftrightarrow> int (length xs) = n"
  by (auto simp: filled_def)

lemma is_filledE:
  assumes "is_filled b n"
  obtains xs where "b = filled xs" "int (length xs) = n"
proof -
  from assms obtain ys where b: "b = Live ys" "int (length ys) = n" "None \<notin> set ys"
    by (cases b) auto
  from b(3) have "map Some (map the ys) = ys"
    by (induction ys) auto
  with b that [of "map the ys"] show thesis by (simp add: filled_def)
qed

lemma is_filled_iff: "is_filled b n \<longleftrightarrow> b = filled (blk_vals b) \<and> int (length (blk_vals b)) = n"
  by (auto elim!: is_filledE) (metis is_filled_filled)

lemma blk_free_is_filled: "is_filled b n \<Longrightarrow> blk_free b = Inr Freed"
  by (auto elim!: is_filledE)

section \<open>The array interface\<close>

locale c_array =
  fixes get :: "'b \<Rightarrow> int \<Rightarrow> 'a res"
    and put :: "'b \<Rightarrow> int \<Rightarrow> 'a \<Rightarrow> 'b res"
    and len :: "'b \<Rightarrow> int"
  assumes put_ok: "0 \<le> i \<Longrightarrow> i < len b \<Longrightarrow> \<exists>b'. put b i v = Inr b'"
    and put_in_bounds: "put b i v = Inr b' \<Longrightarrow> 0 \<le> i \<and> i < len b"
    and put_len: "put b i v = Inr b' \<Longrightarrow> len b' = len b"
    and get_put_same: "put b i v = Inr b' \<Longrightarrow> get b' i = Inr v"
    and get_put_other: "put b i v = Inr b' \<Longrightarrow> j \<noteq> i \<Longrightarrow> get b' j = get b j"
begin

text \<open>The loop that stores one value in the cells \<open>0, \<dots>, n - 1\<close>.\<close>

lemma fill_loop:
  assumes "0 \<le> n" "n \<le> len b"
  shows "\<exists>b'. for_up 0 n (\<lambda>i b. put b i v) b = Inr b' \<and> len b' = len b
      \<and> (\<forall>j. get b' j = (if 0 \<le> j \<and> j < n then Inr v else get b j))"
proof -
  let ?I = "\<lambda>k b'. len b' = len b
      \<and> (\<forall>j. get b' j = (if 0 \<le> j \<and> j < k then Inr v else get b j))"
  show ?thesis
  proof (rule for_up_inv [where I = ?I, OF assms(1)])
    show "?I 0 b" by auto
  next
    fix i c assume i: "0 \<le> i" "i < n" and I: "?I i c"
    then obtain c' where c': "put c i v = Inr c'"
      using put_ok [of i c v] assms by auto
    have "get c' j = (if 0 \<le> j \<and> j < i + 1 then Inr v else get b j)" for j
      using I i get_put_same [OF c'] get_put_other [OF c', of j] by (cases "j = i") auto
    with I c' put_len [OF c'] show "\<exists>c'. put c i v = Inr c' \<and> ?I (i + 1) c'" by auto
  qed
qed

end

interpretation blk: c_array blk_get blk_set blk_len
proof
  fix b :: "'a block" and i v
  show "0 \<le> i \<Longrightarrow> i < blk_len b \<Longrightarrow> \<exists>b'. blk_set b i v = Inr b'"
    by (cases b) auto
next
  fix b b' :: "'a block" and i v
  assume p: "blk_set b i v = Inr b'"
  then obtain xs where b: "b = Live xs" by (cases b) auto
  with p show "0 \<le> i \<and> i < blk_len b" "blk_len b' = blk_len b" "blk_get b' i = Inr v"
    by (auto split: if_splits)
  show "blk_get b' j = blk_get b j" if "j \<noteq> i" for j
    using p b that by (auto simp: nth_list_update split: if_splits)
qed

text \<open>On blocks the fill loop has a closed form.\<close>

lemma blk_ext:
  assumes "\<forall>j. blk_get b j = Inr (xs ! nat j) \<or> \<not> (0 \<le> j \<and> j < blk_len b)"
    and "blk_len b = int (length xs)" and "xs \<noteq> []"
  shows "b = filled xs"
proof -
  from assms(2,3) obtain ys where b: "b = Live ys" by (cases b) auto
  have "ys ! k = Some (xs ! k)" if "k < length ys" for k
    using assms(1)[rule_format, of "int k"] that b by (auto split: option.splits)
  with b assms(2) show ?thesis
    by (auto simp: filled_def intro!: nth_equalityI)
qed

lemma blk_fill_loop:
  assumes "length xs = nat n" "0 \<le> n"
  shows "for_up 0 n (\<lambda>i b. blk_set b i v) (Live xs) = Inr (filled (replicate (nat n) v))"
proof (cases "n = 0")
  case True
  with assms show ?thesis by (simp add: filled_def)
next
  case False
  from assms have "n \<le> blk_len (Live xs)" by simp
  from blk.fill_loop [OF assms(2) this, of v] obtain b' where b':
    "for_up 0 n (\<lambda>i b. blk_set b i v) (Live xs) = Inr b'" "blk_len b' = n"
    "\<forall>j. blk_get b' j = (if 0 \<le> j \<and> j < n then Inr v else blk_get (Live xs) j)"
    using assms by auto
  have "b' = filled (replicate (nat n) v)"
    using b' False assms(2) by (intro blk_ext) (auto simp: nat_less_iff)
  with b' show ?thesis by simp
qed

end
