(* ===== verification/MPI_Layer.thy ===== *)
theory MPI_Layer
  imports C_Blocks
begin

text \<open>
  MPI is not part of the repository: it is a parameter of the model. A value of type \<open>mpi\<close> says
  how the MPI library answers each call of the code, and every answer may depend on the whole
  history of the calls made so far, newest first. A theorem that holds for every \<open>mpi\<close>
  therefore holds for every behaviour of the network and of the peer. What the MPI standard
  promises about the answers is stated below as named predicates, which the theorems that need
  them take as hypotheses. The history is also what the library does to the outside world:
  which messages it creates, starts, tests, waits for and frees, and in which order.
\<close>

section \<open>Calls, histories and the parameter\<close>

text \<open>
  The arguments of \<open>MPI_Send_init\<close> and \<open>MPI_Recv_init\<close>. Buffers are byte addresses, and
  communicators, datatypes, info objects and request handles are opaque numbers.
\<close>

record msg =
  m_buf :: int
  m_count :: int
  m_type :: nat
  m_peer :: int
  m_tag :: int
  m_comm :: nat

datatype mcall =
    CTypeExtent nat
  | CInfoGet nat string
  | CSendInit msg nat
  | CRecvInit msg nat
  | CStart nat
  | CStartall "nat list"
  | CTestall "nat list" int
  | CWaitall "nat list"
  | CFree nat
  | CSend "int list" int int nat
  | CRecv "int list" int int nat

type_synonym hist = "mcall list"

datatype info = MPI_INFO_NULL | Info nat

text \<open>
  \<^item> \<open>rc M h\<close>: the return code of the call made after history \<open>h\<close>;
  \<^item> \<open>new_handle M h\<close>: the request handle an init call creates;
  \<^item> \<open>testall_flag M h xs\<close>: the flag \<open>MPI_Testall\<close> stores;
  \<^item> \<open>waitall_ret M h xs\<close>: whether \<open>MPI_Waitall\<close> returns (it blocks forever otherwise);
  \<^item> \<open>send_ret\<close>, \<open>recv_data\<close>: whether a blocking send returns, what a blocking receive stores
    (\<open>None\<close>: it blocks forever);
  \<^item> \<open>type_extent M t\<close>: the extent of a datatype; \<open>info_get M i k n\<close>: the string of at most \<open>n\<close>
    characters \<open>MPI_Info_get\<close> stores, or \<open>None\<close> when it clears its flag.
\<close>

record mpi =
  rc :: "hist \<Rightarrow> int"
  new_handle :: "hist \<Rightarrow> nat"
  testall_flag :: "hist \<Rightarrow> nat list \<Rightarrow> int"
  waitall_ret :: "hist \<Rightarrow> nat list \<Rightarrow> bool"
  send_ret :: "hist \<Rightarrow> int \<Rightarrow> int \<Rightarrow> nat \<Rightarrow> bool"
  recv_data :: "hist \<Rightarrow> int \<Rightarrow> int \<Rightarrow> nat \<Rightarrow> (int \<times> int) option"
  type_extent :: "nat \<Rightarrow> int"
  info_get :: "nat \<Rightarrow> string \<Rightarrow> nat \<Rightarrow> string option"

abbreviation (input) MPI_SUCCESS :: int where "MPI_SUCCESS \<equiv> 0"

text \<open>A call whose return code is asserted.\<close>

definition mpi_call :: "mpi \<Rightarrow> mcall \<Rightarrow> hist \<Rightarrow> hist res" where
  "mpi_call M c h = bindE (c_assert (rc M h = MPI_SUCCESS)) (\<lambda>_. Inr (c # h))"

definition MPI_Testall :: "mpi \<Rightarrow> nat list \<Rightarrow> hist \<Rightarrow> (int \<times> hist) res" where
  "MPI_Testall M xs h =
     (let flag = testall_flag M h xs
      in bindE (mpi_call M (CTestall xs flag) h) (\<lambda>h. Inr (flag, h)))"

definition MPI_Waitall :: "mpi \<Rightarrow> nat list \<Rightarrow> hist \<Rightarrow> hist res" where
  "MPI_Waitall M xs h = (if waitall_ret M h xs then mpi_call M (CWaitall xs) h else Inl Blocked)"

section \<open>What a history says about a request handle\<close>

text \<open>
  A persistent request is \<^emph>\<open>active\<close> from a start call until a test that reports completion or
  a wait that returns.
\<close>

fun active :: "hist \<Rightarrow> nat \<Rightarrow> bool" where
  "active [] x = False"
| "active (CStart y # h) x = (y = x \<or> active h x)"
| "active (CStartall ys # h) x = (x \<in> set ys \<or> active h x)"
| "active (CTestall ys flag # h) x = (active h x \<and> \<not> (flag \<noteq> 0 \<and> x \<in> set ys))"
| "active (CWaitall ys # h) x = (active h x \<and> x \<notin> set ys)"
| "active (c # h) x = active h x"

text \<open>The number of start operations on a handle, and the handles of the requests
  that were created and not freed.\<close>

fun starts_of :: "mcall \<Rightarrow> nat \<Rightarrow> nat" where
  "starts_of (CStart y) x = (if y = x then 1 else 0)"
| "starts_of (CStartall ys) x = count_list ys x"
| "starts_of _ x = 0"

fun starts :: "hist \<Rightarrow> nat \<Rightarrow> nat" where
  "starts [] x = 0"
| "starts (c # h) x = starts_of c x + starts h x"

fun issued :: "hist \<Rightarrow> nat set" where
  "issued [] = {}"
| "issued (CSendInit m y # h) = insert y (issued h)"
| "issued (CRecvInit m y # h) = insert y (issued h)"
| "issued (CFree y # h) = issued h - {y}"
| "issued (c # h) = issued h"

lemma starts_append [simp]: "starts (cs @ h) x = starts cs x + starts h x"
  by (induction cs) auto

lemma starts_rev [simp]: "starts (rev cs) x = starts cs x"
  by (induction cs) auto

lemma starts_map_CStart: "starts (map CStart xs) x = count_list xs x"
  by (induction xs) auto

lemma count_list_distinct: "distinct xs \<Longrightarrow> count_list xs x = (if x \<in> set xs then 1 else 0)"
  by (induction xs) auto

lemma inactive_without_starts: "starts cs x = 0 \<Longrightarrow> \<not> active h x \<Longrightarrow> \<not> active (cs @ h) x"
proof (induction cs)
  case (Cons c cs)
  then show ?case by (cases c) (auto simp: count_list_0_iff split: if_splits)
qed simp

section \<open>What the MPI standard promises\<close>

text \<open>Calls succeed: the default error handler aborts the job instead of returning an error.\<close>

definition mpi_succeeds :: "mpi \<Rightarrow> bool" where
  "mpi_succeeds M \<longleftrightarrow> (\<forall>h. rc M h = MPI_SUCCESS)"

text \<open>A new persistent request has a handle that no live request has.\<close>

definition fresh_handles :: "mpi \<Rightarrow> bool" where
  "fresh_handles M \<longleftrightarrow> (\<forall>h. new_handle M h \<notin> issued h)"

text \<open>
  \<open>MPI_Testall\<close> stores a truth value, and stores true when no request of the array is active;
  \<open>MPI_Waitall\<close> returns at once when no request of the array is active.
\<close>

definition flags_boolean :: "mpi \<Rightarrow> bool" where
  "flags_boolean M \<longleftrightarrow> (\<forall>h xs. testall_flag M h xs = 0 \<or> testall_flag M h xs = 1)"

definition inactive_tests_true :: "mpi \<Rightarrow> bool" where
  "inactive_tests_true M \<longleftrightarrow>
     (\<forall>h xs. (\<forall>x\<in>set xs. \<not> active h x) \<longrightarrow> testall_flag M h xs = 1)"

definition inactive_waits_return :: "mpi \<Rightarrow> bool" where
  "inactive_waits_return M \<longleftrightarrow>
     (\<forall>h xs. (\<forall>x\<in>set xs. \<not> active h x) \<longrightarrow> waitall_ret M h xs)"

definition info_bounded :: "mpi \<Rightarrow> bool" where
  "info_bounded M \<longleftrightarrow> (\<forall>i k n v. info_get M i k n = Some v \<longrightarrow> length v \<le> n)"

lemma mpi_call_succeeds [simp]: "mpi_succeeds M \<Longrightarrow> mpi_call M c h = Inr (c # h)"
  by (simp add: mpi_call_def mpi_succeeds_def)

lemma mpi_call_eq_Inr: "mpi_call M c h = Inr h' \<longleftrightarrow> rc M h = MPI_SUCCESS \<and> h' = c # h"
  by (auto simp: mpi_call_def)

lemma MPI_Testall_eq_Inr:
  "MPI_Testall M xs h = Inr (f, h') \<longleftrightarrow>
     rc M h = MPI_SUCCESS \<and> f = testall_flag M h xs \<and> h' = CTestall xs f # h"
  by (auto simp: MPI_Testall_def Let_def mpi_call_eq_Inr)

lemma MPI_Testall_succeeds:
  "mpi_succeeds M \<Longrightarrow>
   MPI_Testall M xs h = Inr (testall_flag M h xs, CTestall xs (testall_flag M h xs) # h)"
  by (simp add: MPI_Testall_def Let_def)

lemma MPI_Waitall_eq_Inr:
  "MPI_Waitall M xs h = Inr h' \<longleftrightarrow>
     waitall_ret M h xs \<and> rc M h = MPI_SUCCESS \<and> h' = CWaitall xs # h"
  by (auto simp: MPI_Waitall_def mpi_call_eq_Inr)

section \<open>A concrete instance, for the witnesses\<close>

text \<open>
  \<open>mpi_run i d c\<close>: every call succeeds, a new request gets the least handle above
  all earlier ones,
  the info object holds \<open>i\<close>, a blocking receive gets \<open>d\<close>, and an active request completes
  exactly when \<open>c\<close> holds of the history and the handle.
\<close>

fun next_handle :: "hist \<Rightarrow> nat" where
  "next_handle [] = 0"
| "next_handle (CSendInit m y # h) = max (Suc y) (next_handle h)"
| "next_handle (CRecvInit m y # h) = max (Suc y) (next_handle h)"
| "next_handle (c # h) = next_handle h"

definition mpi_run ::
    "(nat \<Rightarrow> string \<Rightarrow> string option) \<Rightarrow> (int \<times> int) option \<Rightarrow> (hist \<Rightarrow> nat \<Rightarrow> bool) \<Rightarrow> mpi" where
  "mpi_run i d c =
     \<lparr>rc = (\<lambda>h. MPI_SUCCESS),
      new_handle = next_handle,
      testall_flag = (\<lambda>h xs. if list_all (\<lambda>x. active h x \<longrightarrow> c h x) xs then 1 else 0),
      waitall_ret = (\<lambda>h xs. list_all (\<lambda>x. active h x \<longrightarrow> c h x) xs),
      send_ret = (\<lambda>h p t k. True),
      recv_data = (\<lambda>h p t k. d),
      type_extent = (\<lambda>t. 8),
      info_get = (\<lambda>j k n. map_option (take n) (i j k))\<rparr>"

abbreviation mpi_done :: mpi where
  "mpi_done \<equiv> mpi_run (\<lambda>j k. None) None (\<lambda>h x. True)"

abbreviation mpi_pending :: mpi where
  "mpi_pending \<equiv> mpi_run (\<lambda>j k. None) None (\<lambda>h x. False)"

lemma mpi_run_sel [simp]:
  "rc (mpi_run i d c) h = MPI_SUCCESS" "send_ret (mpi_run i d c) h p t k"
  "recv_data (mpi_run i d c) h p t k = d" "type_extent (mpi_run i d c) ty = 8"
  "new_handle (mpi_run i d c) h = next_handle h"
  "info_get (mpi_run i d c) j key n = map_option (take n) (i j key)"
  by (simp_all add: mpi_run_def)

lemma mpi_run_succeeds [simp]: "mpi_succeeds (mpi_run i d c)"
  by (simp add: mpi_succeeds_def mpi_run_def)

lemma mpi_run_flags [simp]: "flags_boolean (mpi_run i d c)"
  by (simp add: flags_boolean_def mpi_run_def)

lemma mpi_run_inactive [simp]: "inactive_tests_true (mpi_run i d c)"
  "inactive_waits_return (mpi_run i d c)"
  by (auto simp: inactive_tests_true_def inactive_waits_return_def mpi_run_def list_all_iff)

lemma mpi_run_info [simp]: "info_bounded (mpi_run i d c)"
  by (auto simp: info_bounded_def mpi_run_def)

lemma issued_next_handle: "x \<in> issued h \<Longrightarrow> x < next_handle h"
  by (induction h rule: issued.induct) auto

lemma mpi_run_fresh [simp]: "fresh_handles (mpi_run i d c)"
  by (auto simp: fresh_handles_def mpi_run_def dest: issued_next_handle)

end
