(* ===== verification/Request.thy ===== *)
theory Request
  imports MPI_Layer
begin

text \<open>
  The data of the library (\<open>include/mpipcl.h\<close>): the enums, the message block \<open>meta\<close> and the
  request object \<open>MPIP_Request\<close>, field by field, and the well-formedness of a request whose
  internal setup has finished.
\<close>

datatype p2p_side = SENDER | RECEIVER

datatype activation = INACTIVE | ACTIVE

datatype thread_status = NONE | RUNNING | FINISHED

text \<open>The enum values of \<open>Thread_Status\<close> (\<open>-1\<close>, \<open>0\<close>, \<open>1\<close>) order its states.\<close>

fun thread_code :: "thread_status \<Rightarrow> int" where
  "thread_code NONE = -1"
| "thread_code RUNNING = 0"
| "thread_code FINISHED = 1"

instantiation thread_status :: linorder
begin

definition less_eq_thread_status :: "thread_status \<Rightarrow> thread_status \<Rightarrow> bool" where
  "less_eq_thread_status a b \<longleftrightarrow> thread_code a \<le> thread_code b"

definition less_thread_status :: "thread_status \<Rightarrow> thread_status \<Rightarrow> bool" where
  "less_thread_status a b \<longleftrightarrow> thread_code a < thread_code b"

instance
proof
  fix a b :: thread_status
  show "a \<le> b \<Longrightarrow> b \<le> a \<Longrightarrow> a = b"
    by (cases a; cases b) (auto simp: less_eq_thread_status_def)
qed (auto simp: less_eq_thread_status_def less_thread_status_def)

end

text \<open>\<open>!side\<close>, with \<open>SENDER = 0\<close> and \<open>RECEIVER = 1\<close>.\<close>

fun not_side :: "p2p_side \<Rightarrow> p2p_side" where
  "not_side SENDER = RECEIVER"
| "not_side RECEIVER = SENDER"

lemma not_side_neq [simp]: "not_side s \<noteq> s" "s \<noteq> not_side s"
  by (cases s; simp)+

lemma not_side_iff: "s \<noteq> t \<longleftrightarrow> s = not_side t"
  by (cases s; cases t) auto

record meta =
  buff :: int
  partner :: int
  tag :: int
  comm :: nat
  mtype :: nat

text \<open>
  The states of the two pthread objects a request holds. \<open>Spawned\<close> is a thread that has been
  created and has not run its body yet, \<open>Exited\<close> one that has returned.
\<close>

datatype pthread = NoThread | Spawned | Exited

datatype mutex = MIndet | MReady | MDestroyed

record mpip =
  state :: activation
  side :: p2p_side
  local_status :: "bool block"
  internal_status :: "int block"
  local_parts :: int
  local_size :: int
  parts :: int
  psize :: int
  request :: "nat block"
  comm_data :: "meta block"
  sync_thread :: pthread
  lock :: mutex
  threaded :: thread_status

text \<open>
  The field \<open>psize\<close> is the source's \<open>size\<close>. \<open>lock_pair\<close> is a critical section
  \<open>pthread_mutex_lock \<dots> pthread_mutex_unlock\<close> of one call; what it protects follows it.
\<close>

definition lock_pair :: "mpip \<Rightarrow> unit res" where
  "lock_pair r = (if lock r = MReady then Inr () else Inl (Undefined BadMutex))"

lemma lock_pair_ready [simp]: "lock r = MReady \<Longrightarrow> lock_pair r = Inr ()"
  by (simp add: lock_pair_def)

lemma lock_pair_eq_Inr: "lock_pair r = Inr u \<longleftrightarrow> lock r = MReady"
  by (simp add: lock_pair_def)

text \<open>
  A request after \<open>internal_setup\<close>: its counts are positive \<open>int\<close>s, its arrays are live with
  one cell per partition and per message, its message block is live, and the handles of its
  messages are distinct.
\<close>

definition setup_ok :: "mpip \<Rightarrow> bool" where
  "setup_ok r \<longleftrightarrow>
     0 < local_parts r \<and> local_parts r \<le> INT_MAX \<and> 0 < parts r \<and> parts r \<le> INT_MAX
     \<and> blk_len (local_status r) = local_parts r
     \<and> is_filled (internal_status r) (parts r)
     \<and> is_filled (request r) (parts r) \<and> distinct (blk_vals (request r))
     \<and> is_filled (comm_data r) 1 \<and> lock r = MReady"

abbreviation handles :: "mpip \<Rightarrow> nat list" where
  "handles r \<equiv> blk_vals (request r)"

abbreviation counters :: "mpip \<Rightarrow> int list" where
  "counters r \<equiv> blk_vals (internal_status r)"

lemma setup_okD:
  assumes "setup_ok r"
  shows "0 < local_parts r" "local_parts r \<le> INT_MAX" "0 < parts r" "parts r \<le> INT_MAX"
    "request r = filled (handles r)" "int (length (handles r)) = parts r" "distinct (handles r)"
    "internal_status r = filled (counters r)" "int (length (counters r)) = parts r"
    "blk_len (local_status r) = local_parts r" "lock r = MReady"
  using assms by (simp_all add: setup_ok_def is_filled_iff)

text \<open>All ready flags of the user partitions are initialised.\<close>

definition flags_set :: "mpip \<Rightarrow> bool" where
  "flags_set r \<longleftrightarrow> is_filled (local_status r) (local_parts r)"

text \<open>The partitions marked ready.\<close>

definition marked :: "mpip \<Rightarrow> int set" where
  "marked r = {p. blk_get (local_status r) p = Inr True}"

lemma marked_bounds: "p \<in> marked r \<Longrightarrow> 0 \<le> p \<and> p < blk_len (local_status r)"
  by (cases "local_status r") (auto simp: marked_def split: if_splits)

lemma finite_marked [simp]: "finite (marked r)"
  by (rule finite_subset [of _ "{0..<blk_len (local_status r)}"]) (auto dest: marked_bounds)

lemma marked_cong: "local_status r = local_status r' \<Longrightarrow> marked r = marked r'"
  by (simp add: marked_def)

end
