(* ===== verification/Sync.thy ===== *)
theory Sync
  imports Request
begin

text \<open>
  The two ways the number of internal messages is settled (\<open>library/source/sync.c\<close>): a number
  both sides were given (\<open>sync_hard\<close>), or one side sends its own partitioning to the other
  (\<open>sync_side\<close>). The thread that runs \<open>sync_side\<close> in the background is in \<open>Sync_Thread\<close>.
\<close>

definition sync_hard :: "int \<Rightarrow> mpip \<Rightarrow> mpip res" where
  "sync_hard option r =
     (let r = r\<lparr>parts := option\<rparr> in
      bindE (c_mul (local_parts r) (local_size r)) (\<lambda>total.
      bindE (c_div total option) (\<lambda>q. Inr (r\<lparr>psize := q\<rparr>))))"

text \<open>The tag of the synchronisation messages is fixed.\<close>

abbreviation (input) sync_tag :: int where "sync_tag \<equiv> 990"

definition sync_side :: "mpi \<Rightarrow> p2p_side \<Rightarrow> mpip \<times> hist \<Rightarrow> (mpip \<times> hist) res" where
  "sync_side M driver = (\<lambda>(r, h).
     bindE (blk_get (comm_data r) 0) (\<lambda>m.
     bindE
       (if side r = driver
        then (if send_ret M h (partner m) sync_tag (comm m)
              then Inr (local_parts r, local_size r,
                        CSend [local_parts r, local_size r] (partner m) sync_tag (comm m) # h)
              else Inl Blocked)
        else (case recv_data M h (partner m) sync_tag (comm m) of
                None \<Rightarrow> Inl Blocked
              | Some (a, b) \<Rightarrow> Inr (a, b, CRecv [a, b] (partner m) sync_tag (comm m) # h)))
       (\<lambda>(data0, data1, h). Inr (r\<lparr>parts := data0, psize := data1\<rparr>, h))))"

lemma sync_hard_eq:
  assumes "0 \<le> local_parts r * local_size r" "local_parts r * local_size r \<le> INT_MAX" "0 < n"
  shows "sync_hard n r = Inr (r\<lparr>parts := n, psize := local_parts r * local_size r div n\<rparr>)"
  using assms by (simp add: sync_hard_def c_mul_def c_div_pos)

lemma sync_hard_fields:
  "sync_hard n r = Inr r' \<Longrightarrow> \<exists>q. r' = r\<lparr>parts := n, psize := q\<rparr>"
  by (auto simp: sync_hard_def Let_def)

lemma sync_side_driver:
  "side r = d \<Longrightarrow> comm_data r = filled [m] \<Longrightarrow> send_ret M h (partner m) sync_tag (comm m) \<Longrightarrow>
   sync_side M d (r, h) =
     Inr (r\<lparr>parts := local_parts r, psize := local_size r\<rparr>,
          CSend [local_parts r, local_size r] (partner m) sync_tag (comm m) # h)"
  by (simp add: sync_side_def)

lemma sync_side_other:
  "side r \<noteq> d \<Longrightarrow> comm_data r = filled [m] \<Longrightarrow>
   recv_data M h (partner m) sync_tag (comm m) = Some (a, b) \<Longrightarrow>
   sync_side M d (r, h) =
     Inr (r\<lparr>parts := a, psize := b\<rparr>, CRecv [a, b] (partner m) sync_tag (comm m) # h)"
  by (simp add: sync_side_def)

lemma sync_side_fields:
  "sync_side M d (r, h) = Inr (r', h') \<Longrightarrow>
   \<exists>a b c. r' = r\<lparr>parts := a, psize := b\<rparr> \<and> h' = c # h \<and> (\<forall>x. starts_of c x = 0) \<and> issued h' = issued h"
  by (auto simp: sync_side_def split: if_splits option.splits)

end
