(* ===== verification/Partition_Map.thy ===== *)
theory Partition_Map
  imports Request
begin

text \<open>
  Which internal messages (network partitions) carry an external partition: the function
  \<open>map_local_to_network_partitions\<close> of \<open>library/source/send.c\<close> with its checked arithmetic, the
  range \<open>net_range\<close> it computes in the configurations the library supports, and the contract
  \<open>partition_map\<close> that \<open>general_send\<close> and \<open>map_recv_buffer\<close> rely on.
\<close>

section \<open>The function of the source\<close>

text \<open>
  The quotient \<open>network_partitions / user_partitions\<close> is an integer division, so the call of
  \<open>ceil\<close> on it does nothing; the product with \<open>user_partition_id + 1\<close> is computed in
  floating point and converted back to \<open>int\<close>, which is exact in the \<open>int\<close> range and undefined
  outside it.
\<close>

definition map_local_to_network_partitions :: "int \<Rightarrow> mpip \<Rightarrow> (int \<times> int) res" where
  "map_local_to_network_partitions user_partition_id r =
     (let user_partitions = local_parts r; network_partitions = parts r in
      bindE (c_div network_partitions user_partitions) (\<lambda>q.
      bindE (c_mul q user_partition_id) (\<lambda>temp_start.
      bindE (c_add user_partition_id 1) (\<lambda>next.
      bindE (c_mul q next) (\<lambda>temp_end.
      bindE (c_assert (0 \<le> temp_start \<and> temp_start < temp_end \<and> temp_end \<le> network_partitions))
        (\<lambda>_. Inr (temp_start, temp_end)))))))"

section \<open>The range and its contract\<close>

text \<open>
  The supported configurations: one of the two partition counts divides the other. With at
  least as many messages as partitions, each partition has its own messages; with fewer, a
  message waits for \<open>lp div n\<close> partitions.
\<close>

definition aligned :: "int \<Rightarrow> int \<Rightarrow> bool" where
  "aligned lp n \<longleftrightarrow>
     0 < lp \<and> 0 < n \<and> lp \<le> INT_MAX \<and> n \<le> INT_MAX \<and> (n mod lp = 0 \<or> lp mod n = 0)"

definition net_threshold :: "int \<Rightarrow> int \<Rightarrow> int" where
  "net_threshold lp n = (if lp \<le> n then 1 else lp div n)"

definition net_range :: "int \<Rightarrow> int \<Rightarrow> int \<Rightarrow> int \<times> int" where
  "net_range lp n p =
     (if lp \<le> n then (n div lp * p, n div lp * (p + 1))
      else (p div (lp div n), p div (lp div n) + 1))"

text \<open>The user partitions whose range contains message \<open>i\<close>.\<close>

definition deps :: "int \<Rightarrow> int \<Rightarrow> int \<Rightarrow> int set" where
  "deps lp n i = {p. 0 \<le> p \<and> p < lp \<and> fst (net_range lp n p) \<le> i \<and> i < snd (net_range lp n p)}"

locale partition_map =
  fixes ok :: "int \<Rightarrow> int \<Rightarrow> bool"
    and rng :: "int \<Rightarrow> int \<Rightarrow> int \<Rightarrow> int \<times> int"
    and thr :: "int \<Rightarrow> int \<Rightarrow> int"
    and dep :: "int \<Rightarrow> int \<Rightarrow> int \<Rightarrow> int set"
  assumes dep_def: "dep lp n i = {p. 0 \<le> p \<and> p < lp \<and> fst (rng lp n p) \<le> i \<and> i < snd (rng lp n p)}"
    and rng_in: "ok lp n \<Longrightarrow> 0 \<le> p \<Longrightarrow> p < lp \<Longrightarrow>
          0 \<le> fst (rng lp n p) \<and> fst (rng lp n p) < snd (rng lp n p) \<and> snd (rng lp n p) \<le> n"
    and fan_in: "ok lp n \<Longrightarrow> 0 \<le> i \<Longrightarrow> i < n \<Longrightarrow> int (card (dep lp n i)) = thr lp n"
    and thr_pos: "ok lp n \<Longrightarrow> 0 < thr lp n"
begin

lemma finite_dep [simp]: "finite (dep lp n i)"
  by (rule finite_subset [of _ "{0..<lp}"]) (auto simp: dep_def)

lemma dep_in: "p \<in> dep lp n i \<Longrightarrow> 0 \<le> p \<and> p < lp"
  by (simp add: dep_def)

lemma dep_nonempty: "ok lp n \<Longrightarrow> 0 \<le> i \<Longrightarrow> i < n \<Longrightarrow> dep lp n i \<noteq> {}"
  using fan_in [of lp n i] thr_pos [of lp n] by auto

lemma ready_count_le: "ok lp n \<Longrightarrow> 0 \<le> i \<Longrightarrow> i < n \<Longrightarrow> int (card (R \<inter> dep lp n i)) \<le> thr lp n"
  using fan_in [of lp n i] card_mono [OF finite_dep, of "R \<inter> dep lp n i" lp n i] by auto

text \<open>A message has reached its threshold exactly when all its partitions are ready.\<close>

lemma threshold_reached:
  assumes "ok lp n" "0 \<le> i" "i < n"
  shows "int (card (R \<inter> dep lp n i)) = thr lp n \<longleftrightarrow> dep lp n i \<subseteq> R"
proof
  assume "int (card (R \<inter> dep lp n i)) = thr lp n"
  then have "card (R \<inter> dep lp n i) = card (dep lp n i)" using fan_in [OF assms] by simp
  then have "R \<inter> dep lp n i = dep lp n i"
    by (intro card_subset_eq) auto
  then show "dep lp n i \<subseteq> R" by auto
next
  assume "dep lp n i \<subseteq> R"
  then have "R \<inter> dep lp n i = dep lp n i" by auto
  then show "int (card (R \<inter> dep lp n i)) = thr lp n" using fan_in [OF assms] by simp
qed

text \<open>Marking one more partition raises the count of its own messages by one, of no other.\<close>

lemma ready_count_insert:
  assumes "p \<notin> R"
  shows "card (insert p R \<inter> dep lp n i)
       = card (R \<inter> dep lp n i) + (if p \<in> dep lp n i then 1 else 0)"
proof -
  have "insert p R \<inter> dep lp n i
      = (if p \<in> dep lp n i then insert p (R \<inter> dep lp n i) else R \<inter> dep lp n i)" by auto
  then show ?thesis using assms by auto
qed

lemma every_partition_has_a_message:
  "ok lp n \<Longrightarrow> 0 \<le> p \<Longrightarrow> p < lp \<Longrightarrow> \<exists>i. 0 \<le> i \<and> i < n \<and> p \<in> dep lp n i"
  using rng_in [of lp n p] by (intro exI [of _ "fst (rng lp n p)"]) (auto simp: dep_def)

end

lemma aligned_cases:
  assumes "aligned lp n"
  obtains (split) k where "lp \<le> n" "0 < k" "n = k * lp" "n div lp = k"
        | (join) k where "n < lp" "0 < k" "lp = k * n" "lp div n = k"
proof (cases "lp \<le> n")
  case True
  have "n mod lp = 0"
  proof (cases "n mod lp = 0")
    case False
    with assms have "lp mod n = 0" by (simp add: aligned_def)
    with assms True have "lp = n" by (auto simp: aligned_def dest!: zdvd_imp_le [rotated] simp: mod_0_imp_dvd)
    then show ?thesis by simp
  qed
  then have "n = n div lp * lp" by auto
  moreover from assms True have "0 < n div lp" by (simp add: aligned_def pos_imp_zdiv_pos_iff)
  ultimately show ?thesis using split True by blast
next
  case False
  with assms have "\<not> lp dvd n" by (auto simp: aligned_def dest: zdvd_imp_le)
  with assms have "lp mod n = 0" by (auto simp: aligned_def)
  then have "lp = lp div n * n" by auto
  moreover from assms False have "0 < lp div n" by (simp add: aligned_def pos_imp_zdiv_pos_iff)
  ultimately show ?thesis using join False by force
qed

lemma net_range_split: "n = k * lp \<Longrightarrow> 0 < lp \<Longrightarrow> lp \<le> n \<Longrightarrow> net_range lp n p = (k * p, k * (p + 1))"
  by (simp add: net_range_def)

lemma net_range_join:
  "lp = k * n \<Longrightarrow> 0 < n \<Longrightarrow> n < lp \<Longrightarrow> net_range lp n p = (p div k, p div k + 1)"
  by (simp add: net_range_def)

lemma deps_split:
  assumes "0 < k" "n = k * lp" "lp \<le> n" "0 \<le> i" "i < n" "0 < lp"
  shows "deps lp n i = {i div k}"
proof -
  have lt: "i div k < lp" using assms by (intro div_less_factor) auto
  have ge: "0 \<le> i div k" using assms by (simp add: pos_imp_zdiv_nonneg_iff)
  have rng: "net_range lp n p = (k * p, k * (p + 1))" for p
    using assms by (intro net_range_split) auto
  have "k * p \<le> i \<and> i < k * (p + 1) \<longleftrightarrow> p = i div k" for p
    using div_eq_iff_interval [OF assms(1), of i p] by auto
  with lt ge show ?thesis unfolding deps_def rng fst_conv snd_conv by blast
qed

lemma deps_join:
  assumes "0 < k" "lp = k * n" "n < lp" "0 \<le> i" "i < n"
  shows "deps lp n i = {p. k * i \<le> p \<and> p < k * (i + 1)}"
proof -
  have hi: "k * (i + 1) \<le> lp" and lo: "0 \<le> k * i"
    using assms by (simp_all add: mult_left_mono)
  have rng: "net_range lp n p = (p div k, p div k + 1)" for p
    using assms by (intro net_range_join) auto
  have "p div k \<le> i \<and> i < p div k + 1 \<longleftrightarrow> k * i \<le> p \<and> p < k * (i + 1)" for p
    using div_eq_iff_interval [OF assms(1), of p i] by linarith
  then have "deps lp n i = {p. 0 \<le> p \<and> p < lp \<and> k * i \<le> p \<and> p < k * (i + 1)}"
    unfolding deps_def rng fst_conv snd_conv by blast
  also have "\<dots> = {p. k * i \<le> p \<and> p < k * (i + 1)}" using hi lo by auto
  finally show ?thesis .
qed

interpretation net: partition_map aligned net_range net_threshold deps
proof
  fix lp n i
  show "deps lp n i = {p. 0 \<le> p \<and> p < lp \<and> fst (net_range lp n p) \<le> i \<and> i < snd (net_range lp n p)}"
    by (rule deps_def)
next
  fix lp n p assume ok: "aligned lp n" and p: "0 \<le> p" "p < lp"
  from ok show "0 \<le> fst (net_range lp n p) \<and> fst (net_range lp n p) < snd (net_range lp n p)
      \<and> snd (net_range lp n p) \<le> n"
  proof (cases rule: aligned_cases)
    case (split k)
    moreover have "k * (p + 1) \<le> k * lp" using split p by (intro mult_left_mono) auto
    ultimately show ?thesis using p by (simp add: net_range_split)
  next
    case (join k)
    moreover have "p div k < n" using join p by (intro div_less_factor) auto
    ultimately show ?thesis
      using p ok by (simp add: net_range_join aligned_def pos_imp_zdiv_nonneg_iff)
  qed
next
  fix lp n i assume ok: "aligned lp n" and i: "0 \<le> i" "i < n"
  from ok show "int (card (deps lp n i)) = net_threshold lp n"
  proof (cases rule: aligned_cases)
    case (split k)
    with ok i show ?thesis by (simp add: deps_split aligned_def net_threshold_def)
  next
    case (join k)
    then have "deps lp n i = {p. k * i \<le> p \<and> p < k * (i + 1)}"
      using i by (intro deps_join) auto
    moreover have "nat (k * (i + 1) - k * i) = nat k" by (simp add: algebra_simps)
    ultimately show ?thesis
      using join by (simp add: card_int_interval net_threshold_def)
  qed
next
  fix lp n assume "aligned lp n"
  then show "0 < net_threshold lp n"
    by (cases rule: aligned_cases) (auto simp: net_threshold_def)
qed

section \<open>The function computes the range\<close>

lemma quotient_le: "0 < (lp::int) \<Longrightarrow> 0 \<le> n \<Longrightarrow> n div lp * lp \<le> n"
  using div_mult_mod_eq [of n lp] pos_mod_sign [of lp n] by linarith

lemma map_local_to_network_partitions_eq:
  assumes "0 < local_parts r" "local_parts r \<le> parts r" "parts r \<le> INT_MAX"
    and "0 \<le> p" "p < local_parts r"
  shows "map_local_to_network_partitions p r
       = Inr (parts r div local_parts r * p, parts r div local_parts r * (p + 1))"
proof -
  let ?q = "parts r div local_parts r"
  have q: "0 < ?q" using assms by (simp add: pos_imp_zdiv_pos_iff)
  have "?q * (p + 1) \<le> ?q * local_parts r" using q assms by (intro mult_left_mono) auto
  also have "\<dots> \<le> parts r" using quotient_le [of "local_parts r" "parts r"] assms by simp
  finally have e: "?q * (p + 1) \<le> parts r" .
  moreover have "?q * p < ?q * (p + 1)" using q by simp
  moreover have "0 \<le> ?q * p" using q assms by simp
  ultimately have "chk_int (?q * p) = Inr (?q * p)" "chk_int (?q * (p + 1)) = Inr (?q * (p + 1))"
    "0 \<le> ?q * p \<and> ?q * p < ?q * (p + 1) \<and> ?q * (p + 1) \<le> parts r"
    using assms by simp_all
  moreover have "chk_int (p + 1) = Inr (p + 1)" using assms by simp
  ultimately show ?thesis
    using assms by (simp add: map_local_to_network_partitions_def c_div_pos c_mul_def c_add_def Let_def)
qed

lemma map_local_net_range:
  assumes "0 < local_parts r" "local_parts r \<le> parts r" "parts r \<le> INT_MAX"
    and "0 \<le> p" "p < local_parts r"
  shows "map_local_to_network_partitions p r = Inr (net_range (local_parts r) (parts r) p)"
  using assms by (simp add: map_local_to_network_partitions_eq net_range_def)

section \<open>Data: messages and partitions overlap exactly as the map says\<close>

text \<open>
  A user partition \<open>p\<close> owns the elements \<open>p * ls, \<dots>, (p + 1) * ls - 1\<close> of the buffer, message \<open>i\<close>
  carries the elements \<open>i * sz, \<dots>, (i + 1) * sz - 1\<close>.
\<close>

definition shares_data :: "int \<Rightarrow> int \<Rightarrow> int \<Rightarrow> int \<Rightarrow> bool" where
  "shares_data ls sz p i \<longleftrightarrow> p * ls < (i + 1) * sz \<and> i * sz < (p + 1) * ls"

lemma shares_data_iff: "0 < ls \<Longrightarrow> 0 < sz \<Longrightarrow>
  shares_data ls sz p i \<longleftrightarrow>
    (\<exists>e. p * ls \<le> e \<and> e < (p + 1) * ls \<and> i * sz \<le> e \<and> e < (i + 1) * sz)"
  by (auto simp: shares_data_def intro!: exI [of _ "max (p * ls) (i * sz)"] simp: algebra_simps)

lemma deps_iff_shares_data:
  assumes ok: "aligned lp n" and sz: "n * sz = lp * ls" "0 < ls"
    and p: "0 \<le> p" "p < lp" and i: "0 \<le> i" "i < n"
  shows "p \<in> deps lp n i \<longleftrightarrow> shares_data ls sz p i"
  using ok
proof (cases rule: aligned_cases)
  case (split k)
  with sz ok have ls: "ls = k * sz" by (auto simp: aligned_def)
  with sz split have "0 < sz" by (simp add: zero_less_mult_iff)
  have "shares_data ls sz p i \<longleftrightarrow> (k * p) * sz < (i + 1) * sz \<and> i * sz < (k * (p + 1)) * sz"
    by (simp add: shares_data_def ls algebra_simps)
  also have "\<dots> \<longleftrightarrow> k * p < i + 1 \<and> i < k * (p + 1)"
    using \<open>0 < sz\<close> by (simp only: mult_less_cancel_right_pos)
  finally show ?thesis
    using p ok split by (auto simp: deps_def net_range_split aligned_def)
next
  case (join k)
  with sz ok have szk: "sz = k * ls" by (auto simp: aligned_def)
  have "shares_data ls sz p i \<longleftrightarrow> p * ls < (k * (i + 1)) * ls \<and> (k * i) * ls < (p + 1) * ls"
    by (simp add: shares_data_def szk algebra_simps)
  also have "\<dots> \<longleftrightarrow> p < k * (i + 1) \<and> k * i < p + 1"
    using sz(2) by (simp only: mult_less_cancel_right_pos)
  finally show ?thesis
    using deps_join [OF join(2,3,1) i] by auto
qed

end
