(* ===== verification/Send.thy ===== *)
theory Send
  imports Partition_Map
begin

text \<open>
  The movement of data (\<open>library/source/send.c\<close>): \<open>general_send\<close> counts a user partition into
  the messages that carry it and starts the messages that have all of theirs, \<open>send_ready\<close> does
  so for every partition already marked, and \<open>map_recv_buffer\<close> tests the messages of one
  partition on the receiving side. The lemmas show the effect of one \<open>general_send\<close> in closed
  form, and that it keeps the invariant \<open>round_inv\<close> between the counters, the messages started
  in the current round and the set of partitions counted so far.
\<close>

section \<open>Sending\<close>

text \<open>
  The messages that carry partition \<open>part\<close>, from \<open>start_part\<close> to before \<open>end_part\<close>, and how many
  partitions each of them waits for.
\<close>

definition send_range :: "int \<Rightarrow> mpip \<Rightarrow> (int \<times> int \<times> int) res" where
  "send_range part r =
     (if local_parts r \<le> parts r
      then bindE (map_local_to_network_partitions part r) (\<lambda>(start_part, end_part).
           Inr (start_part, end_part, 1))
      else bindE (c_div (local_parts r) (parts r)) (\<lambda>threshold.
           bindE (c_div part threshold) (\<lambda>start_part.
           bindE (c_add start_part 1) (\<lambda>end_part.
           Inr (start_part, end_part, threshold)))))"

text \<open>
  One iteration of the loop of \<open>general_send\<close>: the atomic increment, which wraps around and
  returns the prior value, and the start of the message when the threshold is reached.
\<close>

definition fetch_add :: "int \<Rightarrow> mpip \<Rightarrow> (int \<times> mpip) res" where
  "fetch_add i r =
     bindE (blk_get (internal_status r) i) (\<lambda>prior_value.
     bindE (blk_set (internal_status r) i (int32_of (prior_value + 1))) (\<lambda>st.
     Inr (prior_value, r\<lparr>internal_status := st\<rparr>)))"

definition start_message :: "mpi \<Rightarrow> int \<Rightarrow> mpip \<times> hist \<Rightarrow> (mpip \<times> hist) res" where
  "start_message M i = (\<lambda>(r, h).
     bindE (blk_get (request r) i) (\<lambda>x. bindE (mpi_call M (CStart x) h) (\<lambda>h. Inr (r, h))))"

definition send_one :: "mpi \<Rightarrow> int \<Rightarrow> int \<Rightarrow> mpip \<times> hist \<Rightarrow> (mpip \<times> hist) res" where
  "send_one M threshold i = (\<lambda>(r, h).
     bindE (fetch_add i r) (\<lambda>(prior_value, r).
     bindE (c_add prior_value 1) (\<lambda>v.
     if v = threshold then start_message M i (r, h) else Inr (r, h))))"

definition general_send :: "mpi \<Rightarrow> int \<Rightarrow> mpip \<times> hist \<Rightarrow> (mpip \<times> hist) res" where
  "general_send M part = (\<lambda>(r, h).
     bindE (send_range part r) (\<lambda>(start_part, end_part, threshold).
       for_up start_part end_part (send_one M threshold) (r, h)))"

definition send_ready :: "mpi \<Rightarrow> mpip \<times> hist \<Rightarrow> (mpip \<times> hist) res" where
  "send_ready M = (\<lambda>(r, h).
     for_up 0 (local_parts r) (\<lambda>i (r, h).
       bindE (blk_get (local_status r) i) (\<lambda>ready.
       if ready then general_send M i (r, h) else Inr (r, h))) (r, h))"

section \<open>Receiving\<close>

definition map_recv_buffer :: "mpi \<Rightarrow> int \<Rightarrow> mpip \<times> hist \<Rightarrow> (int \<times> mpip \<times> hist) res" where
  "map_recv_buffer M part = (\<lambda>(r, h).
     bindE (blk_get (local_status r) part) (\<lambda>known.
     if known then Inr (1, r, h)
     else
       bindE
         (if local_parts r \<le> parts r
          then map_local_to_network_partitions part r
          else bindE (c_div (local_parts r) (parts r)) (\<lambda>threshold.
               bindE (c_div part threshold) (\<lambda>start.
               bindE (c_add start 1) (\<lambda>end. Inr (start, end)))))
         (\<lambda>(start, end).
          bindE (blk_slice (request r) start (end - start)) (\<lambda>xs.
          bindE (MPI_Testall M xs h) (\<lambda>(flag, h).
          bindE (blk_set (local_status r) part (flag \<noteq> 0)) (\<lambda>st.
          Inr (flag, r\<lparr>local_status := st\<rparr>, h)))))))"

section \<open>The effect of one general_send\<close>

lemma send_range_eq:
  assumes "aligned (local_parts r) (parts r)" "0 \<le> p" "p < local_parts r"
  shows "send_range p r
      = Inr (fst (net_range (local_parts r) (parts r) p), snd (net_range (local_parts r) (parts r) p),
             net_threshold (local_parts r) (parts r))"
proof (cases "local_parts r \<le> parts r")
  case True
  with assms show ?thesis
    by (simp add: send_range_def map_local_net_range aligned_def net_threshold_def split: prod.split)
next
  case False
  then have thr: "0 < local_parts r div parts r"
    using net.thr_pos [OF assms(1)] by (simp add: net_threshold_def)
  have "snd (net_range (local_parts r) (parts r) p) \<le> parts r"
    "0 \<le> fst (net_range (local_parts r) (parts r) p)"
    using net.rng_in [OF assms] by auto
  then have "chk_int (p div (local_parts r div parts r) + 1) = Inr (p div (local_parts r div parts r) + 1)"
    using False assms by (intro chk_int_small) (auto simp: net_range_def aligned_def)
  with False thr assms show ?thesis
    by (simp add: send_range_def c_div_pos aligned_def c_add_def net_range_def net_threshold_def)
qed

lemma send_range_status [simp]: "send_range p (r\<lparr>local_status := st\<rparr>) = send_range p r"
  by (simp add: send_range_def map_local_to_network_partitions_def)

lemma send_one_eq:
  assumes "internal_status r = filled cs" "request r = filled hs" "length hs = length cs"
    and "0 \<le> i" "i < int (length cs)" "0 \<le> cs ! nat i" "cs ! nat i < INT_MAX" "mpi_succeeds M"
  shows "send_one M thr i (r, h)
       = Inr (r\<lparr>internal_status := filled (cs[nat i := cs ! nat i + 1])\<rparr>,
              (if cs ! nat i + 1 = thr then [CStart (hs ! nat i)] else []) @ h)"
  using assms by (simp add: send_one_def fetch_add_def start_message_def c_add_def int32_of_id)

text \<open>The counters and the started handles after the iterations \<open>s, \<dots>, e - 1\<close>.\<close>

definition bump :: "int \<Rightarrow> int \<Rightarrow> int list \<Rightarrow> int list" where
  "bump s e cs = map (\<lambda>j. cs ! j + (if s \<le> int j \<and> int j < e then 1 else 0)) [0..<length cs]"

definition fired :: "int \<Rightarrow> int \<Rightarrow> int \<Rightarrow> int list \<Rightarrow> nat list \<Rightarrow> nat list" where
  "fired thr s e cs hs = map (\<lambda>i. hs ! nat i) (filter (\<lambda>i. cs ! nat i + 1 = thr) [s..e - 1])"

lemma length_bump [simp]: "length (bump s e cs) = length cs"
  by (simp add: bump_def)

lemma nth_bump: "j < length cs \<Longrightarrow> bump s e cs ! j = cs ! j + (if s \<le> int j \<and> int j < e then 1 else 0)"
  by (simp add: bump_def)

lemma bump_empty [simp]: "bump s s cs = cs"
  by (rule nth_equalityI) (auto simp: nth_bump)

lemma bump_Suc:
  assumes "s \<le> i" "0 \<le> i" "i < int (length cs)"
  shows "(bump s i cs)[nat i := bump s i cs ! nat i + 1] = bump s (i + 1) cs"
proof -
  obtain k where "i = int k" using assms(2) nonneg_int_cases by blast
  with assms show ?thesis
    by (intro nth_equalityI) (auto simp: nth_bump nth_list_update)
qed

lemma fired_Suc: "s \<le> i \<Longrightarrow> fired thr s (i + 1) cs hs
  = fired thr s i cs hs @ (if cs ! nat i + 1 = thr then [hs ! nat i] else [])"
  by (simp add: fired_def upto_rec2)

lemma send_loop:
  assumes "internal_status r = filled cs" "request r = filled hs" "length hs = length cs"
    and "0 \<le> s" "s \<le> e" "e \<le> int (length cs)" "mpi_succeeds M"
    and "\<And>i. s \<le> i \<Longrightarrow> i < e \<Longrightarrow> 0 \<le> cs ! nat i \<and> cs ! nat i < INT_MAX"
  shows "for_up s e (send_one M thr) (r, h)
       = Inr (r\<lparr>internal_status := filled (bump s e cs)\<rparr>, rev (map CStart (fired thr s e cs hs)) @ h)"
proof -
  let ?st = "\<lambda>i. (r\<lparr>internal_status := filled (bump s i cs)\<rparr>, rev (map CStart (fired thr s i cs hs)) @ h)"
  have "\<exists>t. for_up s e (send_one M thr) (r, h) = Inr t \<and> t = ?st e"
  proof (rule for_up_inv [where I = "\<lambda>i t. t = ?st i", OF \<open>s \<le> e\<close>])
    show "(r, h) = ?st s" using assms(1) by (simp add: fired_def)
  next
    fix i t assume i: "s \<le> i" "i < e" and t: "t = ?st i"
    have "send_one M thr i t = Inr (?st (i + 1))"
      using i assms t
      by (simp add: send_one_eq [where cs = "bump s i cs" and hs = hs] nth_bump bump_Suc [symmetric] fired_Suc)
    then show "\<exists>t'. send_one M thr i t = Inr t' \<and> t' = ?st (i + 1)" by blast
  qed
  then show ?thesis by simp
qed

lemma general_send_eq:
  assumes ok: "setup_ok r" and al: "aligned (local_parts r) (parts r)"
    and p: "0 \<le> p" "p < local_parts r" and M: "mpi_succeeds M"
    and rng: "net_range (local_parts r) (parts r) p = (s, e)"
    and cs: "\<And>i. s \<le> i \<Longrightarrow> i < e \<Longrightarrow> 0 \<le> counters r ! nat i \<and> counters r ! nat i < INT_MAX"
  shows "general_send M p (r, h)
       = Inr (r\<lparr>internal_status := filled (bump s e (counters r))\<rparr>,
              rev (map CStart (fired (net_threshold (local_parts r) (parts r)) s e (counters r) (handles r))) @ h)"
proof -
  have "0 \<le> s" "s \<le> e" "e \<le> int (length (counters r))"
    using net.rng_in [OF al p] rng setup_okD(9) [OF ok] by auto
  with setup_okD [OF ok] cs M show ?thesis
    by (simp add: general_send_def send_range_eq [OF al p] rng) (intro send_loop, auto)
qed

lemma distinct_fired:
  assumes "distinct hs" "0 \<le> s" "e \<le> int (length hs)"
  shows "distinct (fired thr s e cs hs)"
proof -
  have "inj_on (\<lambda>i. hs ! nat i) {s..e - 1}"
  proof (rule inj_onI)
    fix i j assume "i \<in> {s..e - 1}" "j \<in> {s..e - 1}" "hs ! nat i = hs ! nat j"
    moreover from this assms have "nat i < length hs" "nat j < length hs" by auto
    ultimately have "nat i = nat j" using nth_eq_iff_index_eq [OF assms(1)] by blast
    then show "i = j" using assms \<open>i \<in> {s..e - 1}\<close> \<open>j \<in> {s..e - 1}\<close> by (auto simp: nat_eq_iff)
  qed
  then have "inj_on (\<lambda>i. hs ! nat i) (set (filter (\<lambda>i. cs ! nat i + 1 = thr) [s..e - 1]))"
    by (rule inj_on_subset) auto
  then show ?thesis unfolding fired_def distinct_map by simp
qed

lemma starts_fired:
  assumes "distinct hs" "0 \<le> s" "e \<le> int (length hs)" "0 \<le> i" "i < int (length hs)"
  shows "starts (rev (map CStart (fired thr s e cs hs))) (hs ! nat i)
       = (if s \<le> i \<and> i < e \<and> cs ! nat i + 1 = thr then 1 else 0)"
proof -
  have eq: "hs ! nat j = hs ! nat i \<longleftrightarrow> j = i" if "s \<le> j" "j \<le> e - 1" for j
  proof -
    have "nat j < length hs" "nat i < length hs" using that assms by auto
    then have "hs ! nat j = hs ! nat i \<longleftrightarrow> nat j = nat i" using nth_eq_iff_index_eq [OF assms(1)] by blast
    then show ?thesis using that assms by auto
  qed
  then have "hs ! nat i \<in> set (fired thr s e cs hs) \<longleftrightarrow> s \<le> i \<and> i < e \<and> cs ! nat i + 1 = thr"
    unfolding fired_def using eq by force
  with assms show ?thesis
    by (simp add: starts_map_CStart count_list_distinct distinct_fired)
qed

section \<open>The round invariant\<close>

text \<open>
  \<open>round_at h0 R (r, h)\<close>: in the round that began at history \<open>h0\<close>, the partitions in \<open>R\<close> have been
  counted once each. Every counter holds the number of its message's partitions in \<open>R\<close>, and
  a message has been started exactly once if all its partitions are in \<open>R\<close> and not at all otherwise.
\<close>

definition round_at :: "hist \<Rightarrow> int set \<Rightarrow> mpip \<times> hist \<Rightarrow> bool" where
  "round_at h0 R = (\<lambda>(r, h). \<forall>i. 0 \<le> i \<and> i < parts r \<longrightarrow>
     counters r ! nat i = int (card (R \<inter> deps (local_parts r) (parts r) i))
     \<and> starts h (handles r ! nat i)
       = starts h0 (handles r ! nat i) + (if deps (local_parts r) (parts r) i \<subseteq> R then 1 else 0))"

lemma round_atD:
  assumes "round_at h0 R (r, h)" "0 \<le> i" "i < parts r"
  shows "counters r ! nat i = int (card (R \<inter> deps (local_parts r) (parts r) i))"
    "starts h (handles r ! nat i)
       = starts h0 (handles r ! nat i) + (if deps (local_parts r) (parts r) i \<subseteq> R then 1 else 0)"
  using assms by (auto simp: round_at_def)

lemma round_at_cong:
  assumes "round_at h0 R (r, h)" "parts r' = parts r" "local_parts r' = local_parts r"
    "internal_status r' = internal_status r" "request r' = request r"
  shows "round_at h0 R (r', h)"
  using assms by (simp add: round_at_def)

lemma round_at_start:
  assumes "aligned (local_parts r) (parts r)"
    and "internal_status r = filled (replicate (nat (parts r)) 0)"
  shows "round_at h {} (r, h)"
  using assms net.dep_nonempty [OF assms(1)] by (auto simp: round_at_def nat_less_iff)

lemma setup_ok_counters:
  "setup_ok r \<Longrightarrow> int (length cs) = parts r \<Longrightarrow> setup_ok (r\<lparr>internal_status := filled cs\<rparr>)"
  by (simp add: setup_ok_def)

text \<open>One \<open>general_send\<close> of a partition not yet counted.\<close>

lemma general_send_round:
  assumes ok: "setup_ok r" and al: "aligned (local_parts r) (parts r)"
    and p: "0 \<le> p" "p < local_parts r" "p \<notin> R" and M: "mpi_succeeds M"
    and inv: "round_at h0 R (r, h)"
  shows "\<exists>cs h'. general_send M p (r, h) = Inr (r\<lparr>internal_status := filled cs\<rparr>, h')
           \<and> int (length cs) = parts r
           \<and> round_at h0 (insert p R) (r\<lparr>internal_status := filled cs\<rparr>, h')"
proof -
  let ?lp = "local_parts r" and ?n = "parts r"
  let ?D = "deps ?lp ?n" and ?thr = "net_threshold ?lp ?n"
  obtain s e where rng: "net_range ?lp ?n p = (s, e)" by fastforce
  have se: "0 \<le> s" "e \<le> ?n" using net.rng_in [OF al p(1,2)] rng by auto
  have dep: "p \<in> ?D i \<longleftrightarrow> s \<le> i \<and> i < e" for i using p rng by (simp add: deps_def)
  note cnt = round_atD(1) [OF inv]
  have thr: "?thr \<le> INT_MAX"
    using setup_okD(2,3) [OF ok] zdiv_mono2 [of ?lp 1 ?n] setup_okD(1) [OF ok]
    by (auto simp: net_threshold_def)
  have low: "counters r ! nat i + 1 \<le> ?thr" if "s \<le> i" "i < e" for i
    using net.ready_count_le [OF al, of i "insert p R"] net.ready_count_insert [OF p(3), of ?lp ?n i]
      cnt [of i] dep that se by simp
  have "general_send M p (r, h) = Inr (r\<lparr>internal_status := filled (bump s e (counters r))\<rparr>,
      rev (map CStart (fired ?thr s e (counters r) (handles r))) @ h)" (is "_ = Inr (?r', ?h')")
    using low thr cnt se by (intro general_send_eq [OF ok al p(1,2) M rng]) force
  moreover have "round_at h0 (insert p R) (?r', ?h')"
    unfolding round_at_def split_conv
  proof (intro allI impI)
    fix i assume i: "0 \<le> i \<and> i < parts ?r'"
    then have i': "0 \<le> i" "i < ?n" by auto
    have c: "counters ?r' ! nat i = int (card (insert p R \<inter> ?D i))"
      using i' cnt [OF i'] setup_okD(9) [OF ok] dep net.ready_count_insert [OF p(3), of ?lp ?n i]
      by (auto simp: nth_bump nat_less_iff)
    have "p \<in> ?D i \<Longrightarrow> \<not> ?D i \<subseteq> R" using p(3) by auto
    moreover have "p \<notin> ?D i \<Longrightarrow> ?D i \<subseteq> insert p R \<longleftrightarrow> ?D i \<subseteq> R" by auto
    moreover have "p \<in> ?D i \<Longrightarrow> counters r ! nat i + 1 = ?thr \<longleftrightarrow> ?D i \<subseteq> insert p R"
      using net.threshold_reached [OF al i', of "insert p R"] cnt [OF i']
        net.ready_count_insert [OF p(3), of ?lp ?n i] by (simp add: add.commute)
    ultimately have "starts ?h' (handles r ! nat i)
        = starts h0 (handles r ! nat i) + (if ?D i \<subseteq> insert p R then 1 else 0)"
      using starts_fired [of "handles r" s e i ?thr "counters r"] setup_okD(6,7) [OF ok] se i' dep [of i]
        round_atD(2) [OF inv i'] by auto
    with c show "counters ?r' ! nat i = int (card (insert p R \<inter> deps (local_parts ?r') (parts ?r') i))
        \<and> starts ?h' (handles ?r' ! nat i) = starts h0 (handles ?r' ! nat i)
            + (if deps (local_parts ?r') (parts ?r') i \<subseteq> insert p R then 1 else 0)"
      by simp
  qed
  ultimately show ?thesis using setup_okD(9) [OF ok] by auto
qed

text \<open>What \<open>general_send\<close> never touches, in any state.\<close>

lemma general_send_frame:
  assumes "general_send M p (r, h) = Inr (r', h')"
  shows "\<exists>st xs. r' = r\<lparr>internal_status := st\<rparr> \<and> h' = map CStart xs @ h"
proof -
  let ?P = "\<lambda>t. \<exists>st xs. t = (r\<lparr>internal_status := st\<rparr>, map CStart xs @ h)"
  obtain s e thr where "for_up s e (send_one M thr) (r, h) = Inr (r', h')"
    using assms by (auto simp: general_send_def)
  then have "?P (r', h')"
  proof (rule for_up_preserves [where P = ?P])
    show "?P (r, h)" by (rule exI [of _ "internal_status r"], rule exI [of _ "[]"]) simp
  next
    fix i t t' assume "?P t" "send_one M thr i t = Inr t'"
    then obtain st xs where t: "send_one M thr i (r\<lparr>internal_status := st\<rparr>, map CStart xs @ h) = Inr t'"
      by auto
    then obtain st' ys where "t' = (r\<lparr>internal_status := st'\<rparr>, map CStart ys @ map CStart xs @ h)"
    proof (cases "\<exists>st'. t' = (r\<lparr>internal_status := st'\<rparr>, map CStart xs @ h)")
      case True
      then show ?thesis using that [of _ "[]"] by auto
    next
      case False
      with t obtain st' x where "t' = (r\<lparr>internal_status := st'\<rparr>, CStart x # map CStart xs @ h)"
        by (auto simp: send_one_def fetch_add_def start_message_def mpi_call_eq_Inr split: if_splits)
      then show ?thesis using that [of _ "[x]"] by simp
    qed
    then show "?P t'" by (auto simp flip: map_append)
  qed
  then show ?thesis by auto
qed

section \<open>Catching up\<close>

lemma flags_setD: "flags_set r \<Longrightarrow> 0 \<le> p \<Longrightarrow> p < local_parts r \<Longrightarrow>
  blk_get (local_status r) p = Inr (p \<in> marked r)"
  by (auto simp: flags_set_def marked_def elim!: is_filledE)

lemma send_ready_round:
  assumes ok: "setup_ok r" and al: "aligned (local_parts r) (parts r)" and fl: "flags_set r"
    and M: "mpi_succeeds M" and inv: "round_at h0 {} (r, h)"
  shows "\<exists>cs h'. send_ready M (r, h) = Inr (r\<lparr>internal_status := filled cs\<rparr>, h')
           \<and> int (length cs) = parts r
           \<and> round_at h0 (marked r) (r\<lparr>internal_status := filled cs\<rparr>, h')"
proof -
  let ?I = "\<lambda>k t. \<exists>cs h'. t = (r\<lparr>internal_status := filled cs\<rparr>, h') \<and> int (length cs) = parts r
      \<and> round_at h0 {p \<in> marked r. p < k} t"
  let ?body = "\<lambda>i (r, h). bindE (blk_get (local_status r) i) (\<lambda>ready.
       if ready then general_send M i (r, h) else Inr (r, h))"
  have "\<exists>t. for_up 0 (local_parts r) ?body (r, h) = Inr t \<and> ?I (local_parts r) t"
  proof (rule for_up_inv [where I = ?I])
    show "0 \<le> local_parts r" using setup_okD(1) [OF ok] by simp
    have "r = r\<lparr>internal_status := filled (counters r)\<rparr>" using setup_okD(8) [OF ok] by simp
    moreover have "{p \<in> marked r. p < 0} = {}" by (auto dest: marked_bounds)
    ultimately show "?I 0 (r, h)" using inv setup_okD(9) [OF ok] by metis
  next
    fix i t assume i: "0 \<le> i" "i < local_parts r" and I: "?I i t"
    then obtain cs h1 where t: "t = (r\<lparr>internal_status := filled cs\<rparr>, h1)" "int (length cs) = parts r"
      "round_at h0 {p \<in> marked r. p < i} t" by blast
    let ?r1 = "r\<lparr>internal_status := filled cs\<rparr>"
    have get: "blk_get (local_status r) i = Inr (i \<in> marked r)" using fl i by (rule flags_setD)
    show "\<exists>t'. ?body i t = Inr t' \<and> ?I (i + 1) t'"
    proof (cases "i \<in> marked r")
      case True
      have "{p \<in> marked r. p < i + 1} = insert i {p \<in> marked r. p < i}" using True by auto
      moreover have "\<exists>cs' h'. general_send M i (?r1, h1) = Inr (?r1\<lparr>internal_status := filled cs'\<rparr>, h')
           \<and> int (length cs') = parts ?r1
           \<and> round_at h0 (insert i {p \<in> marked r. p < i}) (?r1\<lparr>internal_status := filled cs'\<rparr>, h')"
        using setup_ok_counters [OF ok t(2)] al i t(1,3) M by (intro general_send_round) auto
      ultimately show ?thesis using True get t(1) by auto
    next
      case False
      then have "{p \<in> marked r. p < i + 1} = {p \<in> marked r. p < i}" by (auto simp: less_le)
      with False get t show ?thesis by auto
    qed
  qed
  moreover have "{p \<in> marked r. p < local_parts r} = marked r"
    using setup_okD(10) [OF ok] marked_bounds by fastforce
  ultimately show ?thesis by (auto simp: send_ready_def)
qed

text \<open>An uninitialised ready flag makes the catch-up undefined.\<close>

lemma send_ready_uninit:
  assumes "send_ready M (r, h) = Inr t" "0 \<le> p" "p < local_parts r"
  shows "blk_get (local_status r) p \<noteq> Inl e"
proof -
  let ?body = "\<lambda>i (r, h). bindE (blk_get (local_status r) i) (\<lambda>ready.
       if ready then general_send M i (r, h) else Inr (r, h))"
  have "blk_get ls p \<noteq> Inl e"
    if "for_up k n ?body (q, h) = Inr t" "local_status q = ls" "k \<le> p" "p < n" for k n q h t ls
    using that
  proof (induction k n ?body "(q, h)" arbitrary: q h rule: for_up.induct)
    case (1 k n q h)
    then obtain b q' h' where b: "blk_get ls k = Inr b"
      "(if b then general_send M k (q, h) else Inr (q, h)) = Inr (q', h')"
      "for_up (k + 1) n ?body (q', h') = Inr t"
      by (auto simp: for_up_step)
    then have "local_status q' = ls"
      using 1(3) by (auto split: if_splits dest!: general_send_frame)
    then show ?case
      using 1 b by (cases "p = k") auto
  qed
  then show ?thesis using assms by (auto simp: send_ready_def)
qed

section \<open>Testing one partition\<close>

text \<open>The handles of the messages that carry partition \<open>p\<close>.\<close>

definition part_handles :: "mpip \<Rightarrow> int \<Rightarrow> nat list" where
  "part_handles r p =
     (let (s, e) = net_range (local_parts r) (parts r) p in take (nat (e - s)) (drop (nat s) (handles r)))"

lemma set_part_handles:
  assumes ok: "setup_ok r" and al: "aligned (local_parts r) (parts r)"
    and p: "0 \<le> p" "p < local_parts r"
  shows "set (part_handles r p)
       = {handles r ! nat i | i. 0 \<le> i \<and> i < parts r \<and> p \<in> deps (local_parts r) (parts r) i}"
proof -
  obtain s e where rng: "net_range (local_parts r) (parts r) p = (s, e)" by fastforce
  have se: "0 \<le> s" "s < e" "e \<le> int (length (handles r))"
    using net.rng_in [OF al p] rng setup_okD(6) [OF ok] by auto
  have "set (part_handles r p) = {handles r ! (nat s + k) | k. k < nat (e - s)}"
    using se by (simp add: part_handles_def rng set_take_drop)
  also have "\<dots> = {handles r ! nat i | i. s \<le> i \<and> i < e}"
  proof (intro set_eqI iffI; clarify)
    fix k assume "k < nat (e - s)"
    then show "\<exists>i. handles r ! (nat s + k) = handles r ! nat i \<and> s \<le> i \<and> i < e"
      using se by (intro exI [of _ "s + int k"]) (auto simp: nat_add_distrib)
  next
    fix i assume "s \<le> i" "i < e"
    then show "\<exists>k. handles r ! nat i = handles r ! (nat s + k) \<and> k < nat (e - s)"
      using se by (intro exI [of _ "nat (i - s)"]) (auto simp flip: nat_add_distrib)
  qed
  also have "\<dots> = {handles r ! nat i | i. 0 \<le> i \<and> i < parts r \<and> p \<in> deps (local_parts r) (parts r) i}"
    using p rng se setup_okD(6) [OF ok] by (auto simp: deps_def)
  finally show ?thesis .
qed

lemma map_recv_buffer_known:
  "blk_get (local_status r) p = Inr True \<Longrightarrow> map_recv_buffer M p (r, h) = Inr (1, r, h)"
  by (simp add: map_recv_buffer_def)

lemma map_recv_buffer_test:
  assumes ok: "setup_ok r" and al: "aligned (local_parts r) (parts r)"
    and p: "0 \<le> p" "p < local_parts r" and M: "mpi_succeeds M"
    and get: "blk_get (local_status r) p = Inr False"
    and st: "blk_set (local_status r) p (testall_flag M h (part_handles r p) \<noteq> 0) = Inr st"
  shows "map_recv_buffer M p (r, h)
       = Inr (testall_flag M h (part_handles r p), r\<lparr>local_status := st\<rparr>,
              CTestall (part_handles r p) (testall_flag M h (part_handles r p)) # h)"
proof -
  obtain s e where rng: "net_range (local_parts r) (parts r) p = (s, e)" by fastforce
  have se: "0 \<le> s" "s < e" "e \<le> int (length (handles r))"
    using net.rng_in [OF al p] rng setup_okD(6) [OF ok] by auto
  have sel: "(if local_parts r \<le> parts r then map_local_to_network_partitions p r
      else bindE (c_div (local_parts r) (parts r)) (\<lambda>thr.
           bindE (c_div p thr) (\<lambda>s. bindE (c_add s 1) (\<lambda>e. Inr (s, e))))) = Inr (s, e)"
    using send_range_eq [OF al p] rng by (auto simp: send_range_def split: if_splits)
  have "blk_slice (request r) s (e - s) = Inr (part_handles r p)"
    using se setup_okD(5) [OF ok] blk_slice_filled [of s "e - s" "handles r"]
    by (simp add: part_handles_def rng)
  with M get st show ?thesis
    by (simp add: map_recv_buffer_def sel MPI_Testall_succeeds)
qed

end
