(* ===== verification/Setup.thy ===== *)
theory Setup
  imports Sync Send
begin

text \<open>
  The construction of a request (\<open>library/source/setup.c\<close>): default values (\<open>prep\<close>), the
  choice of the synchronisation from the info object (\<open>sync_driver\<close>), the creation of the
  internal messages (\<open>internal_setup\<close>) and the reset between rounds (\<open>reset_status\<close>). The
  lemmas give \<open>internal_setup\<close> and \<open>reset_status\<close> in closed form.
\<close>

section \<open>Default values\<close>

text \<open>
  The request \<open>r\<close> that comes in is uninitialised memory: the fields \<open>prep\<close> does not assign keep
  whatever it holds. The second initialisation of the mutex leaves it as the first did.
\<close>

definition prep ::
    "int \<Rightarrow> int \<Rightarrow> int \<Rightarrow> nat \<Rightarrow> int \<Rightarrow> int \<Rightarrow> nat \<Rightarrow> mpip \<Rightarrow> mpip" where
  "prep buf partitions count datatype opp tg cm r =
     r\<lparr>state := INACTIVE, local_size := int32_of count, local_parts := partitions, parts := 1,
       threaded := NONE, local_status := blk_malloc partitions, lock := MReady,
       comm_data := filled [\<lparr>buff = buf, partner = opp, tag = tg, comm = cm, mtype = datatype\<rparr>]\<rparr>"

section \<open>The internal messages\<close>

text \<open>One iteration of the loop of \<open>internal_setup\<close>.\<close>

definition setup_one :: "mpi \<Rightarrow> meta \<Rightarrow> int \<Rightarrow> int \<Rightarrow> mpip \<times> hist \<Rightarrow> (mpip \<times> hist) res" where
  "setup_one M mes extent i = (\<lambda>(r, h).
     bindE (c_mul i (psize r)) (\<lambda>k.
     bindE (chk_aint (k * extent)) (\<lambda>offset.
     bindE (c_add (tag mes) i) (\<lambda>t.
     let m = \<lparr>m_buf = buff mes + offset, m_count = psize r, m_type = mtype mes,
              m_peer = partner mes, m_tag = t, m_comm = comm mes\<rparr>;
         x = new_handle M h in
     bindE (mpi_call M (if side r = SENDER then CSendInit m x else CRecvInit m x) h) (\<lambda>h.
     bindE (blk_set (request r) i x) (\<lambda>rq.
     bindE (blk_set (internal_status r) i 0) (\<lambda>st.
     Inr (r\<lparr>request := rq, internal_status := st\<rparr>, h))))))))"

definition internal_setup :: "mpi \<Rightarrow> mpip \<times> hist \<Rightarrow> (mpip \<times> hist) res" where
  "internal_setup M = (\<lambda>(r, h).
     bindE (blk_get (comm_data r) 0) (\<lambda>mes.
     bindE (mpi_call M (CTypeExtent (mtype mes)) h) (\<lambda>h.
     let extent = type_extent M (mtype mes);
         r = r\<lparr>request := blk_malloc (parts r)\<rparr> in
     bindE (c_assert (request r \<noteq> Null)) (\<lambda>_.
     let r = r\<lparr>internal_status := blk_malloc (parts r)\<rparr> in
     bindE (c_assert (internal_status r \<noteq> Null)) (\<lambda>_.
     for_up 0 (parts r) (setup_one M mes extent) (r, h))))))"

definition reset_status :: "mpip \<Rightarrow> mpip res" where
  "reset_status r =
     bindE (for_up 0 (parts r) (\<lambda>i r.
       bindE (blk_set (internal_status r) i 0) (\<lambda>st. Inr (r\<lparr>internal_status := st\<rparr>))) r) (\<lambda>r.
     for_up 0 (local_parts r) (\<lambda>i r.
       bindE (blk_set (local_status r) i False) (\<lambda>st. Inr (r\<lparr>local_status := st\<rparr>))) r)"

section \<open>The info object\<close>

text \<open>The C library's \<open>atoi\<close>: white space, an optional sign, decimal digits.\<close>

definition is_space :: "char \<Rightarrow> bool" where
  "is_space c \<longleftrightarrow> (of_char c :: nat) = 32 \<or> (9 \<le> (of_char c :: nat) \<and> (of_char c :: nat) \<le> 13)"

fun digits_value :: "int \<Rightarrow> string \<Rightarrow> int" where
  "digits_value acc [] = acc"
| "digits_value acc (c # cs) =
     (if 48 \<le> (of_char c :: nat) \<and> (of_char c :: nat) \<le> 57
      then digits_value (10 * acc + (of_char c - 48)) cs else acc)"

definition atoi :: "string \<Rightarrow> int res" where
  "atoi s = (case dropWhile is_space s of
      [] \<Rightarrow> Inr 0
    | c # cs \<Rightarrow> if c = CHR ''-'' then chk_int (- digits_value 0 cs)
                else if c = CHR ''+'' then chk_int (digits_value 0 cs)
                else chk_int (digits_value 0 (c # cs)))"

text \<open>
  \<open>MPI_Info_get(info, key, MPIPCL_TAG_LENGTH, buffer, &flag)\<close> into a buffer of 10 characters. A
  value of \<open>n\<close> characters needs \<open>n + 1\<close> bytes; a longer one overruns the buffer. Without the key
  the buffer keeps its indeterminate contents.
\<close>

abbreviation (input) MPIPCL_TAG_LENGTH :: nat where "MPIPCL_TAG_LENGTH \<equiv> 20"

definition info_read :: "mpi \<Rightarrow> nat \<Rightarrow> string \<Rightarrow> hist \<Rightarrow> (string option \<times> hist) res" where
  "info_read M i key h =
     (case info_get M i key MPIPCL_TAG_LENGTH of
        None \<Rightarrow> Inr (None, CInfoGet i key # h)
      | Some v \<Rightarrow> if length v + 1 \<le> 10 then Inr (Some v, CInfoGet i key # h)
                  else Inl (Undefined BufferOverflow))"

text \<open>
  The side that does not drive the synchronisation creates the thread first and marks the
  request as running afterwards; the thread may run in between.
\<close>

definition pthread_create :: "mpip \<Rightarrow> mpip" where
  "pthread_create r = r\<lparr>sync_thread := Spawned\<rparr>"

definition set_running :: "mpip \<Rightarrow> mpip" where
  "set_running r = r\<lparr>threaded := RUNNING\<rparr>"

definition sync_driver :: "mpi \<Rightarrow> info \<Rightarrow> mpip \<times> hist \<Rightarrow> (mpip \<times> hist) res" where
  "sync_driver M info = (\<lambda>(r, h).
     case info of
       MPI_INFO_NULL \<Rightarrow> bindE (sync_hard 1 r) (\<lambda>r. internal_setup M (r, h))
     | Info i \<Rightarrow>
         bindE (info_read M i ''PMODE'' h) (\<lambda>(pmode, h).
         case pmode of
           None \<Rightarrow> Inl (Undefined UninitRead)
         | Some mode \<Rightarrow>
             if mode = ''HARD''
             then bindE (info_read M i ''SET'' h) (\<lambda>(option, h).
                  case option of
                    None \<Rightarrow> Inl AssertFailed
                  | Some v \<Rightarrow>
                      bindE (atoi v) (\<lambda>set.
                      bindE (sync_hard (if set \<le> 0 then 1 else set) r) (\<lambda>r.
                      internal_setup M (r, h))))
             else if mode = ''SENDER'' \<or> mode = ''RECEIVER''
             then let driver = (if mode = ''SENDER'' then SENDER else RECEIVER) in
                  if side r \<noteq> driver
                  then Inr (set_running (pthread_create r), h)
                  else bindE (sync_side M driver (r, h)) (internal_setup M)
             else bindE (sync_hard 1 r) (\<lambda>r. internal_setup M (r, h))))"

section \<open>internal_setup in closed form\<close>

text \<open>The arguments of message \<open>i\<close>, and the call that creates it.\<close>

definition message :: "mpi \<Rightarrow> meta \<Rightarrow> int \<Rightarrow> int \<Rightarrow> msg" where
  "message M mes sz i =
     \<lparr>m_buf = buff mes + i * sz * type_extent M (mtype mes), m_count = sz, m_type = mtype mes,
      m_peer = partner mes, m_tag = tag mes + i, m_comm = comm mes\<rparr>"

definition init_call :: "p2p_side \<Rightarrow> msg \<Rightarrow> nat \<Rightarrow> mcall" where
  "init_call s m x = (if s = SENDER then CSendInit m x else CRecvInit m x)"

definition init_calls :: "mpi \<Rightarrow> p2p_side \<Rightarrow> meta \<Rightarrow> int \<Rightarrow> nat list \<Rightarrow> mcall list" where
  "init_calls M s mes sz xs =
     map (\<lambda>i. init_call s (message M mes sz (int i)) (xs ! i)) [0..<length xs]"

lemma issued_init_call [simp]: "issued (init_call s m x # h) = insert x (issued h)"
  by (simp add: init_call_def)

lemma starts_init_calls [simp]: "starts (init_calls M s mes sz xs) x = 0"
proof -
  have "starts (map (\<lambda>i. init_call s (f i) (g i)) ks) x = 0" for f g and ks :: "nat list"
    by (induction ks) (auto simp: init_call_def)
  then show ?thesis by (simp add: init_calls_def)
qed

lemma active_init_calls [simp]: "active (rev (init_calls M s mes sz xs) @ h) x = active h x"
proof -
  have "active (rev (map (\<lambda>i. init_call s (f i) (g i)) ks) @ h) x = active h x" for f g and ks :: "nat list"
    by (induction ks arbitrary: h) (auto simp: init_call_def)
  then show ?thesis by (simp add: init_calls_def)
qed

lemma init_calls_snoc:
  "init_calls M s mes sz (xs @ [x])
     = init_calls M s mes sz xs @ [init_call s (message M mes sz (int (length xs))) x]"
  by (auto simp: init_calls_def nth_append)

text \<open>
  The sizes are such that no tag, count or offset of the messages leaves its type. \<open>internal_setup\<close>
  computes offsets in \<open>int\<close> before it multiplies them with the extent.
\<close>

definition fits :: "mpi \<Rightarrow> meta \<Rightarrow> int \<Rightarrow> int \<Rightarrow> bool" where
  "fits M mes n sz \<longleftrightarrow>
     0 < n \<and> n \<le> INT_MAX \<and> 0 \<le> sz \<and> (n - 1) * sz \<le> INT_MAX \<and> 0 \<le> type_extent M (mtype mes)
     \<and> (n - 1) * sz * type_extent M (mtype mes) < 2 ^ 63 \<and> 0 \<le> tag mes \<and> tag mes + (n - 1) \<le> INT_MAX"

lemma fits_bounds:
  assumes "fits M mes n sz" "0 \<le> i" "i < n"
  shows "0 \<le> i * sz" "i * sz \<le> INT_MAX" "0 \<le> i * sz * type_extent M (mtype mes)"
    "i * sz * type_extent M (mtype mes) < 2 ^ 63" "0 \<le> tag mes + i" "tag mes + i \<le> INT_MAX"
proof -
  have a: "i * sz \<le> (n - 1) * sz" "0 \<le> i * sz"
    using assms by (auto simp: fits_def intro!: mult_right_mono)
  then have "i * sz * type_extent M (mtype mes) \<le> (n - 1) * sz * type_extent M (mtype mes)"
    using assms by (auto simp: fits_def intro: mult_right_mono)
  with a assms show "0 \<le> i * sz" "i * sz \<le> INT_MAX" "0 \<le> i * sz * type_extent M (mtype mes)"
    "i * sz * type_extent M (mtype mes) < 2 ^ 63" "0 \<le> tag mes + i" "tag mes + i \<le> INT_MAX"
    by (auto simp: fits_def)
qed

text \<open>A block whose first cells hold \<open>xs\<close> and whose \<open>k\<close> other cells are uninitialised.\<close>

definition partial :: "'a list \<Rightarrow> nat \<Rightarrow> 'a block" where
  "partial xs k = Live (map Some xs @ replicate k None)"

lemma partial_Nil: "0 \<le> n \<Longrightarrow> blk_malloc n = partial [] (nat n)"
  by (simp add: blk_malloc_def partial_def)

lemma partial_0: "partial xs 0 = filled xs"
  by (simp add: partial_def filled_def)

lemma partial_set: "blk_set (partial xs (Suc k)) (int (length xs)) x = Inr (partial (xs @ [x]) k)"
  by (simp add: partial_def list_update_append)

lemma setup_one_eq:
  assumes "fits M mes n (psize r)" "int (length xs) < n" "mpi_succeeds M"
    and "request r = partial xs (Suc k)" "internal_status r = partial ys (Suc k)" "length ys = length xs"
  shows "setup_one M mes (type_extent M (mtype mes)) (int (length xs)) (r, h)
       = Inr (r\<lparr>request := partial (xs @ [new_handle M h]) k, internal_status := partial (ys @ [0]) k\<rparr>,
              init_call (side r) (message M mes (psize r) (int (length xs))) (new_handle M h) # h)"
proof -
  note b = fits_bounds [OF assms(1) _ assms(2)]
  have "c_mul (int (length xs)) (psize r) = Inr (int (length xs) * psize r)"
    "chk_aint (int (length xs) * psize r * type_extent M (mtype mes))
      = Inr (int (length xs) * psize r * type_extent M (mtype mes))"
    "c_add (tag mes) (int (length xs)) = Inr (tag mes + int (length xs))"
    using b by (simp_all add: c_mul_def c_add_def chk_aint_def)
  moreover have "blk_set (internal_status r) (int (length xs)) 0 = Inr (partial (ys @ [0]) k)"
    using partial_set [of ys k 0] assms(5,6) by simp
  ultimately show ?thesis
    using assms(3,4) by (simp add: setup_one_def Let_def partial_set message_def init_call_def)
qed

lemma internal_setup_eq:
  assumes cd: "comm_data r = filled [mes]" and ft: "fits M mes (parts r) (psize r)"
    and M: "mpi_succeeds M" "fresh_handles M"
  shows "\<exists>xs. internal_setup M (r, h)
      = Inr (r\<lparr>request := filled xs, internal_status := filled (replicate (length xs) 0)\<rparr>,
             rev (init_calls M (side r) mes (psize r) xs) @ CTypeExtent (mtype mes) # h)
    \<and> int (length xs) = parts r \<and> distinct xs \<and> set xs \<inter> issued h = {}"
proof -
  let ?n = "parts r" and ?base = "CTypeExtent (mtype mes) # h"
  let ?r = "\<lambda>xs k. r\<lparr>request := partial xs k, internal_status := partial (replicate (length xs) 0) k\<rparr>"
  let ?hist = "\<lambda>xs. rev (init_calls M (side r) mes (psize r) xs) @ ?base"
  let ?I = "\<lambda>i t. \<exists>xs. t = (?r xs (nat ?n - length xs), ?hist xs) \<and> int (length xs) = i
      \<and> distinct xs \<and> set xs \<inter> issued h = {} \<and> issued (?hist xs) = issued h \<union> set xs"
  have n: "0 \<le> ?n" using ft by (simp add: fits_def)
  have "\<exists>t. for_up 0 ?n (setup_one M mes (type_extent M (mtype mes))) (?r [] (nat ?n), ?base) = Inr t \<and> ?I ?n t"
  proof (rule for_up_inv [where I = ?I, OF n])
    show "?I 0 (?r [] (nat ?n), ?base)"
      by (rule exI [of _ "[]"]) (simp add: init_calls_def)
  next
    fix i t assume i: "0 \<le> i" "i < ?n" and "?I i t"
    then obtain xs where t: "t = (?r xs (nat ?n - length xs), ?hist xs)" and xs: "int (length xs) = i"
      "distinct xs" "set xs \<inter> issued h = {}" "issued (?hist xs) = issued h \<union> set xs" by blast
    obtain k where k: "nat ?n - length xs = Suc k"
      using i xs(1) by (metis Suc_diff_Suc zless_nat_conj of_nat_less_iff nat_less_iff zless_nat_eq_int_zless)
    let ?x = "new_handle M (?hist xs)"
    have fresh: "?x \<notin> issued h \<union> set xs"
      using M(2) xs(4) unfolding fresh_handles_def by metis
    have "setup_one M mes (type_extent M (mtype mes)) (int (length xs)) (?r xs (Suc k), ?hist xs)
        = Inr (?r (xs @ [?x]) k, ?hist (xs @ [?x]))"
      using ft i xs(1) M(1)
      by (subst setup_one_eq [where n = ?n and xs = xs and ys = "replicate (length xs) 0" and k = k])
        (auto simp: init_calls_snoc replicate_append_same)
    moreover have "nat ?n - length (xs @ [?x]) = k" using k by simp
    ultimately have "setup_one M mes (type_extent M (mtype mes)) i t
        = Inr (?r (xs @ [?x]) (nat ?n - length (xs @ [?x])), ?hist (xs @ [?x]))"
      unfolding t using k xs(1) by simp
    moreover have "issued (?hist (xs @ [?x])) = issued h \<union> set (xs @ [?x])"
      using xs(4) by (simp add: init_calls_snoc)
    moreover have "int (length (xs @ [?x])) = i + 1" "distinct (xs @ [?x])"
      "set (xs @ [?x]) \<inter> issued h = {}" using xs fresh by auto
    ultimately show "\<exists>t'. setup_one M mes (type_extent M (mtype mes)) i t = Inr t' \<and> ?I (i + 1) t'"
      by blast
  qed
  then obtain xs where xs: "for_up 0 ?n (setup_one M mes (type_extent M (mtype mes))) (?r [] (nat ?n), ?base)
      = Inr (?r xs (nat ?n - length xs), ?hist xs)" "int (length xs) = ?n" "distinct xs" "set xs \<inter> issued h = {}"
    by auto
  have "nat ?n - length xs = 0" using xs(2) by simp
  with xs cd M n show ?thesis
    by (intro exI [of _ xs])
      (simp add: internal_setup_def Let_def partial_Nil partial_0, simp add: partial_def)
qed

text \<open>Sizes that do not fit overflow, at the latest in the last iteration.\<close>

lemma setup_one_outcome:
  assumes "mpi_succeeds M" "0 \<le> i" "i < n" "blk_len (request r) = n" "blk_len (internal_status r) = n"
  shows "setup_one M mes e i (r, h) = Inl (Undefined SignedOverflow)
    \<or> (\<exists>r' h'. setup_one M mes e i (r, h) = Inr (r', h') \<and> psize r' = psize r
         \<and> blk_len (request r') = n \<and> blk_len (internal_status r') = n
         \<and> i * psize r \<le> INT_MAX \<and> i * psize r * e < 2 ^ 63 \<and> tag mes + i \<le> INT_MAX)"
proof (cases "c_mul i (psize r) = Inr (i * psize r) \<and> chk_aint (i * psize r * e) = Inr (i * psize r * e)
    \<and> c_add (tag mes) i = Inr (tag mes + i)")
  case True
  then have b: "i * psize r \<le> INT_MAX" "i * psize r * e < 2 ^ 63" "tag mes + i \<le> INT_MAX"
    by (auto simp: c_mul_def c_add_def chk_aint_def chk_int_eq_Inr split: if_splits)
  obtain rq where rq: "blk_set (request r) i (new_handle M h) = Inr rq" "blk_len rq = n"
    using blk.put_ok [of i "request r" "new_handle M h"] blk.put_len [of "request r" i "new_handle M h"] assms(2-4) by auto
  obtain st where st: "blk_set (internal_status r) i 0 = Inr st" "blk_len st = n"
    using blk.put_ok [of i "internal_status r" 0] blk.put_len [of "internal_status r" i 0] assms(2,3,5) by auto
  from True assms(1) rq st b show ?thesis by (simp add: setup_one_def Let_def)
next
  case False
  then show ?thesis by (auto simp: setup_one_def c_mul_def c_add_def chk_aint_def chk_int_def split: if_splits)
qed

lemma internal_setup_overflows:
  assumes cd: "comm_data r = filled [mes]" and M: "mpi_succeeds M"
    and n: "0 < parts r" "parts r \<le> INT_MAX" "0 \<le> psize r" "0 \<le> type_extent M (mtype mes)" "0 \<le> tag mes"
    and "\<not> fits M mes (parts r) (psize r)"
  shows "internal_setup M (r, h) = Inl (Undefined SignedOverflow)"
proof -
  let ?n = "parts r" and ?e = "type_extent M (mtype mes)"
  let ?r = "r\<lparr>request := blk_malloc ?n, internal_status := blk_malloc ?n\<rparr>"
  let ?I = "\<lambda>i :: int. \<lambda>(q :: mpip, k :: hist). psize q = psize r \<and> blk_len (request q) = ?n \<and> blk_len (internal_status q) = ?n"
  have "for_up 0 ?n (setup_one M mes ?e) (?r, CTypeExtent (mtype mes) # h) = Inl (Undefined SignedOverflow)"
  proof (rule for_up_stops [where I = ?I])
    show "?I 0 (?r, CTypeExtent (mtype mes) # h)" using n(1) by (simp add: blk_malloc_def)
  next
    fix i t assume i: "0 \<le> i" "i < ?n" and I: "?I i t"
    obtain q k where t: "t = (q, k)" by (cases t)
    with I setup_one_outcome [OF M i, of q mes ?e k]
    show "setup_one M mes ?e i t = Inl (Undefined SignedOverflow) \<or> (\<exists>t'. setup_one M mes ?e i t = Inr t' \<and> ?I (i + 1) t')"
      by auto
  next
    fix t assume I: "?I (?n - 1) t"
    obtain q k where t: "t = (q, k)" by (cases t)
    have "\<not> ((?n - 1) * psize q \<le> INT_MAX \<and> (?n - 1) * psize q * ?e < 2 ^ 63 \<and> tag mes + (?n - 1) \<le> INT_MAX)"
      using assms(8) n I t by (simp add: fits_def)
    with I n(1) t setup_one_outcome [OF M, of "?n - 1" ?n q mes ?e k]
    show "setup_one M mes ?e (?n - 1) t = Inl (Undefined SignedOverflow)" by auto
  qed (use n(1) in simp)
  with cd M n(1) show ?thesis by (simp add: internal_setup_def Let_def blk_malloc_def)
qed

section \<open>reset_status in closed form\<close>

lemma reset_internal_loop:
  assumes "0 \<le> n" "internal_status r = Live cs" "int (length cs) = n"
  shows "for_up 0 n (\<lambda>i r. bindE (blk_set (internal_status r) i 0)
      (\<lambda>st. Inr (r\<lparr>internal_status := st\<rparr>))) r
    = Inr (r\<lparr>internal_status := filled (replicate (nat n) 0)\<rparr>)"
  using assms by (subst for_up_field) (auto simp: blk_fill_loop)

lemma reset_local_loop:
  assumes "0 \<le> n" "local_status r = Live ls" "int (length ls) = n"
  shows "for_up 0 n (\<lambda>i r. bindE (blk_set (local_status r) i False)
      (\<lambda>st. Inr (r\<lparr>local_status := st\<rparr>))) r
    = Inr (r\<lparr>local_status := filled (replicate (nat n) False)\<rparr>)"
  using assms by (subst for_up_field) (auto simp: blk_fill_loop)

lemma reset_status_eq:
  assumes "0 \<le> parts r" "internal_status r = Live cs" "int (length cs) = parts r"
    and "0 \<le> local_parts r" "local_status r = Live ls" "int (length ls) = local_parts r"
  shows "reset_status r = Inr (r\<lparr>internal_status := filled (replicate (nat (parts r)) 0),
      local_status := filled (replicate (nat (local_parts r)) False)\<rparr>)"
  using assms by (simp add: reset_status_def reset_internal_loop reset_local_loop)

lemma blk_len_pos_Live: "0 < blk_len b \<Longrightarrow> \<exists>xs. b = Live xs"
  by (cases b) auto

lemma reset_status_setup_ok:
  assumes "setup_ok r"
  shows "reset_status r = Inr (r\<lparr>internal_status := filled (replicate (nat (parts r)) 0),
      local_status := filled (replicate (nat (local_parts r)) False)\<rparr>)"
proof -
  obtain ls where "local_status r = Live ls"
    using setup_okD [OF assms] blk_len_pos_Live [of "local_status r"] by auto
  moreover have "internal_status r = Live (map Some (counters r))"
    using setup_okD(8) [OF assms] by (simp add: filled_def)
  ultimately show ?thesis
    using setup_okD [OF assms] by (intro reset_status_eq) auto
qed

end
