(* ===== verification/Sync_Thread.thy ===== *)
theory Sync_Thread
  imports Setup
begin

text \<open>
  The background thread of a request whose peer decides the partitioning
  (\<open>threaded_sync_driver\<close> of \<open>library/source/sync.c\<close>): it receives the partitioning, creates the
  internal messages and then, in one critical section, catches up with what the user did
  meanwhile and marks the setup as finished. Here the body runs as one step between two
  calls of the user; the interleavings inside it are the subject of \<open>Concurrency\<close>.
\<close>

text \<open>What the thread does under the lock.\<close>

definition thread_catch_up :: "mpi \<Rightarrow> mpip \<times> hist \<Rightarrow> (mpip \<times> hist) res" where
  "thread_catch_up M = (\<lambda>(r, h).
     bindE (lock_pair r) (\<lambda>_.
     bindE
       (if side r = RECEIVER \<and> state r = ACTIVE
        then bindE (blk_slice (request r) 0 (parts r)) (\<lambda>xs.
             bindE (mpi_call M (CStartall xs) h) (\<lambda>h. Inr (r, h)))
        else if side r = SENDER \<and> state r = ACTIVE then send_ready M (r, h)
        else Inr (r, h))
       (\<lambda>(r, h). Inr (r\<lparr>threaded := FINISHED\<rparr>, h))))"

definition threaded_sync_driver :: "mpi \<Rightarrow> mpip \<times> hist \<Rightarrow> (mpip \<times> hist) res" where
  "threaded_sync_driver M = (\<lambda>(r, h).
     bindE (sync_side M (not_side (side r)) (r, h)) (\<lambda>t.
     bindE (internal_setup M t) (thread_catch_up M)))"

text \<open>A spawned thread runs to its end; \<open>pthread_join\<close> waits for that.\<close>

definition run_thread :: "mpi \<Rightarrow> mpip \<times> hist \<Rightarrow> (mpip \<times> hist) res" where
  "run_thread M = (\<lambda>(r, h).
     if sync_thread r = Spawned
     then bindE (threaded_sync_driver M (r, h)) (\<lambda>(r, h). Inr (r\<lparr>sync_thread := Exited\<rparr>, h))
     else Inl (Undefined BadThread))"

definition pthread_join :: "mpi \<Rightarrow> mpip \<times> hist \<Rightarrow> (mpip \<times> hist) res" where
  "pthread_join M = (\<lambda>(r, h).
     case sync_thread r of
       NoThread \<Rightarrow> Inl (Undefined BadThread)
     | Spawned \<Rightarrow> run_thread M (r, h)
     | Exited \<Rightarrow> Inr (r, h))"

text \<open>A request after \<open>prep\<close>, before its messages exist.\<close>

definition prepared :: "mpip \<Rightarrow> bool" where
  "prepared r \<longleftrightarrow> 0 < local_parts r \<and> local_parts r \<le> INT_MAX
     \<and> blk_len (local_status r) = local_parts r \<and> is_filled (comm_data r) 1 \<and> lock r = MReady"

abbreviation the_meta :: "mpip \<Rightarrow> meta" where
  "the_meta r \<equiv> hd (blk_vals (comm_data r))"

lemma is_filled_1: "is_filled b 1 \<longleftrightarrow> b = filled [hd (blk_vals b)]"
proof
  assume "is_filled b 1"
  then obtain xs where "b = filled xs" "length xs = 1" by (auto elim: is_filledE)
  then show "b = filled [hd (blk_vals b)]" by (auto simp: length_Suc_conv)
next
  assume "b = filled [hd (blk_vals b)]"
  then show "is_filled b 1" by (metis is_filled_filled length_Cons list.size(3) One_nat_def of_nat_1)
qed

lemma preparedD:
  assumes "prepared r"
  shows "0 < local_parts r" "local_parts r \<le> INT_MAX" "blk_len (local_status r) = local_parts r"
    "comm_data r = filled [the_meta r]" "lock r = MReady"
  using assms by (auto simp: prepared_def is_filled_1 [symmetric])

lemma setup_ok_prepared: "setup_ok r \<Longrightarrow> prepared r"
  by (simp add: setup_ok_def prepared_def)

lemma prep_prepared:
  "0 < n \<Longrightarrow> n \<le> INT_MAX \<Longrightarrow> prepared (prep buf n count t opp tg cm r)"
  by (simp add: prepared_def prep_def blk_malloc_def)

text \<open>\<open>internal_setup\<close> completes a prepared request.\<close>

lemma internal_setup_ok:
  assumes r: "prepared r" and ft: "fits M (the_meta r) (parts r) (psize r)"
    and M: "mpi_succeeds M" "fresh_handles M"
  shows "\<exists>xs. internal_setup M (r, h)
      = Inr (r\<lparr>request := filled xs, internal_status := filled (replicate (nat (parts r)) 0)\<rparr>,
             rev (init_calls M (side r) (the_meta r) (psize r) xs) @ CTypeExtent (mtype (the_meta r)) # h)
    \<and> setup_ok (r\<lparr>request := filled xs, internal_status := filled (replicate (nat (parts r)) 0)\<rparr>)
    \<and> int (length xs) = parts r \<and> set xs \<inter> issued h = {}"
proof -
  obtain xs where xs: "internal_setup M (r, h)
      = Inr (r\<lparr>request := filled xs, internal_status := filled (replicate (length xs) 0)\<rparr>,
             rev (init_calls M (side r) (the_meta r) (psize r) xs) @ CTypeExtent (mtype (the_meta r)) # h)"
    "int (length xs) = parts r" "distinct xs" "set xs \<inter> issued h = {}"
    using internal_setup_eq [OF preparedD(4) [OF r] ft M] by blast
  moreover have "length xs = nat (parts r)" using xs(2) by simp
  ultimately show ?thesis
    using r ft by (intro exI [of _ xs]) (auto simp: setup_ok_def prepared_def fits_def)
qed

text \<open>A request with its messages created, and the calls the thread has made by then.\<close>

definition thread_setup_log :: "mpi \<Rightarrow> mpip \<Rightarrow> int \<Rightarrow> int \<Rightarrow> nat list \<Rightarrow> hist \<Rightarrow> hist" where
  "thread_setup_log M r n sz xs h =
     rev (init_calls M (side r) (the_meta r) sz xs) @ CTypeExtent (mtype (the_meta r))
       # CRecv [n, sz] (partner (the_meta r)) sync_tag (comm (the_meta r)) # h"

definition with_messages :: "int \<Rightarrow> int \<Rightarrow> nat list \<Rightarrow> mpip \<Rightarrow> mpip" where
  "with_messages n sz xs r =
     r\<lparr>parts := n, psize := sz, request := filled xs, internal_status := filled (replicate (nat n) 0)\<rparr>"

lemma starts_thread_setup_log [simp]: "starts (thread_setup_log M r n sz xs h) x = starts h x"
  by (simp add: thread_setup_log_def)

lemma active_thread_setup_log [simp]: "active (thread_setup_log M r n sz xs h) x = active h x"
  by (simp add: thread_setup_log_def)

lemma thread_setup_eq:
  assumes r: "prepared r" and ft: "fits M (the_meta r) n sz"
    and M: "mpi_succeeds M" "fresh_handles M"
    and d: "recv_data M h (partner (the_meta r)) sync_tag (comm (the_meta r)) = Some (n, sz)"
  shows "\<exists>xs. bindE (sync_side M (not_side (side r)) (r, h)) (internal_setup M)
        = Inr (with_messages n sz xs r, thread_setup_log M r n sz xs h)
      \<and> setup_ok (with_messages n sz xs r) \<and> int (length xs) = n \<and> set xs \<inter> issued h = {}"
proof -
  let ?r = "r\<lparr>parts := n, psize := sz\<rparr>"
    and ?b = "CRecv [n, sz] (partner (the_meta r)) sync_tag (comm (the_meta r)) # h"
  have "sync_side M (not_side (side r)) (r, h) = Inr (?r, ?b)"
    using sync_side_other [OF _ preparedD(4) [OF r] d] by simp
  moreover have "prepared ?r" "the_meta ?r = the_meta r" using r by (simp_all add: prepared_def)
  moreover from this obtain xs where "internal_setup M (?r, ?b)
      = Inr (?r\<lparr>request := filled xs, internal_status := filled (replicate (nat n) 0)\<rparr>,
          rev (init_calls M (side r) (the_meta r) sz xs) @ CTypeExtent (mtype (the_meta r)) # ?b)"
    "setup_ok (?r\<lparr>request := filled xs, internal_status := filled (replicate (nat n) 0)\<rparr>)"
    "int (length xs) = n" "set xs \<inter> issued h = {}"
    using internal_setup_ok [of ?r M ?b] ft M by auto
  ultimately show ?thesis
    by (intro exI [of _ xs]) (simp add: with_messages_def thread_setup_log_def)
qed

lemma threaded_sync_driver_eq:
  assumes r: "prepared r" and ft: "fits M (the_meta r) n sz"
    and M: "mpi_succeeds M" "fresh_handles M"
    and d: "recv_data M h (partner (the_meta r)) sync_tag (comm (the_meta r)) = Some (n, sz)"
  shows "\<exists>xs. threaded_sync_driver M (r, h)
        = thread_catch_up M (with_messages n sz xs r, thread_setup_log M r n sz xs h)
      \<and> setup_ok (with_messages n sz xs r) \<and> int (length xs) = n \<and> set xs \<inter> issued h = {}"
  using thread_setup_eq [OF assms] by (auto simp: threaded_sync_driver_def bindE_assoc [symmetric])

lemma thread_catch_up_inactive:
  "lock r = MReady \<Longrightarrow> state r = INACTIVE \<Longrightarrow>
   thread_catch_up M (r, h) = Inr (r\<lparr>threaded := FINISHED\<rparr>, h)"
  by (simp add: thread_catch_up_def)

lemma thread_catch_up_receiver:
  assumes "setup_ok r" "side r = RECEIVER" "state r = ACTIVE" "mpi_succeeds M"
  shows "thread_catch_up M (r, h) = Inr (r\<lparr>threaded := FINISHED\<rparr>, CStartall (handles r) # h)"
proof -
  have "blk_slice (request r) 0 (parts r) = Inr (handles r)"
    using setup_okD(5,6) [OF assms(1)] blk_slice_all [of "handles r"] by simp
  with assms setup_okD(11) [OF assms(1)] show ?thesis by (simp add: thread_catch_up_def)
qed

lemma thread_catch_up_sender:
  assumes ok: "setup_ok r" and s: "side r = SENDER" "state r = ACTIVE" and M: "mpi_succeeds M"
    and al: "aligned (local_parts r) (parts r)" and fl: "flags_set r"
    and z: "internal_status r = filled (replicate (nat (parts r)) 0)"
  shows "\<exists>cs h'. thread_catch_up M (r, h)
        = Inr (r\<lparr>internal_status := filled cs, threaded := FINISHED\<rparr>, h')
      \<and> int (length cs) = parts r
      \<and> round_at h (marked r) (r\<lparr>internal_status := filled cs, threaded := FINISHED\<rparr>, h')"
proof -
  obtain cs h' where "send_ready M (r, h) = Inr (r\<lparr>internal_status := filled cs\<rparr>, h')"
    "int (length cs) = parts r" "round_at h (marked r) (r\<lparr>internal_status := filled cs\<rparr>, h')"
    using send_ready_round [OF ok al fl M round_at_start [OF al z]] by blast
  with s setup_okD(11) [OF ok] show ?thesis
    by (intro exI [of _ cs] exI [of _ h']) (auto simp: thread_catch_up_def intro: round_at_cong)
qed

end
