(* ===== verification/Api.thy ===== *)
theory Api
  imports Sync_Thread
begin

text \<open>
  The user interface on one request (\<open>library/bindings\<close>): initialisation, start, ready
  marking, arrival, test, wait and free. Every function that other bindings check the result of
  returns its code beside its effect.
\<close>

section \<open>The functions\<close>

definition MPIP_Psend_init ::
    "mpi \<Rightarrow> int \<Rightarrow> int \<Rightarrow> int \<Rightarrow> nat \<Rightarrow> int \<Rightarrow> int \<Rightarrow> nat \<Rightarrow> info \<Rightarrow> mpip \<times> hist \<Rightarrow> (mpip \<times> hist) res" where
  "MPIP_Psend_init M buf partitions count datatype dest tg cm info = (\<lambda>(r, h).
     sync_driver M info (prep buf partitions count datatype dest tg cm (r\<lparr>side := SENDER\<rparr>), h))"

definition MPIP_Precv_init ::
    "mpi \<Rightarrow> int \<Rightarrow> int \<Rightarrow> int \<Rightarrow> nat \<Rightarrow> int \<Rightarrow> int \<Rightarrow> nat \<Rightarrow> info \<Rightarrow> mpip \<times> hist \<Rightarrow> (mpip \<times> hist) res" where
  "MPIP_Precv_init M buf partitions count datatype dest tg cm info = (\<lambda>(r, h).
     sync_driver M info (prep buf partitions count datatype dest tg cm (r\<lparr>side := RECEIVER\<rparr>), h))"

definition MPIP_Start :: "mpi \<Rightarrow> mpip \<times> hist \<Rightarrow> (int \<times> mpip \<times> hist) res" where
  "MPIP_Start M = (\<lambda>(r, h).
     bindE (lock_pair r) (\<lambda>_.
     let thread_status = threaded r; r = r\<lparr>state := ACTIVE\<rparr> in
     if thread_status \<noteq> RUNNING
     then bindE (for_up 0 (parts r) (\<lambda>i r.
            bindE (blk_set (internal_status r) i 0) (\<lambda>st. Inr (r\<lparr>internal_status := st\<rparr>))) r) (\<lambda>r.
          bindE (reset_status r) (\<lambda>r.
          if side r = RECEIVER
          then bindE (blk_slice (request r) 0 (parts r)) (\<lambda>xs.
               bindE (mpi_call M (CStartall xs) h) (\<lambda>h. Inr (MPI_SUCCESS, r, h)))
          else Inr (MPI_SUCCESS, r, h)))
     else Inr (MPI_SUCCESS, r, h)))"

definition MPIP_Pready :: "mpi \<Rightarrow> int \<Rightarrow> mpip \<times> hist \<Rightarrow> (int \<times> mpip \<times> hist) res" where
  "MPIP_Pready M part = (\<lambda>(r, h).
     bindE (c_assert (side r = SENDER \<and> state r = ACTIVE)) (\<lambda>_.
     bindE (blk_set (local_status r) part True) (\<lambda>st.
     let r = r\<lparr>local_status := st\<rparr> in
     bindE (lock_pair r) (\<lambda>_.
     if threaded r \<noteq> RUNNING
     then bindE (general_send M part (r, h)) (\<lambda>(r, h). Inr (MPI_SUCCESS, r, h))
     else Inr (MPI_SUCCESS, r, h)))))"

text \<open>A call whose result the caller asserts to be \<open>MPI_SUCCESS\<close>.\<close>

definition checked :: "(int \<times> 's) res \<Rightarrow> 's res" where
  "checked m = bindE m (\<lambda>(ret_val, s). bindE (c_assert (MPI_SUCCESS = ret_val)) (\<lambda>_. Inr s))"

definition MPIP_Pready_range :: "mpi \<Rightarrow> int \<Rightarrow> int \<Rightarrow> mpip \<times> hist \<Rightarrow> (int \<times> mpip \<times> hist) res" where
  "MPIP_Pready_range M low high = (\<lambda>t.
     bindE (for_up low (high + 1) (\<lambda>i t.
       bindE (checked (MPIP_Pready M i t)) (\<lambda>t.
       bindE (c_add i 1) (\<lambda>_. Inr t))) t) (\<lambda>t. Inr (MPI_SUCCESS, t)))"

definition MPIP_Pready_list :: "mpi \<Rightarrow> int \<Rightarrow> int list \<Rightarrow> mpip \<times> hist \<Rightarrow> (int \<times> mpip \<times> hist) res" where
  "MPIP_Pready_list M len array_of_partitions = (\<lambda>t.
     bindE (for_up 0 len (\<lambda>i t.
       bindE (blk_get (filled array_of_partitions) i) (\<lambda>p. checked (MPIP_Pready M p t))) t)
       (\<lambda>t. Inr (MPI_SUCCESS, t)))"

text \<open>The result holds the flag that is stored.\<close>

definition MPIP_Parrived :: "mpi \<Rightarrow> int \<Rightarrow> mpip \<times> hist \<Rightarrow> (int \<times> mpip \<times> hist) res" where
  "MPIP_Parrived M part = (\<lambda>(r, h).
     bindE (c_assert (side r \<noteq> SENDER)) (\<lambda>_.
     bindE (lock_pair r) (\<lambda>_.
     if threaded r = RUNNING then Inr (0, r, h)
     else map_recv_buffer M part (r, h))))"

text \<open>The request argument may be \<open>NULL\<close>; the result holds the return code and the flag.\<close>

definition MPIP_Test :: "mpi \<Rightarrow> mpip option \<times> hist \<Rightarrow> (int \<times> int \<times> mpip option \<times> hist) res" where
  "MPIP_Test M = (\<lambda>(ro, h).
     case ro of
       None \<Rightarrow> Inr (MPI_SUCCESS, 0, None, h)
     | Some r \<Rightarrow>
         if state r = INACTIVE then Inr (MPI_SUCCESS, 0, Some r, h)
         else
           bindE (lock_pair r) (\<lambda>_.
           if thread_code (threaded r) = 0 then Inr (MPI_SUCCESS, 0, Some r, h)
           else
             bindE (blk_slice (request r) 0 (parts r)) (\<lambda>xs.
             bindE (MPI_Testall M xs h) (\<lambda>(flag, h).
             Inr (MPI_SUCCESS, flag,
                  Some (if flag = 1 then r\<lparr>state := INACTIVE\<rparr> else r), h)))))"

definition MPIP_Wait :: "mpi \<Rightarrow> mpip \<times> hist \<Rightarrow> (int \<times> mpip \<times> hist) res" where
  "MPIP_Wait M = (\<lambda>(r, h).
     bindE (lock_pair r) (\<lambda>_.
     bindE (if threaded r = RUNNING then pthread_join M (r, h) else Inr (r, h)) (\<lambda>(r, h).
     bindE (blk_slice (request r) 0 (parts r)) (\<lambda>xs.
     bindE (MPI_Waitall M xs h) (\<lambda>h.
     Inr (MPI_SUCCESS, r\<lparr>state := INACTIVE\<rparr>, h))))))"

definition mutex_destroy :: "mutex \<Rightarrow> mutex res" where
  "mutex_destroy l = (if l = MReady then Inr MDestroyed else Inl (Undefined BadMutex))"

definition MPIP_Request_free :: "mpi \<Rightarrow> mpip \<times> hist \<Rightarrow> (int \<times> mpip \<times> hist) res" where
  "MPIP_Request_free M = (\<lambda>(r, h).
     bindE (for_up 0 (parts r) (\<lambda>i h.
       bindE (blk_get (request r) i) (\<lambda>x. mpi_call M (CFree x) h)) h) (\<lambda>h.
     bindE (blk_free (request r)) (\<lambda>rq.
     bindE (blk_free (local_status r)) (\<lambda>ls.
     bindE (blk_free (internal_status r)) (\<lambda>is.
     bindE (blk_free (comm_data r)) (\<lambda>cd.
     bindE (mutex_destroy (lock r)) (\<lambda>l.
     Inr (MPI_SUCCESS, r\<lparr>request := rq, local_status := ls, internal_status := is,
                          comm_data := cd, lock := l\<rparr>, h))))))))"

end
