(* ===== verification/Sender.thy ===== *)
theory Sender
  imports Api
begin

text \<open>
  The sending side of one round: what \<open>MPIP_Start\<close>, the \<open>MPIP_Pready\<close> functions and the
  background thread's catch-up do to the messages, as the invariant \<open>sender_at\<close>; the abstract
  machine \<open>partitioned\<close> that a round implements; and what happens in the configurations
  the partition map does not support.
\<close>

section \<open>Starting a round\<close>

lemma MPIP_Start_eq:
  assumes ok: "setup_ok r" and th: "threaded r \<noteq> RUNNING" and M: "mpi_succeeds M"
  shows "MPIP_Start M (r, h)
       = Inr (MPI_SUCCESS,
              r\<lparr>state := ACTIVE, internal_status := filled (replicate (nat (parts r)) 0),
                local_status := filled (replicate (nat (local_parts r)) False)\<rparr>,
              (if side r = RECEIVER then [CStartall (handles r)] else []) @ h)"
proof -
  let ?r = "r\<lparr>state := ACTIVE\<rparr>" and ?z = "filled (replicate (nat (parts r)) (0 :: int))"
  have n: "0 \<le> parts r" using setup_okD(3) [OF ok] by simp
  have "for_up 0 (parts r) (\<lambda>i r. bindE (blk_set (internal_status r) i 0)
      (\<lambda>st. Inr (r\<lparr>internal_status := st\<rparr>))) ?r = Inr (?r\<lparr>internal_status := ?z\<rparr>)"
    using setup_okD(8,9) [OF ok] n
    by (intro reset_internal_loop [where cs = "map Some (counters r)"]) (auto simp: filled_def)
  moreover have "setup_ok (?r\<lparr>internal_status := ?z\<rparr>)" using ok n by (simp add: setup_ok_def)
  moreover have "blk_slice (request r) 0 (parts r) = Inr (handles r)"
    using setup_okD(5,6) [OF ok] blk_slice_all [of "handles r"] by simp
  ultimately show ?thesis
    using th M setup_okD(11) [OF ok]
    by (simp add: MPIP_Start_def Let_def reset_status_setup_ok)
qed

lemma MPIP_Start_running:
  "lock r = MReady \<Longrightarrow> threaded r = RUNNING \<Longrightarrow>
   MPIP_Start M (r, h) = Inr (MPI_SUCCESS, r\<lparr>state := ACTIVE\<rparr>, h)"
  by (simp add: MPIP_Start_def)

section \<open>The invariant of a round\<close>

definition sender_at :: "hist \<Rightarrow> int set \<Rightarrow> mpip \<times> hist \<Rightarrow> bool" where
  "sender_at h0 R = (\<lambda>(r, h).
     setup_ok r \<and> aligned (local_parts r) (parts r) \<and> flags_set r \<and> marked r = R
     \<and> side r = SENDER \<and> state r = ACTIVE \<and> threaded r \<noteq> RUNNING \<and> round_at h0 R (r, h))"

text \<open>The messages and the partitioning of a request never change during a round.\<close>

definition same_messages :: "mpip \<Rightarrow> mpip \<Rightarrow> bool" where
  "same_messages r r' \<longleftrightarrow> request r' = request r \<and> parts r' = parts r
     \<and> local_parts r' = local_parts r \<and> psize r' = psize r \<and> local_size r' = local_size r"

lemma same_messages_refl [simp]: "same_messages r r"
  by (simp add: same_messages_def)

lemma same_messages_trans: "same_messages r r' \<Longrightarrow> same_messages r' r'' \<Longrightarrow> same_messages r r''"
  by (simp add: same_messages_def)

lemma flags_set_replicate:
  "0 < local_parts r \<Longrightarrow> local_status r = filled (replicate (nat (local_parts r)) False) \<Longrightarrow>
   flags_set r \<and> marked r = {}"
  by (auto simp: flags_set_def marked_def blk_get_filled_iff nat_less_iff)

lemma start_sender:
  assumes "setup_ok r" "aligned (local_parts r) (parts r)" "side r = SENDER" "threaded r \<noteq> RUNNING"
    and "mpi_succeeds M"
  shows "\<exists>r'. MPIP_Start M (r, h) = Inr (MPI_SUCCESS, r', h) \<and> sender_at h {} (r', h) \<and> same_messages r r'"
proof -
  let ?r = "r\<lparr>state := ACTIVE, internal_status := filled (replicate (nat (parts r)) 0),
                local_status := filled (replicate (nat (local_parts r)) False)\<rparr>"
  have "setup_ok ?r" using assms(1) by (simp add: setup_ok_def)
  moreover have "flags_set ?r \<and> marked ?r = {}"
    using setup_okD(1) [OF assms(1)] by (intro flags_set_replicate) auto
  moreover have "round_at h {} (?r, h)" using assms(2) by (intro round_at_start) auto
  ultimately have "sender_at h {} (?r, h)" using assms by (simp add: sender_at_def)
  with MPIP_Start_eq [OF assms(1,4,5)] assms(3) show ?thesis by (simp add: same_messages_def)
qed

text \<open>Setting one flag of an allocated array.\<close>

lemma mark_partition:
  assumes "blk_len (local_status r) = local_parts r" "0 \<le> p" "p < local_parts r"
  shows "\<exists>st. blk_set (local_status r) p True = Inr st \<and> blk_len st = local_parts r
      \<and> marked (r\<lparr>local_status := st\<rparr>) = insert p (marked r)
      \<and> (flags_set r \<longrightarrow> flags_set (r\<lparr>local_status := st\<rparr>))
      \<and> (\<forall>q. q \<noteq> p \<longrightarrow> blk_get st q = blk_get (local_status r) q)"
proof -
  obtain st where st: "blk_set (local_status r) p True = Inr st"
    using blk.put_ok [of p "local_status r" True] assms by auto
  have "marked (r\<lparr>local_status := st\<rparr>) = insert p (marked r)"
    using blk.get_put_same [OF st] blk.get_put_other [OF st] by (force simp: marked_def)
  moreover have "flags_set (r\<lparr>local_status := st\<rparr>)" if "flags_set r"
  proof -
    from that obtain xs where "local_status r = filled xs" "int (length xs) = local_parts r"
      by (auto simp: flags_set_def elim: is_filledE)
    with st assms show ?thesis by (auto simp: flags_set_def blk_set_filled_iff)
  qed
  ultimately show ?thesis using st blk.put_len [OF st] blk.get_put_other [OF st] assms by auto
qed

lemma pready_sender:
  assumes at: "sender_at h0 R (r, h)" and p: "0 \<le> p" "p < local_parts r" "p \<notin> R"
    and M: "mpi_succeeds M"
  shows "\<exists>r' h'. MPIP_Pready M p (r, h) = Inr (MPI_SUCCESS, r', h')
      \<and> sender_at h0 (insert p R) (r', h') \<and> same_messages r r'"
proof -
  have ok: "setup_ok r" and al: "aligned (local_parts r) (parts r)" and fl: "flags_set r"
    and R: "marked r = R" and s: "side r = SENDER" "state r = ACTIVE" "threaded r \<noteq> RUNNING"
    and rd: "round_at h0 R (r, h)" using at by (auto simp: sender_at_def)
  obtain st where st: "blk_set (local_status r) p True = Inr st" "blk_len st = local_parts r"
    "marked (r\<lparr>local_status := st\<rparr>) = insert p R" "flags_set (r\<lparr>local_status := st\<rparr>)"
    using mark_partition [OF setup_okD(10) [OF ok] p(1,2)] R fl by auto
  let ?r = "r\<lparr>local_status := st\<rparr>"
  have ok': "setup_ok ?r" using ok st(2) by (simp add: setup_ok_def)
  have "round_at h0 R (?r, h)" using rd by (rule round_at_cong) auto
  then obtain cs h' where gs: "general_send M p (?r, h) = Inr (?r\<lparr>internal_status := filled cs\<rparr>, h')"
    "int (length cs) = parts ?r" "round_at h0 (insert p R) (?r\<lparr>internal_status := filled cs\<rparr>, h')"
    using general_send_round [OF ok' _ _ _ p(3) M, of h0 h] al p by auto
  have "sender_at h0 (insert p R) (?r\<lparr>internal_status := filled cs\<rparr>, h')"
    using gs(2,3) setup_ok_counters [OF ok'] al st(3,4) s
    by (simp add: sender_at_def flags_set_def marked_def)
  moreover have "MPIP_Pready M p (r, h) = Inr (MPI_SUCCESS, ?r\<lparr>internal_status := filled cs\<rparr>, h')"
    using st(1) s gs(1) setup_okD(11) [OF ok] by (simp add: MPIP_Pready_def Let_def)
  ultimately show ?thesis by (auto simp: same_messages_def)
qed

lemma checked_success [simp]: "checked (Inr (MPI_SUCCESS, t)) = Inr t"
  by (simp add: checked_def)

lemma pready_list_sender:
  assumes at: "sender_at h0 R (r, h)" and ps: "distinct ps" "set ps \<subseteq> {0..<local_parts r}" "set ps \<inter> R = {}"
    and M: "mpi_succeeds M"
  shows "\<exists>r' h'. MPIP_Pready_list M (int (length ps)) ps (r, h) = Inr (MPI_SUCCESS, r', h')
      \<and> sender_at h0 (R \<union> set ps) (r', h') \<and> same_messages r r'"
proof -
  let ?I = "\<lambda>k t. sender_at h0 (R \<union> set (take (nat k) ps)) t \<and> same_messages r (fst t)"
  let ?body = "\<lambda>i t. bindE (blk_get (filled ps) i) (\<lambda>p. checked (MPIP_Pready M p t))"
  have "\<exists>t. for_up 0 (int (length ps)) ?body (r, h) = Inr t \<and> ?I (int (length ps)) t"
  proof (rule for_up_inv [where I = ?I])
    show "?I 0 (r, h)" using at by simp
  next
    fix i t assume i: "0 \<le> i" "i < int (length ps)" and I: "?I i t"
    obtain r1 h1 where t: "t = (r1, h1)" by fastforce
    have k: "nat i < length ps" using i by linarith
    have tk: "take (nat (i + 1)) ps = take (nat i) ps @ [ps ! nat i]"
      using i k by (simp add: nat_add_distrib take_Suc_conv_app_nth)
    have "ps ! nat i \<notin> R \<union> set (take (nat i) ps)"
    proof -
      have "distinct (take (nat i) ps @ [ps ! nat i])" using ps(1) tk by (metis distinct_take)
      moreover have "ps ! nat i \<in> set ps" using k by simp
      ultimately show ?thesis using ps(3) by auto
    qed
    moreover have "0 \<le> ps ! nat i" "ps ! nat i < local_parts r1"
      using ps(2) nth_mem [OF k] I t by (auto simp: same_messages_def)
    ultimately obtain r2 h2 where "MPIP_Pready M (ps ! nat i) (r1, h1) = Inr (MPI_SUCCESS, r2, h2)"
      "sender_at h0 (insert (ps ! nat i) (R \<union> set (take (nat i) ps))) (r2, h2)" "same_messages r1 r2"
      using pready_sender [of h0 _ r1 h1 "ps ! nat i" M] I t M by blast
    with i t I tk show "\<exists>t'. ?body i t = Inr t' \<and> ?I (i + 1) t'"
      by (auto simp: insert_commute intro: same_messages_trans)
  qed simp
  then show ?thesis by (auto simp: MPIP_Pready_list_def)
qed

lemma pready_range_sender:
  assumes at: "sender_at h0 R (r, h)" and ps: "0 \<le> lo" "lo \<le> hi + 1" "hi < local_parts r" "{lo..hi} \<inter> R = {}"
    and M: "mpi_succeeds M"
  shows "\<exists>r' h'. MPIP_Pready_range M lo hi (r, h) = Inr (MPI_SUCCESS, r', h')
      \<and> sender_at h0 (R \<union> {lo..hi}) (r', h') \<and> same_messages r r'"
proof -
  let ?I = "\<lambda>k t. sender_at h0 (R \<union> {lo..<k}) t \<and> same_messages r (fst t)"
  let ?body = "\<lambda>i t. bindE (checked (MPIP_Pready M i t)) (\<lambda>t. bindE (c_add i 1) (\<lambda>_. Inr t))"
  have lp: "local_parts r \<le> INT_MAX" using at by (auto simp: sender_at_def setup_ok_def)
  have "\<exists>t. for_up lo (hi + 1) ?body (r, h) = Inr t \<and> ?I (hi + 1) t"
  proof (rule for_up_inv [where I = ?I, OF ps(2)])
    show "?I lo (r, h)" using at by simp
  next
    fix i t assume i: "lo \<le> i" "i < hi + 1" and I: "?I i t"
    obtain r1 h1 where t: "t = (r1, h1)" by fastforce
    have "i \<notin> R \<union> {lo..<i}" "0 \<le> i" "i < local_parts r1"
      using i ps I t by (auto simp: same_messages_def)
    then obtain r2 h2 where "MPIP_Pready M i (r1, h1) = Inr (MPI_SUCCESS, r2, h2)"
      "sender_at h0 (insert i (R \<union> {lo..<i})) (r2, h2)" "same_messages r1 r2"
      using pready_sender [of h0 _ r1 h1 i M] I t M by blast
    moreover have "insert i (R \<union> {lo..<i}) = R \<union> {lo..<i + 1}" using i by auto
    moreover have "c_add i 1 = Inr (i + 1)" using i ps lp by (simp add: c_add_def)
    ultimately show "\<exists>t'. ?body i t = Inr t' \<and> ?I (i + 1) t'"
      using t I by (auto intro: same_messages_trans)
  qed
  moreover have "{lo..<hi + 1} = {lo..hi}" by auto
  ultimately show ?thesis by (auto simp: MPIP_Pready_range_def)
qed

section \<open>The abstract machine\<close>

text \<open>
  What a round of a partitioned send promises: a set of ready partitions and the set of the
  messages on their way, where a message leaves when the last of its partitions becomes ready.
\<close>

record partitioned =
  ready :: "int set"
  sent :: "int set"

definition spec_pready :: "int \<Rightarrow> int \<Rightarrow> int \<Rightarrow> partitioned \<Rightarrow> partitioned" where
  "spec_pready lp n p s =
     \<lparr>ready = insert p (ready s),
      sent = sent s \<union> {i. 0 \<le> i \<and> i < n \<and> p \<in> deps lp n i \<and> deps lp n i \<subseteq> insert p (ready s)}\<rparr>"

definition abs_sender :: "hist \<Rightarrow> mpip \<times> hist \<Rightarrow> partitioned" where
  "abs_sender h0 = (\<lambda>(r, h).
     \<lparr>ready = marked r,
      sent = {i. 0 \<le> i \<and> i < parts r \<and> starts h0 (handles r ! nat i) < starts h (handles r ! nat i)}\<rparr>)"

lemma sender_atD:
  assumes "sender_at h0 R (r, h)"
  shows "setup_ok r" "aligned (local_parts r) (parts r)" "marked r = R" "round_at h0 R (r, h)"
    "side r = SENDER" "state r = ACTIVE" "threaded r \<noteq> RUNNING" "flags_set r"
  using assms by (auto simp: sender_at_def)

lemma abs_sender_at:
  assumes "sender_at h0 R (r, h)"
  shows "abs_sender h0 (r, h)
       = \<lparr>ready = R, sent = {i. 0 \<le> i \<and> i < parts r \<and> deps (local_parts r) (parts r) i \<subseteq> R}\<rparr>"
  using sender_atD(3) [OF assms] round_atD(2) [OF sender_atD(4) [OF assms]]
  by (auto simp: abs_sender_def split: if_splits)

lemma abs_sender_pready:
  assumes "sender_at h0 R (r, h)" "sender_at h0 (insert p R) (r', h')" "same_messages r r'"
  shows "abs_sender h0 (r', h') = spec_pready (local_parts r) (parts r) p (abs_sender h0 (r, h))"
  using assms(3) unfolding abs_sender_at [OF assms(1)] abs_sender_at [OF assms(2)]
  by (auto simp: spec_pready_def same_messages_def)

section \<open>Marking before the setup has finished\<close>

text \<open>
  \<open>held\<close>: a started sender whose status is \<open>RUNNING\<close>. \<open>delayed\<close>: its background thread has not
  run yet.
\<close>

definition held :: "mpip \<Rightarrow> bool" where
  "held r \<longleftrightarrow> prepared r \<and> side r = SENDER \<and> state r = ACTIVE \<and> threaded r = RUNNING"

definition delayed :: "mpip \<Rightarrow> bool" where
  "delayed r \<longleftrightarrow> held r \<and> sync_thread r = Spawned"

lemma pready_held:
  assumes d: "held r" and p: "0 \<le> p" "p < local_parts r"
  shows "\<exists>st. MPIP_Pready M p (r, h) = Inr (MPI_SUCCESS, r\<lparr>local_status := st\<rparr>, h)
      \<and> held (r\<lparr>local_status := st\<rparr>) \<and> marked (r\<lparr>local_status := st\<rparr>) = insert p (marked r)
      \<and> (flags_set r \<longrightarrow> flags_set (r\<lparr>local_status := st\<rparr>))
      \<and> (\<forall>q. q \<noteq> p \<longrightarrow> blk_get st q = blk_get (local_status r) q)"
proof -
  have r: "prepared r" "side r = SENDER" "state r = ACTIVE" "threaded r = RUNNING"
    using d by (auto simp: held_def)
  obtain st where st: "blk_set (local_status r) p True = Inr st" "blk_len st = local_parts r"
    "marked (r\<lparr>local_status := st\<rparr>) = insert p (marked r)"
    "flags_set r \<longrightarrow> flags_set (r\<lparr>local_status := st\<rparr>)"
    "\<forall>q. q \<noteq> p \<longrightarrow> blk_get st q = blk_get (local_status r) q"
    using mark_partition [OF preparedD(3) [OF r(1)] p] by auto
  moreover have "held (r\<lparr>local_status := st\<rparr>)"
    using r st(2) by (simp add: held_def prepared_def)
  moreover have "MPIP_Pready M p (r, h) = Inr (MPI_SUCCESS, r\<lparr>local_status := st\<rparr>, h)"
    using r st(1) preparedD(5) [OF r(1)] by (simp add: MPIP_Pready_def Let_def)
  ultimately show ?thesis by blast
qed

lemma pready_list_held:
  assumes d: "held r" and ps: "set ps \<subseteq> {0..<local_parts r}"
  shows "\<exists>st. MPIP_Pready_list M (int (length ps)) ps (r, h) = Inr (MPI_SUCCESS, r\<lparr>local_status := st\<rparr>, h)
      \<and> held (r\<lparr>local_status := st\<rparr>) \<and> marked (r\<lparr>local_status := st\<rparr>) = marked r \<union> set ps
      \<and> (flags_set r \<longrightarrow> flags_set (r\<lparr>local_status := st\<rparr>))
      \<and> (\<forall>q. q \<notin> set ps \<longrightarrow> blk_get st q = blk_get (local_status r) q)"
proof -
  let ?I = "\<lambda>k t. \<exists>st. t = (r\<lparr>local_status := st\<rparr>, h) \<and> held (r\<lparr>local_status := st\<rparr>)
      \<and> marked (r\<lparr>local_status := st\<rparr>) = marked r \<union> set (take (nat k) ps)
      \<and> (flags_set r \<longrightarrow> flags_set (r\<lparr>local_status := st\<rparr>))
      \<and> (\<forall>q. q \<notin> set (take (nat k) ps) \<longrightarrow> blk_get st q = blk_get (local_status r) q)"
  let ?body = "\<lambda>i t. bindE (blk_get (filled ps) i) (\<lambda>p. checked (MPIP_Pready M p t))"
  have "\<exists>t. for_up 0 (int (length ps)) ?body (r, h) = Inr t \<and> ?I (int (length ps)) t"
  proof (rule for_up_inv [where I = ?I])
    show "?I 0 (r, h)" using d by (intro exI [of _ "local_status r"]) simp
  next
    fix i t assume i: "0 \<le> i" "i < int (length ps)" and "?I i t"
    then obtain st where t: "t = (r\<lparr>local_status := st\<rparr>, h)" "held (r\<lparr>local_status := st\<rparr>)"
      "marked (r\<lparr>local_status := st\<rparr>) = marked r \<union> set (take (nat i) ps)"
      "flags_set r \<longrightarrow> flags_set (r\<lparr>local_status := st\<rparr>)"
      "\<forall>q. q \<notin> set (take (nat i) ps) \<longrightarrow> blk_get st q = blk_get (local_status r) q" by blast
    have k: "nat i < length ps" using i by linarith
    have tk: "set (take (nat (i + 1)) ps) = insert (ps ! nat i) (set (take (nat i) ps))"
      using i k by (simp add: nat_add_distrib take_Suc_conv_app_nth)
    have "0 \<le> ps ! nat i" "ps ! nat i < local_parts (r\<lparr>local_status := st\<rparr>)"
      using ps nth_mem [OF k] by auto
    from pready_held [OF t(2) this, of M h] obtain st' where st':
      "MPIP_Pready M (ps ! nat i) t = Inr (MPI_SUCCESS, r\<lparr>local_status := st'\<rparr>, h)" "held (r\<lparr>local_status := st'\<rparr>)"
      "marked (r\<lparr>local_status := st'\<rparr>) = insert (ps ! nat i) (marked (r\<lparr>local_status := st\<rparr>))"
      "flags_set (r\<lparr>local_status := st\<rparr>) \<longrightarrow> flags_set (r\<lparr>local_status := st'\<rparr>)"
      "\<forall>q. q \<noteq> ps ! nat i \<longrightarrow> blk_get st' q = blk_get st q" using t(1) by auto
    then have "?I (i + 1) (r\<lparr>local_status := st'\<rparr>, h)"
      using t(3-5) tk by (intro exI [of _ st']) auto
    with st'(1) i show "\<exists>t'. ?body i t = Inr t' \<and> ?I (i + 1) t'" by simp
  qed simp
  then obtain t where t: "for_up 0 (int (length ps)) ?body (r, h) = Inr t" "?I (int (length ps)) t" by blast
  then have "MPIP_Pready_list M (int (length ps)) ps (r, h) = Inr (MPI_SUCCESS, t)"
    by (simp add: MPIP_Pready_list_def)
  with t(2) show ?thesis by auto
qed

lemma marked_all_flags_set:
  assumes "blk_len (local_status r) = local_parts r" "0 < local_parts r" "marked r = {0..<local_parts r}"
  shows "flags_set r"
proof -
  obtain xs where xs: "local_status r = Live xs" using assms blk_len_pos_Live by metis
  have "xs ! k = Some True" if "k < length xs" for k
  proof -
    have "int k \<in> marked r" using that assms xs by simp
    then show ?thesis using that xs by (simp add: marked_def split: option.splits)
  qed
  then have "None \<notin> set xs" by (auto simp: in_set_conv_nth)
  with xs assms(1) show ?thesis by (simp add: flags_set_def)
qed

lemma round_at_base: "(\<And>x. starts h0 x = starts h1 x) \<Longrightarrow> round_at h0 R t = round_at h1 R t"
  by (simp add: round_at_def)

lemma run_thread_sender:
  assumes d: "delayed r" and fl: "flags_set r" and al: "aligned (local_parts r) n"
    and ft: "fits M (the_meta r) n sz" and M: "mpi_succeeds M" "fresh_handles M"
    and rd: "recv_data M h (partner (the_meta r)) sync_tag (comm (the_meta r)) = Some (n, sz)"
  shows "\<exists>r' h'. run_thread M (r, h) = Inr (r', h') \<and> sender_at h (marked r) (r', h')
      \<and> parts r' = n \<and> psize r' = sz \<and> local_parts r' = local_parts r"
proof -
  have r: "prepared r" "side r = SENDER" "state r = ACTIVE" "sync_thread r = Spawned"
    using d by (auto simp: delayed_def held_def)
  obtain xs where xs: "threaded_sync_driver M (r, h)
      = thread_catch_up M (with_messages n sz xs r, thread_setup_log M r n sz xs h)"
    "setup_ok (with_messages n sz xs r)" "int (length xs) = n"
    using threaded_sync_driver_eq [OF r(1) ft M rd] by blast
  let ?r = "with_messages n sz xs r" and ?log = "thread_setup_log M r n sz xs h"
  have al': "aligned (local_parts ?r) (parts ?r)" and fl': "flags_set ?r" and mk: "marked ?r = marked r"
    using al fl by (auto simp: with_messages_def flags_set_def marked_def)
  obtain cs h' where cu: "thread_catch_up M (?r, ?log)
      = Inr (?r\<lparr>internal_status := filled cs, threaded := FINISHED\<rparr>, h')" "int (length cs) = parts ?r"
    "round_at ?log (marked ?r) (?r\<lparr>internal_status := filled cs, threaded := FINISHED\<rparr>, h')"
  proof -
    have "side ?r = SENDER" "state ?r = ACTIVE"
      "internal_status ?r = filled (replicate (nat (parts ?r)) 0)" using r by (simp_all add: with_messages_def)
    then show thesis using thread_catch_up_sender [OF xs(2) _ _ M(1) al' fl', of ?log] that by blast
  qed
  let ?q = "?r\<lparr>internal_status := filled cs, threaded := FINISHED, sync_thread := Exited\<rparr>"
  have "round_at h (marked r) (?q, h')"
    using cu(3) round_at_base [of ?log h] mk by (auto intro: round_at_cong)
  moreover have "setup_ok ?q" using xs(2) cu(2) by (simp add: setup_ok_def)
  ultimately have "sender_at h (marked r) (?q, h')"
    using al' fl' mk r by (simp add: sender_at_def with_messages_def flags_set_def marked_def)
  moreover have "run_thread M (r, h) = Inr (?q, h')"
    using r(4) xs(1) cu(1) by (simp add: run_thread_def)
  ultimately show ?thesis by (auto simp: with_messages_def)
qed

lemma run_thread_uninit:
  assumes d: "delayed r" and ft: "fits M (the_meta r) n sz" and M: "mpi_succeeds M" "fresh_handles M"
    and rd: "recv_data M h (partner (the_meta r)) sync_tag (comm (the_meta r)) = Some (n, sz)"
    and p: "0 \<le> p" "p < local_parts r" "blk_get (local_status r) p = Inl e"
  shows "run_thread M (r, h) \<noteq> Inr t"
proof
  assume run: "run_thread M (r, h) = Inr t"
  have r: "prepared r" "side r = SENDER" "state r = ACTIVE" "sync_thread r = Spawned"
    using d by (auto simp: delayed_def held_def)
  obtain xs where "threaded_sync_driver M (r, h)
      = thread_catch_up M (with_messages n sz xs r, thread_setup_log M r n sz xs h)"
    using threaded_sync_driver_eq [OF r(1) ft M rd] by blast
  with run r obtain t' where "send_ready M (with_messages n sz xs r, thread_setup_log M r n sz xs h) = Inr t'"
    by (auto simp: run_thread_def thread_catch_up_def with_messages_def)
  from send_ready_uninit [OF this, of p e] p show False by (simp add: with_messages_def)
qed

end
