(* ===== verification/Completion.thy ===== *)
theory Completion
  imports Sender
begin

text \<open>
  How a round ends, on either side: the receiving side's start and \<open>MPIP_Parrived\<close>, then
  \<open>MPIP_Test\<close>, \<open>MPIP_Wait\<close> and \<open>MPIP_Request_free\<close>. The lemmas give each operation in closed
  form on a request whose setup has finished.
\<close>

section \<open>The receiving side\<close>

text \<open>
  A started receiver. The partitions it remembers as arrived have all their messages complete.
\<close>

definition receiver_at :: "mpip \<times> hist \<Rightarrow> bool" where
  "receiver_at = (\<lambda>(r, h).
     setup_ok r \<and> aligned (local_parts r) (parts r) \<and> flags_set r \<and> side r = RECEIVER
     \<and> threaded r \<noteq> RUNNING
     \<and> (\<forall>p\<in>marked r. \<forall>x\<in>set (part_handles r p). \<not> active h x))"

lemma receiver_atD:
  assumes "receiver_at (r, h)"
  shows "setup_ok r" "aligned (local_parts r) (parts r)" "flags_set r" "side r = RECEIVER"
    "threaded r \<noteq> RUNNING" "\<And>p x. p \<in> marked r \<Longrightarrow> x \<in> set (part_handles r p) \<Longrightarrow> \<not> active h x"
  using assms by (auto simp: receiver_at_def)

lemma part_handles_cong:
  "request r' = request r \<Longrightarrow> parts r' = parts r \<Longrightarrow> local_parts r' = local_parts r \<Longrightarrow>
   part_handles r' p = part_handles r p"
  by (simp add: part_handles_def)

lemma start_receiver:
  assumes "setup_ok r" "aligned (local_parts r) (parts r)" "side r = RECEIVER" "threaded r \<noteq> RUNNING"
    and "mpi_succeeds M"
  shows "\<exists>r'. MPIP_Start M (r, h) = Inr (MPI_SUCCESS, r', CStartall (handles r) # h)
      \<and> receiver_at (r', CStartall (handles r) # h) \<and> same_messages r r' \<and> state r' = ACTIVE"
proof -
  let ?r = "r\<lparr>state := ACTIVE, internal_status := filled (replicate (nat (parts r)) 0),
                local_status := filled (replicate (nat (local_parts r)) False)\<rparr>"
  have "setup_ok ?r" using assms(1) by (simp add: setup_ok_def)
  moreover have "flags_set ?r \<and> marked ?r = {}"
    using setup_okD(1) [OF assms(1)] by (intro flags_set_replicate) auto
  ultimately have "receiver_at (?r, CStartall (handles r) # h)" using assms by (simp add: receiver_at_def)
  with MPIP_Start_eq [OF assms(1,4,5)] assms(3) show ?thesis by (simp add: same_messages_def)
qed

lemma part_handles_subset: "set (part_handles r p) \<subseteq> set (handles r)"
  by (auto simp: part_handles_def split: prod.splits dest: in_set_takeD in_set_dropD)

lemma parrived_eq:
  assumes at: "receiver_at (r, h)" and p: "0 \<le> p" "p < local_parts r" "p \<notin> marked r"
    and M: "mpi_succeeds M"
  shows "\<exists>st. MPIP_Parrived M p (r, h)
      = Inr (testall_flag M h (part_handles r p), r\<lparr>local_status := st\<rparr>,
             CTestall (part_handles r p) (testall_flag M h (part_handles r p)) # h)
    \<and> blk_set (local_status r) p (testall_flag M h (part_handles r p) \<noteq> 0) = Inr st"
proof -
  note r = receiver_atD [OF at]
  obtain st where st: "blk_set (local_status r) p (testall_flag M h (part_handles r p) \<noteq> 0) = Inr st"
    using blk.put_ok [of p "local_status r"] p setup_okD(10) [OF r(1)] by metis
  have "blk_get (local_status r) p = Inr False" using flags_setD [OF r(3) p(1,2)] p(3) by simp
  from map_recv_buffer_test [OF r(1,2) p(1,2) M this st] r st setup_okD(11) [OF r(1)]
  show ?thesis by (simp add: MPIP_Parrived_def)
qed

lemma parrived_known:
  "receiver_at (r, h) \<Longrightarrow> p \<in> marked r \<Longrightarrow> MPIP_Parrived M p (r, h) = Inr (1, r, h)"
  by (simp add: receiver_at_def MPIP_Parrived_def setup_okD(11) map_recv_buffer_known marked_def)

text \<open>Remembering the result of a test keeps the invariant.\<close>

lemma parrived_receiver_at:
  assumes at: "receiver_at (r, h)" and p: "0 \<le> p" "p < local_parts r" "p \<notin> marked r"
    and st: "blk_set (local_status r) p (f \<noteq> 0) = Inr st"
  shows "receiver_at (r\<lparr>local_status := st\<rparr>, CTestall (part_handles r p) f # h)
    \<and> marked (r\<lparr>local_status := st\<rparr>) = (if f \<noteq> 0 then insert p (marked r) else marked r)"
proof -
  note r = receiver_atD [OF at]
  let ?r = "r\<lparr>local_status := st\<rparr>"
  have mk: "marked ?r = (if f \<noteq> 0 then insert p (marked r) else marked r)"
  proof (intro set_eqI)
    fix q show "q \<in> marked ?r \<longleftrightarrow> q \<in> (if f \<noteq> 0 then insert p (marked r) else marked r)"
      using blk.get_put_same [OF st] blk.get_put_other [OF st, of q] p(3)
      by (cases "q = p") (auto simp: marked_def)
  qed
  obtain xs where xs: "local_status r = filled xs" "int (length xs) = local_parts r"
    using r(3) by (auto simp: flags_set_def elim: is_filledE)
  then have fl: "flags_set ?r" and ok: "setup_ok ?r"
    using st p r(1) by (auto simp: flags_set_def setup_ok_def blk_set_filled_iff)
  have "\<not> active (CTestall (part_handles r p) f # h) x" if "q \<in> marked ?r" "x \<in> set (part_handles r q)" for q x
    using that mk r(6) by (auto split: if_splits)
  moreover have "part_handles ?r q = part_handles r q" for q by (rule part_handles_cong) auto
  ultimately show ?thesis using fl ok r mk by (simp add: receiver_at_def)
qed

section \<open>Test and wait\<close>

lemma handles_slice: "setup_ok r \<Longrightarrow> blk_slice (request r) 0 (parts r) = Inr (handles r)"
  using setup_okD(5,6) [of r] blk_slice_all [of "handles r"] by simp

lemma MPIP_Test_inactive: "state r = INACTIVE \<Longrightarrow> MPIP_Test M (Some r, h) = Inr (MPI_SUCCESS, 0, Some r, h)"
  by (simp add: MPIP_Test_def)

lemma thread_code_0 [simp]: "thread_code t = 0 \<longleftrightarrow> t = RUNNING"
  by (cases t) auto

lemma MPIP_Test_eq:
  assumes "setup_ok r" "state r = ACTIVE" "threaded r \<noteq> RUNNING" "mpi_succeeds M"
  shows "MPIP_Test M (Some r, h)
       = Inr (MPI_SUCCESS, testall_flag M h (handles r),
              Some (if testall_flag M h (handles r) = 1 then r\<lparr>state := INACTIVE\<rparr> else r),
              CTestall (handles r) (testall_flag M h (handles r)) # h)"
  using assms setup_okD(11) [OF assms(1)] by (simp add: MPIP_Test_def handles_slice MPI_Testall_succeeds)

lemma MPIP_Test_running:
  "state r = ACTIVE \<Longrightarrow> lock r = MReady \<Longrightarrow> threaded r = RUNNING \<Longrightarrow>
   MPIP_Test M (Some r, h) = Inr (MPI_SUCCESS, 0, Some r, h)"
  by (simp add: MPIP_Test_def)

lemma MPIP_Wait_eq:
  assumes "setup_ok r" "threaded r \<noteq> RUNNING" "mpi_succeeds M" "waitall_ret M h (handles r)"
  shows "MPIP_Wait M (r, h) = Inr (MPI_SUCCESS, r\<lparr>state := INACTIVE\<rparr>, CWaitall (handles r) # h)"
  using assms setup_okD(11) [OF assms(1)] by (simp add: MPIP_Wait_def handles_slice MPI_Waitall_def)

lemma MPIP_Wait_blocks:
  assumes "setup_ok r" "threaded r \<noteq> RUNNING" "\<not> waitall_ret M h (handles r)"
  shows "MPIP_Wait M (r, h) = Inl Blocked"
  using assms setup_okD(11) [OF assms(1)] by (simp add: MPIP_Wait_def handles_slice MPI_Waitall_def)

text \<open>A wait that has to join runs the thread first, and then waits as if it had finished.\<close>

lemma MPIP_Wait_joins:
  assumes "lock r = MReady" "threaded r = RUNNING" "sync_thread r = Spawned"
    and "run_thread M (r, h) = Inr (r', h')" "setup_ok r'" "threaded r' \<noteq> RUNNING"
  shows "MPIP_Wait M (r, h) = MPIP_Wait M (r', h')"
  using assms setup_okD(11) [OF assms(5)] by (simp add: MPIP_Wait_def pthread_join_def)

section \<open>Free\<close>

lemma free_loop:
  assumes "request r = filled xs" "mpi_succeeds M"
  shows "for_up 0 (int (length xs)) (\<lambda>i h. bindE (blk_get (request r) i) (\<lambda>x. mpi_call M (CFree x) h)) h
       = Inr (rev (map CFree xs) @ h)"
proof -
  let ?st = "\<lambda>k. rev (map CFree (take (nat k) xs)) @ h"
  let ?body = "\<lambda>i h. bindE (blk_get (request r) i) (\<lambda>x. mpi_call M (CFree x) h)"
  have "\<exists>t. for_up 0 (int (length xs)) ?body h = Inr t \<and> t = ?st (int (length xs))"
  proof (rule for_up_inv [where I = "\<lambda>k t. t = ?st k"])
    fix i t assume i: "0 \<le> i" "i < int (length xs)" and t: "t = ?st i"
    have "nat i < length xs" using i by linarith
    then have "take (nat (i + 1)) xs = take (nat i) xs @ [xs ! nat i]"
      using i by (simp add: nat_add_distrib take_Suc_conv_app_nth)
    with i t assms show "\<exists>t'. ?body i t = Inr t' \<and> t' = ?st (i + 1)" by simp
  qed simp_all
  then show ?thesis by simp
qed

lemma MPIP_Request_free_eq:
  assumes ok: "setup_ok r" and M: "mpi_succeeds M"
  shows "\<exists>r'. MPIP_Request_free M (r, h) = Inr (MPI_SUCCESS, r', rev (map CFree (handles r)) @ h)
      \<and> request r' = Freed \<and> local_status r' = Freed \<and> internal_status r' = Freed
      \<and> comm_data r' = Freed \<and> lock r' = MDestroyed"
proof -
  have "for_up 0 (parts r) (\<lambda>i h. bindE (blk_get (request r) i) (\<lambda>x. mpi_call M (CFree x) h)) h
      = Inr (rev (map CFree (handles r)) @ h)"
    using free_loop [OF setup_okD(5) [OF ok] M] setup_okD(6) [OF ok] by simp
  moreover have "blk_free (local_status r) = Inr Freed"
    using blk_len_pos_Live [of "local_status r"] setup_okD(1,10) [OF ok] by auto
  moreover have "blk_free (request r) = Inr Freed" "blk_free (internal_status r) = Inr Freed"
    "blk_free (comm_data r) = Inr Freed"
    using ok by (auto simp: setup_ok_def intro: blk_free_is_filled)
  ultimately show ?thesis
    using ok setup_okD(11) [OF ok]
    by (simp add: MPIP_Request_free_def mutex_destroy_def setup_ok_def)
qed

end
