(* ===== verification/Init.thy ===== *)
theory Init
  imports Completion
begin

text \<open>
  What the two init functions do, mode by mode: the number and the size of the messages each
  mode settles, the calls that create them, the thread of the side that waits for the other's
  partitioning, and the info objects the init functions cannot read. The last section has what
  the messages of the two sides have in common.
\<close>

section \<open>The request the init functions build\<close>

text \<open>The two init functions differ in the side only.\<close>

definition init_request ::
    "p2p_side \<Rightarrow> mpi \<Rightarrow> int \<Rightarrow> int \<Rightarrow> int \<Rightarrow> nat \<Rightarrow> int \<Rightarrow> int \<Rightarrow> nat \<Rightarrow> info \<Rightarrow> mpip \<times> hist \<Rightarrow> (mpip \<times> hist) res" where
  "init_request s = (case s of SENDER \<Rightarrow> MPIP_Psend_init | RECEIVER \<Rightarrow> MPIP_Precv_init)"

definition prepped :: "p2p_side \<Rightarrow> int \<Rightarrow> int \<Rightarrow> int \<Rightarrow> nat \<Rightarrow> int \<Rightarrow> int \<Rightarrow> nat \<Rightarrow> mpip \<Rightarrow> mpip" where
  "prepped s buf n count ty opp tg cm r = prep buf n count ty opp tg cm (r\<lparr>side := s\<rparr>)"

lemma init_request_eq:
  "init_request s M buf n count ty opp tg cm info (r, h)
     = sync_driver M info (prepped s buf n count ty opp tg cm r, h)"
  by (cases s) (simp_all add: init_request_def prepped_def MPIP_Psend_init_def MPIP_Precv_init_def)

lemma prepped_simps [simp]:
  "side (prepped s buf n count ty opp tg cm r) = s"
  "state (prepped s buf n count ty opp tg cm r) = INACTIVE"
  "threaded (prepped s buf n count ty opp tg cm r) = NONE"
  "local_parts (prepped s buf n count ty opp tg cm r) = n"
  "local_size (prepped s buf n count ty opp tg cm r) = int32_of count"
  "lock (prepped s buf n count ty opp tg cm r) = MReady"
  "comm_data (prepped s buf n count ty opp tg cm r)
     = filled [\<lparr>buff = buf, partner = opp, tag = tg, comm = cm, mtype = ty\<rparr>]"
  by (simp_all add: prepped_def prep_def)

lemma prepped_meta [simp]:
  "the_meta (prepped s buf n count ty opp tg cm r) = \<lparr>buff = buf, partner = opp, tag = tg, comm = cm, mtype = ty\<rparr>"
  by simp

lemma prepped_prepared: "0 < n \<Longrightarrow> n \<le> INT_MAX \<Longrightarrow> prepared (prepped s buf n count ty opp tg cm r)"
  by (simp add: prepped_def prep_prepared)

section \<open>Creating the messages\<close>

text \<open>
  \<open>set_up M h r q h'\<close>: the request \<open>q\<close> and the history \<open>h'\<close> are what the setup makes of \<open>r\<close> and \<open>h\<close>:
  one persistent message per part, its arguments as \<open>message\<close> says, in index order.
\<close>

definition set_up :: "mpi \<Rightarrow> hist \<Rightarrow> mpip \<Rightarrow> mpip \<Rightarrow> hist \<Rightarrow> bool" where
  "set_up M h r q h' \<longleftrightarrow>
     setup_ok q \<and> side q = side r \<and> state q = state r \<and> threaded q = threaded r
     \<and> local_parts q = local_parts r \<and> local_size q = local_size r \<and> comm_data q = comm_data r
     \<and> local_status q = local_status r
     \<and> internal_status q = filled (replicate (nat (parts q)) 0)
     \<and> h' = rev (init_calls M (side r) (the_meta r) (psize q) (handles q)) @ CTypeExtent (mtype (the_meta r)) # h
     \<and> set (handles q) \<inter> issued h = {}"

lemma internal_setup_set_up:
  assumes "prepared r" "fits M (the_meta r) (parts r) (psize r)" "mpi_succeeds M" "fresh_handles M"
  shows "\<exists>q h'. internal_setup M (r, h) = Inr (q, h') \<and> set_up M h r q h'
      \<and> parts q = parts r \<and> psize q = psize r"
proof -
  obtain xs where xs: "internal_setup M (r, h)
      = Inr (r\<lparr>request := filled xs, internal_status := filled (replicate (nat (parts r)) 0)\<rparr>,
             rev (init_calls M (side r) (the_meta r) (psize r) xs) @ CTypeExtent (mtype (the_meta r)) # h)"
    "setup_ok (r\<lparr>request := filled xs, internal_status := filled (replicate (nat (parts r)) 0)\<rparr>)"
    "int (length xs) = parts r" "set xs \<inter> issued h = {}"
    using internal_setup_ok [OF assms, of h] by blast
  then show ?thesis by (simp add: set_up_def)
qed

lemma set_up_handles: "set_up M h r q h' \<Longrightarrow> int (length (handles q)) = parts q"
  by (simp add: set_up_def setup_okD(6))

text \<open>Setting the number of messages first.\<close>

lemma hard_setup:
  assumes r: "prepared r" and k: "0 < k" and s: "0 \<le> local_size r"
    and ft: "fits M (the_meta r) k (local_parts r * local_size r div k)"
    and le: "local_parts r * local_size r \<le> INT_MAX"
    and M: "mpi_succeeds M" "fresh_handles M"
  shows "\<exists>q h'. bindE (sync_hard k r) (\<lambda>r. internal_setup M (r, h)) = Inr (q, h') \<and> set_up M h r q h'
      \<and> parts q = k \<and> psize q = local_parts r * local_size r div k"
proof -
  let ?r = "r\<lparr>parts := k, psize := local_parts r * local_size r div k\<rparr>"
  have "sync_hard k r = Inr ?r"
    using preparedD(1) [OF r] s k le by (intro sync_hard_eq) auto
  moreover have "prepared ?r" "the_meta ?r = the_meta r" using r by (simp_all add: prepared_def)
  ultimately show ?thesis
    using internal_setup_set_up [of ?r M h] ft M by (auto simp: set_up_def)
qed

section \<open>The modes\<close>

lemma sync_driver_null:
  "sync_driver M MPI_INFO_NULL (r, h) = bindE (sync_hard 1 r) (\<lambda>r. internal_setup M (r, h))"
  by (simp add: sync_driver_def)

lemma sync_driver_unknown:
  assumes "info_get M i ''PMODE'' 20 = Some v" "length v < 10" "v \<notin> {''HARD'', ''SENDER'', ''RECEIVER''}"
  shows "sync_driver M (Info i) (r, h)
       = bindE (sync_hard 1 r) (\<lambda>r. internal_setup M (r, CInfoGet i ''PMODE'' # h))"
  using assms by (simp add: sync_driver_def info_read_def)

lemma sync_driver_hard:
  assumes "info_get M i ''PMODE'' 20 = Some ''HARD''" "info_get M i ''SET'' 20 = Some v" "length v < 10"
    and "atoi v = Inr k"
  shows "sync_driver M (Info i) (r, h)
       = bindE (sync_hard (if k \<le> 0 then 1 else k) r) (\<lambda>r.
           internal_setup M (r, CInfoGet i ''SET'' # CInfoGet i ''PMODE'' # h))"
  using assms by (simp add: sync_driver_def info_read_def)

text \<open>The value of the key that names a side.\<close>

definition mode_of :: "p2p_side \<Rightarrow> string" where
  "mode_of s = (case s of SENDER \<Rightarrow> ''SENDER'' | RECEIVER \<Rightarrow> ''RECEIVER'')"

lemma sync_driver_side:
  assumes "info_get M i ''PMODE'' 20 = Some (mode_of d)"
  shows "sync_driver M (Info i) (r, h)
       = (if side r = d then bindE (sync_side M d (r, CInfoGet i ''PMODE'' # h)) (internal_setup M)
          else Inr (set_running (pthread_create r), CInfoGet i ''PMODE'' # h))"
  using assms by (cases d) (simp_all add: sync_driver_def info_read_def mode_of_def)

lemma driver_setup:
  assumes r: "prepared r" and d: "side r = d"
    and ft: "fits M (the_meta r) (local_parts r) (local_size r)"
    and snd: "send_ret M h (partner (the_meta r)) sync_tag (comm (the_meta r))"
    and M: "mpi_succeeds M" "fresh_handles M"
  shows "\<exists>q h'. bindE (sync_side M d (r, h)) (internal_setup M) = Inr (q, h')
      \<and> set_up M (CSend [local_parts r, local_size r] (partner (the_meta r)) sync_tag (comm (the_meta r)) # h) r q h'
      \<and> parts q = local_parts r \<and> psize q = local_size r"
proof -
  let ?r = "r\<lparr>parts := local_parts r, psize := local_size r\<rparr>"
    and ?b = "CSend [local_parts r, local_size r] (partner (the_meta r)) sync_tag (comm (the_meta r)) # h"
  have "sync_side M d (r, h) = Inr (?r, ?b)"
    using sync_side_driver [OF d preparedD(4) [OF r] snd] by simp
  moreover have "prepared ?r" "the_meta ?r = the_meta r" using r by (simp_all add: prepared_def)
  ultimately show ?thesis
    using internal_setup_set_up [of ?r M ?b] ft M by (auto simp: set_up_def)
qed

section \<open>Info objects that cannot be read\<close>

lemma sync_driver_no_mode:
  "info_get M i ''PMODE'' 20 = None \<Longrightarrow> sync_driver M (Info i) (r, h) = Inl (Undefined UninitRead)"
  by (simp add: sync_driver_def info_read_def)

lemma sync_driver_no_set:
  "info_get M i ''PMODE'' 20 = Some ''HARD'' \<Longrightarrow> info_get M i ''SET'' 20 = None \<Longrightarrow>
   sync_driver M (Info i) (r, h) = Inl AssertFailed"
  by (simp add: sync_driver_def info_read_def)

lemma sync_driver_long_mode:
  "info_get M i ''PMODE'' 20 = Some v \<Longrightarrow> 10 \<le> length v \<Longrightarrow>
   sync_driver M (Info i) (r, h) = Inl (Undefined BufferOverflow)"
  by (simp add: sync_driver_def info_read_def)

section \<open>The messages of the two sides\<close>

text \<open>
  What MPI matches on, apart from the ranks: the communicator and the tag. Two messages with the
  same count and type can carry the same data.
\<close>

definition matches :: "msg \<Rightarrow> msg \<Rightarrow> bool" where
  "matches a b \<longleftrightarrow> m_tag a = m_tag b \<and> m_comm a = m_comm b"

lemma message_matches_iff:
  "comm mes = comm mes' \<Longrightarrow> tag mes = tag mes' \<Longrightarrow>
   matches (message M mes sz i) (message M' mes' sz' j) \<longleftrightarrow> i = j"
  by (auto simp: matches_def message_def)

text \<open>The bytes a message covers, relative to the start of the buffer.\<close>

definition covers :: "mpi \<Rightarrow> msg \<Rightarrow> int \<Rightarrow> int \<Rightarrow> bool" where
  "covers M m base b \<longleftrightarrow>
     m_buf m - base \<le> b \<and> b < m_buf m - base + m_count m * type_extent M (m_type m)"

lemma messages_tile:
  assumes e: "0 < type_extent M (mtype mes)" and sz: "0 < sz" and b: "0 \<le> b"
  shows "covers M (message M mes sz i) (buff mes) b \<longleftrightarrow> i = b div (sz * type_extent M (mtype mes))"
proof -
  let ?w = "sz * type_extent M (mtype mes)"
  have "0 < ?w" using e sz by simp
  have "covers M (message M mes sz i) (buff mes) b \<longleftrightarrow> ?w * i \<le> b \<and> b < ?w * (i + 1)"
    by (simp add: covers_def message_def algebra_simps)
  also have "\<dots> \<longleftrightarrow> b div ?w = i" using div_eq_iff_interval [OF \<open>0 < ?w\<close>, of b i] by simp
  finally show ?thesis by auto
qed

end
