(* ===== verification/Concurrency.thy ===== *)
theory Concurrency
  imports Init
begin

text \<open>
  A round of a sender as an interleaving of its threads: user threads that call \<open>MPIP_Pready\<close>
  and the background thread that runs \<open>threaded_sync_driver\<close>. Each step is one access to shared
  state: the store of a ready flag, the read of \<open>threaded\<close> under the lock, one atomic increment,
  one \<open>MPI_Start\<close>, one flag the background thread looks at while it holds the lock.
\<close>

section \<open>Configurations and steps\<close>

datatype actor = User nat | Background

text \<open>
  Where an actor is. \<open>Marked p\<close>: the flag of \<open>p\<close> is stored, \<open>threaded\<close> not read yet. \<open>Sending p i e t\<close>:
  in the loop of \<open>general_send\<close> for partition \<open>p\<close>, before the increment of message \<open>i\<close>, with loop
  bound \<open>e\<close> and threshold \<open>t\<close>. \<open>Firing\<close>: after the increment that reached the threshold, before
  the start. The background thread goes from \<open>Setup\<close> to \<open>Locking\<close>, then scans the flags and is \<open>Done\<close>.
\<close>

datatype pc =
    Idle
  | Marked int
  | Sending int int int int
  | Firing int int int int
  | Setup
  | Locking
  | Scan int
  | Done

text \<open>
  \<open>counted\<close> is an auxiliary variable that no step depends on: the increments made so far, each
  by the background thread or not, for a partition and a message.
\<close>

record conf =
  req :: mpip
  log :: hist
  pcs :: "actor \<Rightarrow> pc"
  counted :: "(bool \<times> int \<times> int) set"

text \<open>The background thread holds the lock during the whole scan.\<close>

definition locked :: "conf \<Rightarrow> bool" where
  "locked s \<longleftrightarrow> (case pcs s Background of
      Scan p \<Rightarrow> True | Sending p i e t \<Rightarrow> True | Firing p i e t \<Rightarrow> True | _ \<Rightarrow> False)"

text \<open>Where an actor goes on after \<open>general_send\<close> of \<open>p\<close> has returned.\<close>

fun after_send :: "actor \<Rightarrow> int \<Rightarrow> pc" where
  "after_send (User u) p = Idle"
| "after_send Background p = Scan (p + 1)"

abbreviation goto :: "actor \<Rightarrow> pc \<Rightarrow> conf \<Rightarrow> conf" where
  "goto a c s \<equiv> s\<lparr>pcs := (pcs s)(a := c)\<rparr>"

inductive step :: "mpi \<Rightarrow> conf \<Rightarrow> conf \<Rightarrow> bool" for M :: mpi where
  mark: "pcs s (User u) = Idle \<Longrightarrow> side (req s) = SENDER \<and> state (req s) = ACTIVE \<Longrightarrow> p \<notin> marked (req s) \<Longrightarrow>
    blk_set (local_status (req s)) p True = Inr st \<Longrightarrow>
    step M s (goto (User u) (Marked p) (s\<lparr>req := (req s)\<lparr>local_status := st\<rparr>\<rparr>))"
| delay: "pcs s (User u) = Marked p \<Longrightarrow> \<not> locked s \<Longrightarrow> threaded (req s) = RUNNING \<Longrightarrow>
    step M s (goto (User u) Idle s)"
| go: "pcs s (User u) = Marked p \<Longrightarrow> \<not> locked s \<Longrightarrow> threaded (req s) \<noteq> RUNNING \<Longrightarrow>
    send_range p (req s) = Inr (i, e, t) \<Longrightarrow>
    step M s (goto (User u) (Sending p i e t) s)"
| count: "pcs s a = Sending p i e t \<Longrightarrow> i < e \<Longrightarrow> fetch_add i (req s) = Inr (v, r) \<Longrightarrow> c_add v 1 = Inr w \<Longrightarrow>
    step M s (goto a (if w = t then Firing p i e t else Sending p (i + 1) e t)
      (s\<lparr>req := r, counted := insert (a = Background, p, i) (counted s)\<rparr>))"
| fire: "pcs s a = Firing p i e t \<Longrightarrow> start_message M i (req s, log s) = Inr (r, h) \<Longrightarrow>
    step M s (goto a (Sending p (i + 1) e t) (s\<lparr>req := r, log := h\<rparr>))"
| sent: "pcs s a = Sending p i e t \<Longrightarrow> \<not> i < e \<Longrightarrow> step M s (goto a (after_send a p) s)"
| sync: "pcs s Background = Setup \<Longrightarrow>
    bindE (sync_side M (not_side (side (req s))) (req s, log s)) (internal_setup M) = Inr (r, h) \<Longrightarrow>
    step M s (goto Background Locking (s\<lparr>req := r, log := h\<rparr>))"
| acquire: "pcs s Background = Locking \<Longrightarrow> side (req s) = SENDER \<Longrightarrow>
    step M s (goto Background (Scan (if state (req s) = ACTIVE then 0 else local_parts (req s))) s)"
| skip: "pcs s Background = Scan p \<Longrightarrow> p < local_parts (req s) \<Longrightarrow>
    blk_get (local_status (req s)) p = Inr False \<Longrightarrow>
    step M s (goto Background (Scan (p + 1)) s)"
| send: "pcs s Background = Scan p \<Longrightarrow> p < local_parts (req s) \<Longrightarrow>
    blk_get (local_status (req s)) p = Inr True \<Longrightarrow> send_range p (req s) = Inr (i, e, t) \<Longrightarrow>
    step M s (goto Background (Sending p i e t) s)"
| finish: "pcs s Background = Scan p \<Longrightarrow> \<not> p < local_parts (req s) \<Longrightarrow>
    step M s (goto Background Done (s\<lparr>req := (req s)\<lparr>threaded := FINISHED\<rparr>\<rparr>))"

inductive_cases stepE: "step M s s'"

abbreviation reaches :: "mpi \<Rightarrow> conf \<Rightarrow> conf \<Rightarrow> bool" where
  "reaches M \<equiv> (step M)\<^sup>*\<^sup>*"

text \<open>
  The round starts with every user idle and nothing counted; either the setup is over, or the
  request was started while the background thread was running.
\<close>

definition conf_of :: "mpip \<Rightarrow> hist \<Rightarrow> pc \<Rightarrow> conf" where
  "conf_of r h c = \<lparr>req = r, log = h, pcs = (\<lambda>a. case a of User u \<Rightarrow> Idle | Background \<Rightarrow> c), counted = {}\<rparr>"

text \<open>Nothing is left to do for any actor.\<close>

definition quiescent :: "conf \<Rightarrow> bool" where
  "quiescent s \<longleftrightarrow> (\<forall>u. pcs s (User u) = Idle) \<and> pcs s Background = Done"

section \<open>The invariant\<close>

text \<open>The increments of one message so far.\<close>

definition count_of :: "conf \<Rightarrow> int \<Rightarrow> nat" where
  "count_of s i = card {(b, p). (b, p, i) \<in> counted s}"

text \<open>The partition an actor is working on.\<close>

fun busy :: "pc \<Rightarrow> int option" where
  "busy (Marked p) = Some p"
| "busy (Sending p i e t) = Some p"
| "busy (Firing p i e t) = Some p"
| "busy _ = None"

text \<open>
  \<open>in_loop s a p i e t\<close>: the bounds and the threshold of a \<open>general_send\<close> of \<open>p\<close> under way. A user gets
  there only when the background thread is done; the background thread works in index order.
\<close>

definition in_loop :: "conf \<Rightarrow> actor \<Rightarrow> int \<Rightarrow> int \<Rightarrow> int \<Rightarrow> int \<Rightarrow> bool" where
  "in_loop s a p i e t \<longleftrightarrow>
     p \<in> marked (req s) \<and> fst (net_range (local_parts (req s)) (parts (req s)) p) \<le> i \<and> i \<le> e
     \<and> e = snd (net_range (local_parts (req s)) (parts (req s)) p)
     \<and> t = net_threshold (local_parts (req s)) (parts (req s))
     \<and> (if a = Background then \<forall>q j. (True, q, j) \<in> counted s \<longrightarrow> q \<le> p else pcs s Background = Done)"

definition actor_ok :: "conf \<Rightarrow> actor \<Rightarrow> bool" where
  "actor_ok s a \<longleftrightarrow> (case pcs s a of
      Idle \<Rightarrow> a \<noteq> Background
    | Marked p \<Rightarrow> a \<noteq> Background \<and> p \<in> marked (req s) \<and> (\<forall>i. (False, p, i) \<notin> counted s)
    | Sending p i e t \<Rightarrow> in_loop s a p i e t \<and> (\<forall>j. (a = Background, p, j) \<in> counted s \<longrightarrow> j < i)
    | Firing p i e t \<Rightarrow> in_loop s a p i e t \<and> i < e \<and> (\<forall>j. (a = Background, p, j) \<in> counted s \<longrightarrow> j \<le> i)
    | Setup \<Rightarrow> a = Background \<and> counted s = {}
    | Locking \<Rightarrow> a = Background \<and> counted s = {}
    | Scan q \<Rightarrow> a = Background \<and> 0 \<le> q \<and> (\<forall>p j. (True, p, j) \<in> counted s \<longrightarrow> p < q)
    | Done \<Rightarrow> a = Background)"

definition base_ok :: "conf \<Rightarrow> bool" where
  "base_ok s \<longleftrightarrow> side (req s) = SENDER \<and> state (req s) = ACTIVE \<and> flags_set (req s)
     \<and> 2 * local_parts (req s) \<le> INT_MAX \<and> (threaded (req s) = RUNNING \<longleftrightarrow> pcs s Background \<noteq> Done)"

text \<open>Before the setup the request is prepared and the partner's answer fits; afterwards it is set up.\<close>

definition phase_ok :: "mpi \<Rightarrow> hist \<Rightarrow> conf \<Rightarrow> bool" where
  "phase_ok M h0 s \<longleftrightarrow>
     (if pcs s Background = Setup
      then prepared (req s) \<and> log s = h0 \<and> (\<exists>n sz. fits M (the_meta (req s)) n sz \<and> aligned (local_parts (req s)) n
         \<and> recv_data M h0 (partner (the_meta (req s))) sync_tag (comm (the_meta (req s))) = Some (n, sz))
      else setup_ok (req s) \<and> aligned (local_parts (req s)) (parts (req s)))"

definition counts_ok :: "conf \<Rightarrow> bool" where
  "counts_ok s \<longleftrightarrow>
     (\<forall>b p i. (b, p, i) \<in> counted s \<longrightarrow> p \<in> marked (req s) \<and> p \<in> deps (local_parts (req s)) (parts (req s)) i)
     \<and> (pcs s Background \<noteq> Setup \<longrightarrow>
          (\<forall>i. 0 \<le> i \<and> i < parts (req s) \<longrightarrow> counters (req s) ! nat i = int (count_of s i)))"

definition unique_ok :: "conf \<Rightarrow> bool" where
  "unique_ok s \<longleftrightarrow> (\<forall>u v p. u \<noteq> v \<longrightarrow> busy (pcs s (User u)) = Some p \<longrightarrow> busy (pcs s (User v)) \<noteq> Some p)"

definition inv :: "mpi \<Rightarrow> hist \<Rightarrow> conf \<Rightarrow> bool" where
  "inv M h0 s \<longleftrightarrow> base_ok s \<and> phase_ok M h0 s \<and> counts_ok s \<and> unique_ok s \<and> (\<forall>a. actor_ok s a)"

lemma invD:
  assumes "inv M h0 s"
  shows "base_ok s" "phase_ok M h0 s" "counts_ok s" "unique_ok s" "actor_ok s a"
  using assms by (auto simp: inv_def)

text \<open>A step of another actor keeps what an actor relies on.\<close>

lemma actor_ok_mono:
  assumes "actor_ok s b" "pcs s' b = pcs s b" "marked (req s) \<subseteq> marked (req s')"
    and "local_parts (req s') = local_parts (req s)" "parts (req s') = parts (req s)"
    and "pcs s Background = Done \<Longrightarrow> pcs s' Background = Done"
    and "\<And>c p i. (c, p, i) \<in> counted s' \<Longrightarrow> (c, p, i) \<notin> counted s \<Longrightarrow> c = (b = Background) \<Longrightarrow>
           b \<noteq> Background \<and> busy (pcs s b) \<noteq> Some p"
    and "b = Background \<Longrightarrow> pcs s b = Setup \<or> pcs s b = Locking \<Longrightarrow> counted s' = counted s"
  shows "actor_ok s' b"
proof -
  have C: "(b = Background, p, i) \<in> counted s" if "(b = Background, p, i) \<in> counted s'" "busy (pcs s b) = Some p \<or> b = Background" for p i
    using assms(7) [OF that(1)] that(2) by blast
  show ?thesis
  proof (cases "b = Background")
    case True
    then have C: "(True, p, i) \<in> counted s" if "(True, p, i) \<in> counted s'" for p i using C [of p i] that by simp
    from assms(1-6,8) True show ?thesis
      by (cases "pcs s b") (auto simp: actor_ok_def in_loop_def dest!: C)
  next
    case False
    then have C: "(False, p, i) \<in> counted s" if "(False, p, i) \<in> counted s'" "busy (pcs s b) = Some p" for p i
      using C [of p i] that by simp
    from assms(1-6) False show ?thesis
      by (cases "pcs s b") (auto simp: actor_ok_def in_loop_def dest!: C)
  qed
qed

section \<open>Every step keeps the invariant\<close>

text \<open>A step that only moves one actor.\<close>

lemma inv_move:
  assumes I: "inv M h0 s" and ok: "actor_ok (goto a c s) a"
    and c: "pcs s a \<noteq> Setup" "c \<noteq> Setup" "a = Background \<Longrightarrow> pcs s a \<noteq> Done \<and> c \<noteq> Done"
    and u: "a \<noteq> Background \<Longrightarrow> busy c = None \<or> busy c = busy (pcs s a)"
  shows "inv M h0 (goto a c s)"
proof -
  note D = invD [OF I]
  have "actor_ok (goto a c s) b" for b
  proof (cases "b = a")
    case False
    with c(3) show ?thesis
      by (intro actor_ok_mono [OF D(5) [of b]]) auto
  qed (simp add: ok)
  moreover have "base_ok (goto a c s)" "phase_ok M h0 (goto a c s)" "counts_ok (goto a c s)"
    using D(1-3) c by (auto simp: base_ok_def phase_ok_def counts_ok_def count_of_def)
  moreover have "unique_ok (goto a c s)"
    using D(4) u unfolding unique_ok_def by (cases a) (fastforce split: if_splits)+
  ultimately show ?thesis by (simp add: inv_def)
qed

lemma inv_mark:
  assumes I: "inv M h0 s" and u: "pcs s (User u) = Idle" and p: "p \<notin> marked (req s)"
    and st: "blk_set (local_status (req s)) p True = Inr st"
  shows "inv M h0 (goto (User u) (Marked p) (s\<lparr>req := (req s)\<lparr>local_status := st\<rparr>\<rparr>))" (is "inv M h0 ?s")
proof -
  note D = invD [OF I]
  let ?r = "(req s)\<lparr>local_status := st\<rparr>"
  obtain xs where xs: "local_status (req s) = filled xs" "int (length xs) = local_parts (req s)"
    using D(1) by (auto simp: base_ok_def flags_set_def elim: is_filledE)
  then have b: "0 \<le> p" "p < local_parts (req s)" "st = filled (xs[nat p := True])"
    using st by (auto simp: blk_set_filled_iff)
  have mk: "marked ?r = insert p (marked (req s))"
    using mark_partition [of "req s" p] st xs b by auto
  have fl: "flags_set ?r" "blk_len st = local_parts (req s)"
    using b xs by (auto simp: flags_set_def)
  have fresh: "(c, p, i) \<notin> counted s" for c i using D(3) p by (auto simp: counts_ok_def)
  have act: "actor_ok ?s b" for b
  proof (cases "b = User u")
    case True
    then show ?thesis using fresh mk by (simp add: actor_ok_def)
  next
    case False
    then show ?thesis using mk by (intro actor_ok_mono [OF D(5) [of b]]) auto
  qed
  have "busy (pcs s (User v)) \<noteq> Some p" for v
    using D(5) [of "User v"] p by (cases "pcs s (User v)") (auto simp: actor_ok_def in_loop_def)
  then have "unique_ok ?s" using D(4) by (auto simp: unique_ok_def)
  moreover have "base_ok ?s" using D(1) fl by (auto simp: base_ok_def)
  moreover have "phase_ok M h0 ?s" using D(2) fl(2) by (auto simp: phase_ok_def prepared_def setup_ok_def)
  moreover have "counts_ok ?s" using D(3) mk by (auto simp: counts_ok_def count_of_def)
  ultimately show ?thesis using act by (simp add: inv_def)
qed

lemma finite_counts: "counts_ok s \<Longrightarrow> finite {(b, p). (b, p, i) \<in> counted s}"
  by (rule finite_subset [of _ "UNIV \<times> marked (req s)"]) (auto simp: counts_ok_def)

lemma count_of_bound:
  assumes I: "inv M h0 s" and "pcs s Background \<noteq> Setup"
  shows "int (count_of s i) < INT_MAX"
proof -
  note D = invD [OF I]
  have "count_of s i \<le> card (UNIV \<times> {0..<local_parts (req s)} :: (bool \<times> int) set)"
    using D(3) unfolding count_of_def counts_ok_def by (intro card_mono) (auto simp: deps_def)
  also have "\<dots> = 2 * nat (local_parts (req s))" by (simp add: card_cartesian_product card_UNIV_bool)
  finally have "count_of s i \<le> 2 * nat (local_parts (req s))" .
  moreover have "0 < local_parts (req s)" using D(2) assms(2) by (simp add: phase_ok_def setup_ok_def)
  ultimately have "int (count_of s i) \<le> 2 * local_parts (req s)" by linarith
  moreover have "2 * local_parts (req s) \<le> INT_MAX" using D(1) by (simp add: base_ok_def)
  ultimately show ?thesis by presburger
qed

lemma fetch_add_eq:
  assumes ok: "setup_ok r" and i: "0 \<le> i" "i < parts r"
    and c: "0 \<le> counters r ! nat i" "counters r ! nat i < INT_MAX"
  shows "fetch_add i r = Inr (counters r ! nat i,
           r\<lparr>internal_status := filled ((counters r)[nat i := counters r ! nat i + 1])\<rparr>)"
proof -
  obtain cs where cs: "internal_status r = filled cs" "counters r = cs" using setup_okD(8) [OF ok] by auto
  with setup_okD(9) [OF ok] i c show ?thesis by (simp add: fetch_add_def int32_of_id)
qed

lemma count_of_insert:
  assumes "counts_ok s" "(b, p, i) \<notin> counted s"
  shows "count_of (s\<lparr>counted := insert (b, p, i) (counted s)\<rparr>) j = count_of s j + (if j = i then 1 else 0)"
proof -
  have "{(c, q). (c, q, j) \<in> insert (b, p, i) (counted s)}
      = (if j = i then insert (b, p) {(c, q). (c, q, j) \<in> counted s} else {(c, q). (c, q, j) \<in> counted s})"
    by auto
  moreover have "(b, p) \<notin> {(c, q). (c, q, i) \<in> counted s}" using assms(2) by simp
  ultimately show ?thesis
    using card_insert_disjoint [OF finite_counts [OF assms(1), of i], of "(b, p)"] by (simp add: count_of_def)
qed

text \<open>What an actor in the loop knows.\<close>

lemma sendingD:
  assumes I: "inv M h0 s" and a: "pcs s a = Sending p i e t"
  shows "p \<in> marked (req s)" "0 \<le> i" "i \<le> e" "e \<le> parts (req s)" "pcs s Background \<noteq> Setup"
    "i < e \<Longrightarrow> p \<in> deps (local_parts (req s)) (parts (req s)) i"
    "(a = Background, p, i) \<notin> counted s" "t = net_threshold (local_parts (req s)) (parts (req s))"
    "e = snd (net_range (local_parts (req s)) (parts (req s)) p)"
proof -
  note D = invD [OF I]
  have il: "in_loop s a p i e t" and fresh: "\<forall>j. (a = Background, p, j) \<in> counted s \<longrightarrow> j < i"
    using D(5) [of a] a by (simp_all add: actor_ok_def)
  from il show p: "p \<in> marked (req s)" and "i \<le> e"
    and "t = net_threshold (local_parts (req s)) (parts (req s))"
    and e: "e = snd (net_range (local_parts (req s)) (parts (req s)) p)" by (auto simp: in_loop_def)
  from fresh show "(a = Background, p, i) \<notin> counted s" by auto
  show bg: "pcs s Background \<noteq> Setup" using il a by (cases "a = Background") (auto simp: in_loop_def)
  with D(2) have ok: "setup_ok (req s)" "aligned (local_parts (req s)) (parts (req s))" by (auto simp: phase_ok_def)
  have pb: "0 \<le> p" "p < local_parts (req s)" using marked_bounds [OF p] setup_okD(10) [OF ok(1)] by auto
  note r = net.rng_in [OF ok(2) pb]
  from r il show "0 \<le> i" "e \<le> parts (req s)" by (auto simp: in_loop_def)
  from pb il show "i < e \<Longrightarrow> p \<in> deps (local_parts (req s)) (parts (req s)) i"
    by (auto simp: in_loop_def deps_def)
qed

lemma inv_count:
  assumes I: "inv M h0 s" and a: "pcs s a = Sending p i e t" "i < e"
    and f: "fetch_add i (req s) = Inr (v, r)" "c_add v 1 = Inr w"
  defines "s' \<equiv> goto a (if w = t then Firing p i e t else Sending p (i + 1) e t)
      (s\<lparr>req := r, counted := insert (a = Background, p, i) (counted s)\<rparr>)"
  shows "inv M h0 s' \<and> w = int (count_of s i) + 1 \<and> (\<forall>j. count_of s' j = count_of s j + (if j = i then 1 else 0))
    \<and> same_messages (req s) r"
proof -
  note D = invD [OF I] and S = sendingD [OF I a(1)]
  have ok: "setup_ok (req s)" "aligned (local_parts (req s)) (parts (req s))"
    using D(2) S(5) by (auto simp: phase_ok_def)
  have i: "0 \<le> i" "i < parts (req s)" using S a(2) by auto
  have ci: "counters (req s) ! nat i = int (count_of s i)" using D(3) S(5) i by (auto simp: counts_ok_def)
  with count_of_bound [OF I S(5), of i] have fa: "fetch_add i (req s) = Inr (counters (req s) ! nat i,
      (req s)\<lparr>internal_status := filled ((counters (req s))[nat i := counters (req s) ! nat i + 1])\<rparr>)"
    by (intro fetch_add_eq [OF ok(1) i]) auto
  have r: "v = int (count_of s i)"
    "r = (req s)\<lparr>internal_status := filled ((counters (req s))[nat i := counters (req s) ! nat i + 1])\<rparr>"
    using f(1) fa ci by auto
  have w: "w = int (count_of s i) + 1" using f(2) r(1) by (auto simp: c_add_def chk_int_eq_Inr)
  have cnt: "count_of s' j = count_of s j + (if j = i then 1 else 0)" for j
    using count_of_insert [OF D(3) S(7), of j] by (simp add: s'_def count_of_def)
  have same: "marked r = marked (req s)" "local_parts r = local_parts (req s)" "parts r = parts (req s)"
    by (simp_all add: r(2) marked_def)
  have len: "int (length (counters (req s))) = parts (req s)" using setup_okD(9) [OF ok(1)] .
  have "actor_ok s' b" for b
  proof (cases "b = a")
    case True
    then show ?thesis
      using D(5) [of a] a same by (cases "a = Background") (auto simp: actor_ok_def in_loop_def s'_def)
  next
    case False
    have "busy (pcs s b) \<noteq> Some p" if nb: "b \<noteq> Background" "a \<noteq> Background"
    proof -
      obtain u v where uv: "a = User u" "b = User v" using nb by (meson actor.exhaust)
      with False have "u \<noteq> v" by auto
      with D(4) uv a(1) show ?thesis by (simp add: unique_ok_def)
    qed
    moreover have "pcs s Background = Done" if "a \<noteq> Background"
      using D(5) [of a] a that by (simp add: actor_ok_def in_loop_def)
    ultimately show ?thesis using False same a unfolding s'_def
      by (intro actor_ok_mono [OF D(5) [of b]]) auto
  qed
  moreover have "base_ok s'" using D(1) a r(2) by (auto simp: base_ok_def s'_def flags_set_def)
  moreover have "phase_ok M h0 s'"
    using D(2) S(5) r(2) ok len by (auto simp: phase_ok_def s'_def setup_ok_def)
  moreover have "counts_ok s'"
    using D(3) S(1,5,6) a(2) i r(2) same len cnt ci
    by (auto simp: counts_ok_def s'_def nth_list_update nat_eq_iff)
  moreover have "unique_ok s'"
    using D(4) a unfolding unique_ok_def s'_def by (cases a) (fastforce split: if_splits)+
  ultimately show ?thesis using w cnt r(2) by (simp add: inv_def same_messages_def)
qed

lemma inv_fire:
  assumes I: "inv M h0 s" and a: "pcs s a = Firing p i e t" and f: "start_message M i (req s, log s) = Inr (r, h)"
  shows "inv M h0 (goto a (Sending p (i + 1) e t) (s\<lparr>req := r, log := h\<rparr>)) \<and> r = req s
    \<and> (0 \<le> i \<longrightarrow> i < parts (req s) \<longrightarrow> h = CStart (handles (req s) ! nat i) # log s)"
proof -
  note D = invD [OF I]
  have il: "in_loop s a p i e t" "i < e" using D(5) [of a] a by (simp_all add: actor_ok_def)
  have bg: "pcs s Background \<noteq> Setup" using il a by (cases "a = Background") (auto simp: in_loop_def)
  with D(2) have ok: "setup_ok (req s)" by (simp add: phase_ok_def)
  have r: "r = req s" using f by (auto simp: start_message_def)
  have "actor_ok (s\<lparr>log := h\<rparr>) b" for b by (rule actor_ok_mono [OF D(5)]) auto
  with I bg have "inv M h0 (s\<lparr>log := h\<rparr>)"
    by (simp add: inv_def base_ok_def phase_ok_def counts_ok_def count_of_def unique_ok_def)
  then have "inv M h0 (goto a (Sending p (i + 1) e t) (s\<lparr>log := h\<rparr>))"
    using a D(5) [of a]
    by (intro inv_move) (auto simp: actor_ok_def in_loop_def)
  moreover have "h = CStart (handles (req s) ! nat i) # log s" if "0 \<le> i" "i < parts (req s)"
  proof -
    obtain hs where "request (req s) = filled hs" "handles (req s) = hs" using setup_okD(5) [OF ok] by auto
    with f that setup_okD(6) [OF ok] show ?thesis by (auto simp: start_message_def mpi_call_eq_Inr)
  qed
  ultimately show ?thesis using r by simp
qed

lemma inv_sync:
  assumes I: "inv M h0 s" and c: "pcs s Background = Setup"
    and f: "bindE (sync_side M (not_side (side (req s))) (req s, log s)) (internal_setup M) = Inr (r, h)"
    and M: "mpi_succeeds M" "fresh_handles M"
  shows "inv M h0 (goto Background Locking (s\<lparr>req := r, log := h\<rparr>)) \<and> (\<forall>x. starts h x = starts h0 x)"
proof -
  note D = invD [OF I]
  let ?q = "req s"
  obtain n sz where q: "prepared ?q" "log s = h0" "fits M (the_meta ?q) n sz" "aligned (local_parts ?q) n"
    "recv_data M h0 (partner (the_meta ?q)) sync_tag (comm (the_meta ?q)) = Some (n, sz)"
    using D(2) c by (auto simp: phase_ok_def)
  obtain xs where "bindE (sync_side M (not_side (side ?q)) (?q, log s)) (internal_setup M)
      = Inr (with_messages n sz xs ?q, thread_setup_log M ?q n sz xs h0)"
    "setup_ok (with_messages n sz xs ?q)" "int (length xs) = n"
    using thread_setup_eq [OF q(1,3) M q(5)] q(2) by metis
  then have r: "r = with_messages n sz xs ?q" "h = thread_setup_log M ?q n sz xs h0" "setup_ok r"
    "int (length xs) = n" using f by auto
  have n: "0 < n" using q(4) by (simp add: aligned_def)
  have C: "counted s = {}" using D(5) [of Background] c by (simp add: actor_ok_def)
  let ?s = "goto Background Locking (s\<lparr>req := r, log := h\<rparr>)"
  have "actor_ok ?s b" for b
  proof (cases "b = Background")
    case True
    then show ?thesis using C by (simp add: actor_ok_def)
  next
    case False
    then show ?thesis using D(5) [of b] c r(1)
      by (cases "pcs s b") (auto simp: actor_ok_def in_loop_def with_messages_def marked_def)
  qed
  moreover have "base_ok ?s" using D(1) c r(1) by (simp add: base_ok_def with_messages_def flags_set_def)
  moreover have "phase_ok M h0 ?s" using r(1,3) q(4) by (simp add: phase_ok_def with_messages_def)
  moreover have "counts_ok ?s" using C r(1) n by (auto simp: counts_ok_def count_of_def with_messages_def nat_less_iff)
  moreover have "unique_ok ?s" using D(4) by (auto simp: unique_ok_def)
  ultimately show ?thesis using r(2) by (simp add: inv_def)
qed

lemma inv_finish:
  assumes I: "inv M h0 s" and c: "pcs s Background = Scan p"
  shows "inv M h0 (goto Background Done (s\<lparr>req := (req s)\<lparr>threaded := FINISHED\<rparr>\<rparr>))" (is "inv M h0 ?s")
proof -
  note D = invD [OF I]
  have mk: "marked ((req s)\<lparr>threaded := FINISHED\<rparr>) = marked (req s)" by (simp add: marked_def)
  have "actor_ok ?s b" for b
  proof (cases "b = Background")
    case False
    then show ?thesis using mk by (intro actor_ok_mono [OF D(5) [of b]]) auto
  qed (simp add: actor_ok_def)
  moreover have "base_ok ?s" using D(1) by (simp add: base_ok_def flags_set_def)
  moreover have "phase_ok M h0 ?s" using D(2) c by (simp add: phase_ok_def setup_ok_def)
  moreover have "counts_ok ?s" using D(3) c mk by (simp add: counts_ok_def count_of_def)
  moreover have "unique_ok ?s" using D(4) by (auto simp: unique_ok_def)
  ultimately show ?thesis by (simp add: inv_def)
qed

lemma send_range_in_loop:
  assumes I: "inv M h0 s" and bg: "pcs s Background \<noteq> Setup" and p: "p \<in> marked (req s)"
    and r: "send_range p (req s) = Inr (i, e, t)"
  shows "i = fst (net_range (local_parts (req s)) (parts (req s)) p)"
    "e = snd (net_range (local_parts (req s)) (parts (req s)) p)"
    "t = net_threshold (local_parts (req s)) (parts (req s))" "i < e"
proof -
  note D = invD [OF I]
  have ok: "setup_ok (req s)" "aligned (local_parts (req s)) (parts (req s))" using D(2) bg by (auto simp: phase_ok_def)
  have pb: "0 \<le> p" "p < local_parts (req s)" using marked_bounds [OF p] setup_okD(10) [OF ok(1)] by auto
  show "i = fst (net_range (local_parts (req s)) (parts (req s)) p)"
    "e = snd (net_range (local_parts (req s)) (parts (req s)) p)"
    "t = net_threshold (local_parts (req s)) (parts (req s))"
    using send_range_eq [OF ok(2) pb] r by auto
  then show "i < e" using net.rng_in [OF ok(2) pb] by simp
qed

theorem inv_step:
  assumes "step M s s'" "inv M h0 s" "mpi_succeeds M" "fresh_handles M"
  shows "inv M h0 s'"
  using assms(1)
proof cases
  case (mark u p st)
  then show ?thesis using inv_mark [OF assms(2)] by simp
next
  case (delay u p)
  then show ?thesis using assms(2) by (auto intro!: inv_move simp: actor_ok_def)
next
  case (go u p i e t)
  have A: "actor_ok s (User u)" "base_ok s" using invD [OF assms(2)] by auto
  then have "p \<in> marked (req s)" "\<forall>i. (False, p, i) \<notin> counted s" "pcs s Background = Done"
    using go by (auto simp: actor_ok_def base_ok_def)
  with send_range_in_loop [OF assms(2) _ _ go(5)] show ?thesis
    unfolding go(1) using go(2) by (intro inv_move [OF assms(2)]) (auto simp: actor_ok_def in_loop_def)
next
  case (count a p i e t v r w)
  then show ?thesis using inv_count [OF assms(2)] by simp
next
  case (fire a p i e t r h)
  then show ?thesis using inv_fire [OF assms(2)] by simp
next
  case (sent a p i e t)
  have A: "actor_ok s a" using invD [OF assms(2)] by auto
  have "p \<in> marked (req s)" using sendingD [OF assms(2) sent(2)] by simp
  then have "0 \<le> p" by (auto dest: marked_bounds)
  with A sent(2) show ?thesis
    unfolding sent(1) by (intro inv_move [OF assms(2)]; cases a) (auto simp: actor_ok_def in_loop_def less_le_trans)
next
  case (sync r h)
  then show ?thesis using inv_sync [OF assms(2) _ _ assms(3,4)] by simp
next
  case acquire
  have A: "actor_ok s Background" "base_ok s" using invD [OF assms(2)] by auto
  then have "counted s = {}" using acquire by (simp add: actor_ok_def)
  with A acquire show ?thesis
    unfolding acquire(1) by (intro inv_move [OF assms(2)]) (auto simp: actor_ok_def base_ok_def)
next
  case (skip p)
  have A: "actor_ok s Background" using invD [OF assms(2)] by auto
  with skip show ?thesis
    unfolding skip(1) by (intro inv_move [OF assms(2)]) (fastforce simp: actor_ok_def)+
next
  case (send p i e t)
  have A: "actor_ok s Background" using invD [OF assms(2)] by auto
  have "p \<in> marked (req s)" using send(4) by (simp add: marked_def)
  with A send send_range_in_loop [OF assms(2) _ _ send(5)] show ?thesis
    unfolding send(1) by (intro inv_move [OF assms(2)]) (fastforce simp: actor_ok_def in_loop_def)+
next
  case (finish p)
  then show ?thesis using inv_finish [OF assms(2)] by simp
qed

end
