(* ===== verification/Interleaving.thy ===== *)
theory Interleaving
  imports Concurrency
begin

text \<open>
  What every interleaving of a round guarantees: no message is started twice; once every actor
  is done, each message with all its partitions marked has been started; and the system never
  gets stuck before that. Data is safe when the setup was over before the round, or when there
  are at least as many messages as partitions.
\<close>

section \<open>Starts\<close>

definition firing :: "conf \<Rightarrow> int \<Rightarrow> actor set" where
  "firing s i = {a. \<exists>p e t. pcs s a = Firing p i e t}"

text \<open>
  Below the threshold nobody starts the message; from then on it has been started once, or
  exactly one actor is about to.
\<close>

definition message_ok :: "int \<Rightarrow> int \<Rightarrow> actor set \<Rightarrow> nat \<Rightarrow> nat \<Rightarrow> bool" where
  "message_ok thr c F k0 k \<longleftrightarrow>
     (if c < thr then F = {} \<and> k = k0 else (F = {} \<and> k = Suc k0) \<or> ((\<exists>a. F = {a}) \<and> k = k0))"

definition fires_ok :: "hist \<Rightarrow> conf \<Rightarrow> bool" where
  "fires_ok h0 s \<longleftrightarrow> (pcs s Background \<noteq> Setup \<longrightarrow>
     (\<forall>i. 0 \<le> i \<and> i < parts (req s) \<longrightarrow>
       message_ok (net_threshold (local_parts (req s)) (parts (req s))) (int (count_of s i)) (firing s i)
         (starts h0 (handles (req s) ! nat i)) (starts (log s) (handles (req s) ! nat i))))"

lemma message_ok_simps:
  "c < thr \<Longrightarrow> message_ok thr c F k0 k \<longleftrightarrow> F = {} \<and> k = k0"
  "thr \<le> c \<Longrightarrow> message_ok thr c F k0 k \<longleftrightarrow> (F = {} \<and> k = Suc k0) \<or> ((\<exists>a. F = {a}) \<and> k = k0)"
  by (simp_all add: message_ok_def)

text \<open>A step between program points other than \<open>Firing\<close> keeps it.\<close>

lemma fires_ok_frame:
  assumes "fires_ok h0 s" "firing s' = firing s" "counted s' = counted s" "log s' = log s"
    and "same_messages (req s) (req s')" "pcs s' Background = Setup \<longleftrightarrow> pcs s Background = Setup"
  shows "fires_ok h0 s'"
proof -
  have "count_of s' = count_of s" using assms(3) by (auto simp: count_of_def)
  with assms show ?thesis by (simp add: fires_ok_def same_messages_def)
qed

lemma firing_goto:
  assumes "\<And>p i e t. pcs s a \<noteq> Firing p i e t" "\<And>p i e t. c \<noteq> Firing p i e t"
  shows "firing (goto a c s) = firing s"
  using assms by (auto simp: firing_def fun_eq_iff)

lemma fires_move:
  assumes "fires_ok h0 s" "\<And>p i e t. pcs s a \<noteq> Firing p i e t" "\<And>p i e t. c \<noteq> Firing p i e t"
    and "same_messages (req s) (req s')" "pcs s' = (pcs s)(a := c)" "counted s' = counted s" "log s' = log s"
    and "pcs s a \<noteq> Setup" "c \<noteq> Setup"
  shows "fires_ok h0 s'"
proof (rule fires_ok_frame [OF assms(1)])
  have "firing s' = firing (goto a c s)" by (rule ext) (simp add: firing_def assms(5))
  then show "firing s' = firing s" using firing_goto [OF assms(2,3)] by simp
  show "pcs s' Background = Setup \<longleftrightarrow> pcs s Background = Setup" using assms(5,8,9) by auto
qed (use assms in auto)

lemma firing_update [simp]: "firing (s\<lparr>req := r\<rparr>) = firing s" "firing (s\<lparr>log := h\<rparr>) = firing s"
  "firing (s\<lparr>counted := C\<rparr>) = firing s"
  by (auto simp: firing_def)

lemma fires_count:
  assumes I: "inv M h0 s" and F: "fires_ok h0 s" and a: "pcs s a = Sending p i e t" "i < e"
    and f: "fetch_add i (req s) = Inr (v, r)" "c_add v 1 = Inr w"
  shows "fires_ok h0 (goto a (if w = t then Firing p i e t else Sending p (i + 1) e t)
      (s\<lparr>req := r, counted := insert (a = Background, p, i) (counted s)\<rparr>))" (is "fires_ok h0 ?s")
proof -
  note S = sendingD [OF I a(1)]
  have C: "w = int (count_of s i) + 1" "\<And>j. count_of ?s j = count_of s j + (if j = i then 1 else 0)"
    "same_messages (req s) r" using inv_count [OF I a f] by auto
  have fi: "firing ?s j = (if j = i \<and> w = t then insert a (firing s j) else firing s j)" for j
    using a(1) by (auto simp: firing_def)
  have bg: "pcs ?s Background \<noteq> Setup" using S(5) by simp
  have "message_ok (net_threshold (local_parts (req ?s)) (parts (req ?s))) (int (count_of ?s j)) (firing ?s j)
         (starts h0 (handles (req ?s) ! nat j)) (starts (log ?s) (handles (req ?s) ! nat j))"
    if j: "0 \<le> j" "j < parts (req ?s)" for j
  proof -
    have j': "j < parts (req s)" using j C(3) by (simp add: same_messages_def)
    have O: "message_ok (net_threshold (local_parts (req s)) (parts (req s))) (int (count_of s j)) (firing s j)
         (starts h0 (handles (req s) ! nat j)) (starts (log s) (handles (req s) ! nat j))"
      using F S(5) j(1) j' by (simp add: fires_ok_def)
    let ?thr = "net_threshold (local_parts (req s)) (parts (req s))" and ?x = "handles (req s) ! nat j"
    have "message_ok ?thr (int (count_of ?s j)) (firing ?s j) (starts h0 ?x) (starts (log s) ?x)"
    proof (cases "j = i")
      case False
      then show ?thesis using O fi [of j] C(2) [of j] by simp
    next
      case True
      consider "w < t" | "w = t" | "t < w" by linarith
      then show ?thesis
        using O fi [of j] C(1,2) S(8) True by cases (auto simp: message_ok_simps)
    qed
    with C(3) show ?thesis by (simp add: same_messages_def)
  qed
  with bg show ?thesis unfolding fires_ok_def by blast
qed

lemma fires_fire:
  assumes I: "inv M h0 s" and F: "fires_ok h0 s" and a: "pcs s a = Firing p i e t"
    and f: "start_message M i (req s, log s) = Inr (r, h)"
  shows "fires_ok h0 (goto a (Sending p (i + 1) e t) (s\<lparr>req := r, log := h\<rparr>))" (is "fires_ok h0 ?s")
proof -
  note D = invD [OF I]
  have il: "in_loop s a p i e t" "i < e" using D(5) [of a] a by (simp_all add: actor_ok_def)
  have bg: "pcs s Background \<noteq> Setup" using il a by (cases "a = Background") (auto simp: in_loop_def)
  with D(2) have ok: "setup_ok (req s)" "aligned (local_parts (req s)) (parts (req s))" by (auto simp: phase_ok_def)
  have "0 \<le> p" "p < local_parts (req s)"
    using il marked_bounds [of p "req s"] setup_okD(10) [OF ok(1)] by (auto simp: in_loop_def)
  then have i: "0 \<le> i" "i < parts (req s)" using net.rng_in [OF ok(2)] il by (fastforce simp: in_loop_def)+
  have r: "r = req s" "h = CStart (handles (req s) ! nat i) # log s" using inv_fire [OF I a f] i by auto
  have fi: "firing ?s j = firing s j - (if j = i then {a} else {})" for j
    using a by (auto simp: firing_def)
  have am: "a \<in> firing s i" using a by (auto simp: firing_def)
  have cnt: "count_of ?s j = count_of s j" for j by (simp add: count_of_def)
  have hd: "handles (req s) ! nat j = handles (req s) ! nat i \<longleftrightarrow> j = i" if "0 \<le> j" "j < parts (req s)" for j
    using nth_eq_iff_index_eq [OF setup_okD(7) [OF ok(1)], of "nat j" "nat i"] that i setup_okD(6) [OF ok(1)]
    by (auto simp: nat_less_iff nat_eq_iff)
  have "message_ok (net_threshold (local_parts (req ?s)) (parts (req ?s))) (int (count_of ?s j)) (firing ?s j)
         (starts h0 (handles (req ?s) ! nat j)) (starts (log ?s) (handles (req ?s) ! nat j))"
    if j: "0 \<le> j" "j < parts (req ?s)" for j
  proof -
    have j': "j < parts (req s)" using j r by simp
    have O: "message_ok (net_threshold (local_parts (req s)) (parts (req s))) (int (count_of s j)) (firing s j)
         (starts h0 (handles (req s) ! nat j)) (starts (log s) (handles (req s) ! nat j))"
      using F bg j(1) j' by (simp add: fires_ok_def)
    show ?thesis
    proof (cases "j = i")
      case True
      with am O have "\<not> int (count_of s j) < net_threshold (local_parts (req s)) (parts (req s))"
        by (auto simp: message_ok_simps)
      with O am True show ?thesis using fi [of j] cnt r by (auto simp: message_ok_simps)
    next
      case False
      with O fi [of j] cnt r hd [OF j(1) j'] show ?thesis by simp
    qed
  qed
  with bg show ?thesis unfolding fires_ok_def by auto
qed

lemma fires_sync:
  assumes I: "inv M h0 s" and c: "pcs s Background = Setup"
    and f: "bindE (sync_side M (not_side (side (req s))) (req s, log s)) (internal_setup M) = Inr (r, h)"
    and M: "mpi_succeeds M" "fresh_handles M"
  shows "fires_ok h0 (goto Background Locking (s\<lparr>req := r, log := h\<rparr>))" (is "fires_ok h0 ?s")
proof -
  have J: "inv M h0 ?s" "\<And>x. starts h x = starts h0 x" using inv_sync [OF I c f M] by auto
  have "counted s = {}" using invD(5) [OF I, of Background] c by (simp add: actor_ok_def)
  then have cnt: "count_of ?s i = 0" for i by (simp add: count_of_def)
  have "firing ?s i = {}" for i
  proof -
    have "pcs ?s a \<noteq> Firing p i e t" for a p e t
      using invD(5) [OF J(1), of a] by (cases "a = Background") (auto simp: actor_ok_def in_loop_def)
    then show ?thesis by (auto simp: firing_def)
  qed
  moreover have "aligned (local_parts r) (parts r)" using invD(2) [OF J(1)] by (simp add: phase_ok_def)
  ultimately show ?thesis
    using cnt J(2) net.thr_pos by (simp add: fires_ok_def message_ok_simps)
qed

theorem fires_step:
  assumes "step M s s'" "inv M h0 s" "fires_ok h0 s" "mpi_succeeds M" "fresh_handles M"
  shows "fires_ok h0 s'"
  using assms(1)
proof cases
  case (count a p i e t v r w)
  then show ?thesis using fires_count [OF assms(2,3)] by simp
next
  case (fire a p i e t r h)
  then show ?thesis using fires_fire [OF assms(2,3)] by simp
next
  case (sync r h)
  then show ?thesis using fires_sync [OF assms(2) _ _ assms(4,5)] by simp
next
  case (mark u p st)
  then show ?thesis by (intro fires_move [OF assms(3), of "User u" "Marked p"]) (auto simp: same_messages_def)
next
  case (delay u p)
  then show ?thesis by (intro fires_move [OF assms(3), of "User u" Idle]) auto
next
  case (go u p i e t)
  then show ?thesis by (intro fires_move [OF assms(3), of "User u" "Sending p i e t"]) auto
next
  case (sent a p i e t)
  then show ?thesis by (intro fires_move [OF assms(3), of a "after_send a p"]; cases a) auto
next
  case acquire
  then show ?thesis
    by (intro fires_move [OF assms(3), of Background "Scan (if state (req s) = ACTIVE then 0 else local_parts (req s))"]) auto
next
  case (skip p)
  then show ?thesis by (intro fires_move [OF assms(3), of Background "Scan (p + 1)"]) auto
next
  case (send p i e t)
  then show ?thesis by (intro fires_move [OF assms(3), of Background "Sending p i e t"]) auto
next
  case (finish p)
  then show ?thesis by (intro fires_move [OF assms(3), of Background Done]) (auto simp: same_messages_def)
qed

section \<open>Nothing marked is forgotten\<close>

text \<open>An actor that is there will still count partition \<open>p\<close> into message \<open>i\<close>.\<close>

fun works :: "actor \<Rightarrow> pc \<Rightarrow> int \<Rightarrow> int \<Rightarrow> bool" where
  "works a (Marked q) p i \<longleftrightarrow> q = p"
| "works a (Sending q j e t) p i \<longleftrightarrow> (q = p \<and> j \<le> i) \<or> (a = Background \<and> q < p)"
| "works a (Firing q j e t) p i \<longleftrightarrow> (q = p \<and> j < i) \<or> (a = Background \<and> q < p)"
| "works a Setup p i \<longleftrightarrow> True"
| "works a Locking p i \<longleftrightarrow> True"
| "works a (Scan q) p i \<longleftrightarrow> q \<le> p"
| "works a c p i \<longleftrightarrow> False"

definition handled :: "conf \<Rightarrow> int \<Rightarrow> int \<Rightarrow> bool" where
  "handled s p i \<longleftrightarrow> (\<exists>b. (b, p, i) \<in> counted s) \<or> (\<exists>a. works a (pcs s a) p i)"

definition complete_ok :: "conf \<Rightarrow> bool" where
  "complete_ok s \<longleftrightarrow> (\<forall>p\<in>marked (req s). \<forall>i.
     p \<in> deps (local_parts (req s)) (parts (req s)) i \<longrightarrow> handled s p i)"

text \<open>An actor that moves only has to account for what it was responsible for itself.\<close>

lemma handled_goto:
  assumes "handled s p i" "counted s \<subseteq> counted s'" "pcs s' = (pcs s)(a := c)"
    and "works a (pcs s a) p i \<Longrightarrow> handled s' p i"
  shows "handled s' p i"
proof (cases "works a (pcs s a) p i")
  case False
  with assms(1) consider b where "(b, p, i) \<in> counted s" | b where "b \<noteq> a" "works b (pcs s b) p i"
    unfolding handled_def by metis
  then show ?thesis
  proof cases
    case 1 then show ?thesis using assms(2) unfolding handled_def by blast
  next
    case 2 then show ?thesis using assms(3) unfolding handled_def by (intro disjI2 exI [of _ b]) simp
  qed
qed (rule assms(4))

lemma handled_move: "works a c p i \<Longrightarrow> pcs s' a = c \<Longrightarrow> handled s' p i"
  unfolding handled_def by blast

lemma complete_move:
  assumes "complete_ok s" "counted s \<subseteq> counted s'" "pcs s' = (pcs s)(a := c)"
    and "marked (req s') = marked (req s)" "same_messages (req s) (req s')"
    and "\<And>p i. p \<in> marked (req s) \<Longrightarrow> p \<in> deps (local_parts (req s)) (parts (req s)) i \<Longrightarrow>
          works a (pcs s a) p i \<Longrightarrow> handled s' p i"
  shows "complete_ok s'"
  unfolding complete_ok_def
proof (intro ballI allI impI)
  fix p i assume "p \<in> marked (req s')" "p \<in> deps (local_parts (req s')) (parts (req s')) i"
  then have p: "p \<in> marked (req s)" "p \<in> deps (local_parts (req s)) (parts (req s)) i"
    using assms(4,5) by (auto simp: same_messages_def)
  then have "handled s p i" using assms(1) by (simp add: complete_ok_def)
  from handled_goto [OF this assms(2,3) assms(6) [OF p]] show "handled s' p i" .
qed

lemma complete_step:
  assumes "step M s s'" "inv M h0 s" "complete_ok s"
  shows "complete_ok s'"
  using assms(1)
proof cases
  case (mark u p st)
  show ?thesis unfolding complete_ok_def
  proof (intro ballI allI impI)
    fix q i assume q: "q \<in> marked (req s')" "q \<in> deps (local_parts (req s')) (parts (req s')) i"
    show "handled s' q i"
    proof (cases "q = p")
      case True
      then show ?thesis using mark(1) by (intro handled_move [of "User u" "Marked p"]) auto
    next
      case False
      then have "q \<in> marked (req s)"
        using q(1) blk.get_put_other [OF mark(5), of q] mark(1) by (simp add: marked_def)
      then have "handled s q i" using q(2) assms(3) mark(1) by (simp add: complete_ok_def)
      from handled_goto [OF this, of s' "User u" "Marked p"] show ?thesis using mark by simp
    qed
  qed
next
  case (delay u p)
  have A: "base_ok s" "actor_ok s Background" using invD [OF assms(2)] by auto
  with delay have "pcs s Background = Setup \<or> pcs s Background = Locking"
    by (cases "pcs s Background") (auto simp: base_ok_def actor_ok_def locked_def)
  then have "handled s' q i" for q i
    using delay(1) by (intro handled_move [of Background "pcs s Background"]) auto
  then show ?thesis by (simp add: complete_ok_def)
next
  case (go u p i e t)
  have "actor_ok s (User u)" "base_ok s" using invD [OF assms(2)] by auto
  then have p: "p \<in> marked (req s)" "pcs s Background \<noteq> Setup"
    using go by (auto simp: actor_ok_def base_ok_def)
  show ?thesis
  proof (rule complete_move [OF assms(3), of s' "User u" "Sending p i e t"])
    fix q j assume q: "q \<in> deps (local_parts (req s)) (parts (req s)) j" "works (User u) (pcs s (User u)) q j"
    have "q = p \<Longrightarrow> i \<le> j"
      using q(1) send_range_in_loop(1) [OF assms(2) p(2,1) go(5)] by (auto simp: deps_def)
    then show "handled s' q j"
      using q(2) go(1,2) by (intro handled_move [of "User u" "Sending p i e t"]) auto
  qed (use go(1) in auto)
next
  case (count a p i e t v r w)
  have S: "same_messages (req s) r" "marked r = marked (req s)"
    using count(4) by (auto simp: fetch_add_def same_messages_def marked_def)
  show ?thesis
  proof (rule complete_move [OF assms(3), of s' a "if w = t then Firing p i e t else Sending p (i + 1) e t"])
    fix q j assume "works a (pcs s a) q j"
    then have "(q = p \<and> j = i) \<or> works a (if w = t then Firing p i e t else Sending p (i + 1) e t) q j"
      using count(2) by auto
    then consider "q = p" "j = i" | "works a (if w = t then Firing p i e t else Sending p (i + 1) e t) q j"
      by blast
    then show "handled s' q j"
    proof cases
      case 1 then show ?thesis using count(1) by (auto simp: handled_def)
    next
      case 2 then show ?thesis using count(1) by (intro handled_move [OF 2]) simp
    qed
  qed (use count(1) S in auto)
next
  case (fire a p i e t r h)
  have r: "r = req s" using fire(3) by (auto simp: start_message_def)
  show ?thesis
  proof (rule complete_move [OF assms(3), of s' a "Sending p (i + 1) e t"])
    fix q j assume "works a (pcs s a) q j"
    then show "handled s' q j" using fire(1,2) by (intro handled_move [of a "Sending p (i + 1) e t"]) auto
  qed (use fire(1) r in auto)
next
  case (sent a p i e t)
  note S = sendingD [OF assms(2) sent(2)]
  show ?thesis
  proof (rule complete_move [OF assms(3), of s' a "after_send a p"])
    fix q j assume q: "q \<in> deps (local_parts (req s)) (parts (req s)) j" "works a (pcs s a) q j"
    have "\<not> (q = p \<and> i \<le> j)" using q(1) S(9) sent(3) by (auto simp: deps_def)
    then show "handled s' q j"
      using q(2) sent(1,2) by (intro handled_move [of a "after_send a p"]; cases a) auto
  qed (use sent(1) in auto)
next
  case (sync r h)
  then have "handled s' q i" for q i by (intro handled_move [of Background Locking]) auto
  then show ?thesis by (simp add: complete_ok_def)
next
  case acquire
  have st: "state (req s) = ACTIVE" using invD(1) [OF assms(2)] by (simp add: base_ok_def)
  show ?thesis
  proof (rule complete_move [OF assms(3), of s' Background "Scan 0"])
    fix q j assume "q \<in> marked (req s)"
    then have "0 \<le> q" by (auto dest: marked_bounds)
    then show "handled s' q j" using acquire(1) st by (intro handled_move [of Background "Scan 0"]) auto
  qed (use acquire(1) st in auto)
next
  case (skip p)
  show ?thesis
  proof (rule complete_move [OF assms(3), of s' Background "Scan (p + 1)"])
    fix q j assume "q \<in> marked (req s)" "works Background (pcs s Background) q j"
    moreover have "p \<notin> marked (req s)" using skip(4) by (simp add: marked_def)
    ultimately have "p + 1 \<le> q" using skip(2) by (cases "q = p") auto
    then show "handled s' q j" using skip(1) by (intro handled_move [of Background "Scan (p + 1)"]) auto
  qed (use skip(1) in auto)
next
  case (send p i e t)
  have p: "p \<in> marked (req s)" using send(4) by (simp add: marked_def)
  show ?thesis
  proof (rule complete_move [OF assms(3), of s' Background "Sending p i e t"])
    fix q j assume q: "q \<in> deps (local_parts (req s)) (parts (req s)) j" "works Background (pcs s Background) q j"
    have "q = p \<Longrightarrow> i \<le> j"
      using q(1) send_range_in_loop(1) [OF assms(2) _ p send(5)] send(2) by (auto simp: deps_def)
    then show "handled s' q j"
      using q(2) send(1,2) by (intro handled_move [of Background "Sending p i e t"]) auto
  qed (use send(1) in auto)
next
  case (finish p)
  have len: "blk_len (local_status (req s)) = local_parts (req s)"
    using invD(2) [OF assms(2)] finish(2) by (simp add: phase_ok_def setup_okD(10))
  show ?thesis
  proof (rule complete_move [OF assms(3), of s' Background Done])
    fix q j assume "q \<in> marked (req s)" "works Background (pcs s Background) q j"
    then show "handled s' q j" using finish(2,3) marked_bounds [of q "req s"] len by auto
  qed (use finish(1) in \<open>auto simp: same_messages_def marked_def\<close>)
qed

section \<open>Reachable configurations\<close>

text \<open>
  The two ways a round begins. \<open>ready_sender\<close>: the setup is over and \<open>MPIP_Start\<close> has reset the
  request. \<open>waiting_sender\<close>: the request was started while the background thread had still to
  receive the partitioning; nothing is said about its ready flags, which \<open>prep\<close> only allocates and
  such a start does not reset.
\<close>

definition ready_sender :: "mpip \<Rightarrow> bool" where
  "ready_sender r \<longleftrightarrow> setup_ok r \<and> aligned (local_parts r) (parts r) \<and> 2 * local_parts r \<le> INT_MAX
     \<and> side r = SENDER \<and> state r = ACTIVE \<and> threaded r \<noteq> RUNNING \<and> flags_set r \<and> marked r = {}
     \<and> internal_status r = filled (replicate (nat (parts r)) 0)"

definition waiting_sender :: "mpi \<Rightarrow> hist \<Rightarrow> mpip \<Rightarrow> int \<Rightarrow> bool" where
  "waiting_sender M h r n \<longleftrightarrow> delayed r \<and> 2 * local_parts r \<le> INT_MAX
     \<and> aligned (local_parts r) n
     \<and> (\<exists>sz. fits M (the_meta r) n sz
          \<and> recv_data M h (partner (the_meta r)) sync_tag (comm (the_meta r)) = Some (n, sz))"

definition good :: "mpi \<Rightarrow> hist \<Rightarrow> conf \<Rightarrow> bool" where
  "good M h s \<longleftrightarrow> inv M h s \<and> fires_ok h s \<and> complete_ok s"

lemma good_ready:
  assumes "ready_sender r"
  shows "good M h (conf_of r h Done)"
proof -
  let ?s = "conf_of r h Done"
  have ok: "setup_ok r" "aligned (local_parts r) (parts r)" "marked r = {}"
    "internal_status r = filled (replicate (nat (parts r)) 0)" using assms by (auto simp: ready_sender_def)
  have cnt: "count_of ?s i = 0" for i by (simp add: count_of_def conf_of_def)
  have "actor_ok ?s a" for a by (cases a) (simp_all add: actor_ok_def conf_of_def)
  then have "inv M h ?s" using assms ok cnt
    by (auto simp: inv_def base_ok_def phase_ok_def counts_ok_def unique_ok_def ready_sender_def conf_of_def nat_less_iff)
  moreover have "firing ?s i = {}" for i by (auto simp: firing_def conf_of_def split: actor.splits)
  then have "fires_ok h ?s" using cnt net.thr_pos [OF ok(2)]
    by (simp add: fires_ok_def message_ok_simps conf_of_def)
  moreover have "complete_ok ?s" using ok by (simp add: complete_ok_def conf_of_def)
  ultimately show ?thesis by (simp add: good_def)
qed

lemma good_waiting:
  assumes "waiting_sender M h r n" "flags_set r"
  shows "good M h (conf_of r h Setup)"
proof -
  let ?s = "conf_of r h Setup"
  have "actor_ok ?s a" for a by (cases a) (simp_all add: actor_ok_def conf_of_def)
  then have "inv M h ?s" using assms
    by (auto simp: inv_def base_ok_def phase_ok_def counts_ok_def unique_ok_def waiting_sender_def delayed_def held_def conf_of_def)
  moreover have "fires_ok h ?s" by (simp add: fires_ok_def conf_of_def)
  moreover have "handled ?s p i" for p i
    by (rule handled_move [of Background Setup]) (simp_all add: conf_of_def)
  then have "complete_ok ?s" by (simp add: complete_ok_def)
  ultimately show ?thesis by (simp add: good_def)
qed

lemma good_reaches:
  assumes "reaches M s s'" "good M h s" "mpi_succeeds M" "fresh_handles M"
  shows "good M h s'"
  using assms(1,2)
proof (induction rule: rtranclp_induct)
  case (step s1 s2)
  then show ?case
    using inv_step [of M s1 s2 h] fires_step [of M s1 s2 h] complete_step [of M s1 s2 h] assms(3,4)
    by (auto simp: good_def)
qed

lemma goodD:
  assumes "good M h s" "pcs s Background \<noteq> Setup"
  shows "setup_ok (req s)" "aligned (local_parts (req s)) (parts (req s))" "counts_ok s"
    "0 \<le> i \<Longrightarrow> i < parts (req s) \<Longrightarrow>
       message_ok (net_threshold (local_parts (req s)) (parts (req s))) (int (count_of s i)) (firing s i)
         (starts h (handles (req s) ! nat i)) (starts (log s) (handles (req s) ! nat i))"
  using assms by (auto simp: good_def inv_def phase_ok_def fires_ok_def)

text \<open>No message starts twice.\<close>

lemma good_once:
  "good M h s \<Longrightarrow> pcs s Background \<noteq> Setup \<Longrightarrow> 0 \<le> i \<Longrightarrow> i < parts (req s) \<Longrightarrow>
   starts (log s) (handles (req s) ! nat i) \<le> Suc (starts h (handles (req s) ! nat i))"
  using goodD(4) [of M h s i] by (auto simp: message_ok_def split: if_splits)

text \<open>What has been marked by the time everyone is done has been sent, exactly once.\<close>

lemma good_quiescent:
  assumes g: "good M h s" and q: "quiescent s" and i: "0 \<le> i" "i < parts (req s)"
    and d: "deps (local_parts (req s)) (parts (req s)) i \<subseteq> marked (req s)"
  shows "starts (log s) (handles (req s) ! nat i) = Suc (starts h (handles (req s) ! nat i))"
proof -
  have bg: "pcs s Background \<noteq> Setup" and act: "pcs s a = Idle \<or> pcs s a = Done" for a
    using q by (cases a; simp add: quiescent_def)+
  note G = goodD [OF g bg]
  let ?D = "deps (local_parts (req s)) (parts (req s)) i"
  have "\<exists>b. (b, p, i) \<in> counted s" if "p \<in> ?D" for p
  proof -
    have "handled s p i" using g that d by (auto simp: good_def complete_ok_def)
    moreover have "\<not> works a (pcs s a) p i" for a using act [of a] by auto
    ultimately show ?thesis by (simp add: handled_def)
  qed
  then have sub: "?D \<subseteq> snd ` {(b, p). (b, p, i) \<in> counted s}" by force
  have fin: "finite {(b, p). (b, p, i) \<in> counted s}" using G(3) by (rule finite_counts)
  have "card ?D \<le> card (snd ` {(b, p). (b, p, i) \<in> counted s})"
    using sub fin by (intro card_mono) auto
  also have "\<dots> \<le> count_of s i" unfolding count_of_def using fin by (rule card_image_le)
  finally have "net_threshold (local_parts (req s)) (parts (req s)) \<le> int (count_of s i)"
    using net.fan_in [OF G(2) i] by simp
  moreover have "firing s i = {}"
  proof -
    have "pcs s a \<noteq> Firing p j e t" for a p j e t using act [of a] by auto
    then show ?thesis by (simp add: firing_def)
  qed
  ultimately show ?thesis using G(4) [OF i] by (simp add: message_ok_simps)
qed

text \<open>What has been sent was complete, when each partition is counted by one actor only.\<close>

lemma started_reached:
  assumes g: "good M h s" and bg: "pcs s Background \<noteq> Setup" and i: "0 \<le> i" "i < parts (req s)"
    and st: "starts (log s) (handles (req s) ! nat i) \<noteq> starts h (handles (req s) ! nat i)"
  shows "net_threshold (local_parts (req s)) (parts (req s)) \<le> int (count_of s i)"
  using goodD(4) [OF g bg i] st by (auto simp: message_ok_def split: if_splits)

lemma good_safe_split:
  assumes g: "good M h s" and bg: "pcs s Background \<noteq> Setup" and i: "0 \<le> i" "i < parts (req s)"
    and st: "starts (log s) (handles (req s) ! nat i) \<noteq> starts h (handles (req s) ! nat i)"
    and le: "local_parts (req s) \<le> parts (req s)"
  shows "deps (local_parts (req s)) (parts (req s)) i \<subseteq> marked (req s)"
proof -
  note G = goodD [OF g bg]
  let ?D = "deps (local_parts (req s)) (parts (req s)) i"
  have "1 \<le> count_of s i" using started_reached [OF g bg i st] le by (simp add: net_threshold_def)
  then have "card {(b, p). (b, p, i) \<in> counted s} \<noteq> 0" by (simp add: count_of_def)
  then have "{(b, p). (b, p, i) \<in> counted s} \<noteq> {}" by (metis card.empty)
  then obtain b p where "(b, p, i) \<in> counted s" by auto
  then have p: "p \<in> marked (req s)" "p \<in> ?D" using G(3) by (auto simp: counts_ok_def)
  have "card ?D = 1" using net.fan_in [OF G(2) i] le by (simp add: net_threshold_def)
  with p show ?thesis by (auto simp: card_1_singleton_iff)
qed

lemma good_safe_one:
  assumes g: "good M h s" and bg: "pcs s Background \<noteq> Setup" and i: "0 \<le> i" "i < parts (req s)"
    and st: "starts (log s) (handles (req s) ! nat i) \<noteq> starts h (handles (req s) ! nat i)"
    and u: "\<And>p. (\<not> b, p, i) \<notin> counted s"
  shows "deps (local_parts (req s)) (parts (req s)) i \<subseteq> marked (req s)"
proof -
  note G = goodD [OF g bg]
  let ?D = "deps (local_parts (req s)) (parts (req s)) i" and ?U = "{p. (b, p, i) \<in> counted s}"
  have "{(c, p). (c, p, i) \<in> counted s} = Pair b ` ?U"
  proof (rule set_eqI)
    fix x :: "bool \<times> int"
    obtain c p where "x = (c, p)" by fastforce
    then show "x \<in> {(c, p). (c, p, i) \<in> counted s} \<longleftrightarrow> x \<in> Pair b ` ?U"
      using u [of p] by (cases "c = b") (auto simp: image_iff)
  qed
  then have "count_of s i = card ?U" unfolding count_of_def by (simp add: card_image inj_on_def)
  then have "card ?D \<le> card ?U" using started_reached [OF g bg i st] net.fan_in [OF G(2) i] by simp
  moreover have sub: "?U \<subseteq> ?D" "?U \<subseteq> marked (req s)" using G(3) by (auto simp: counts_ok_def)
  ultimately have "?U = ?D" using card_seteq [of ?D ?U] net.finite_dep by blast
  with sub show ?thesis by simp
qed

lemmas good_safe_users = good_safe_one [where b = False, simplified]

text \<open>A background thread that is done stays so, and counts nothing any more.\<close>

lemma reaches_users_only:
  assumes "reaches M s s'" "pcs s Background = Done" "\<forall>p i. (True, p, i) \<notin> counted s"
  shows "pcs s' Background = Done \<and> (\<forall>p i. (True, p, i) \<notin> counted s')"
  using assms
  by (induction rule: rtranclp_induct) (auto elim!: stepE)

end
