(* ===== verification/Races.thy ===== *)
theory Races
  imports Interleaving
begin

text \<open>
  The system of \<open>Concurrency\<close> never gets stuck before every actor is done; the schedule in which
  the background thread and \<open>MPIP_Pready\<close> both count the same partition; and what becomes of a
  request whose background thread finishes before the init function stores \<open>RUNNING\<close>.
\<close>

section \<open>No interleaving gets stuck\<close>

lemma sending_steps:
  assumes I: "inv M h s" and a: "pcs s a = Sending p i e t"
  shows "\<exists>s'. step M s s' \<and> pcs s' a \<noteq> pcs s a"
proof (cases "i < e")
  case True
  note S = sendingD [OF I a] and D = invD [OF I]
  have ok: "setup_ok (req s)" using D(2) S(5) by (simp add: phase_ok_def)
  have c: "counters (req s) ! nat i = int (count_of s i)" using D(3) S True by (simp add: counts_ok_def)
  note b = count_of_bound [OF I S(5), of i]
  have "\<exists>r. fetch_add i (req s) = Inr (int (count_of s i), r)"
    using fetch_add_eq [OF ok S(2)] S(4) True c b by simp
  moreover have "c_add (int (count_of s i)) 1 = Inr (int (count_of s i) + 1)"
    using b by (simp add: c_add_def)
  ultimately obtain r w where "fetch_add i (req s) = Inr (int (count_of s i), r)" "c_add (int (count_of s i)) 1 = Inr w" by blast
  from conjI [OF step.count [OF a True this]] show ?thesis by (rule exI) (simp add: a)
next
  case False
  from conjI [OF step.sent [OF a this]] show ?thesis by (rule exI) (use a in \<open>cases a; simp\<close>)
qed

lemma firing_steps:
  assumes I: "inv M h s" and a: "pcs s a = Firing p i e t" and M: "mpi_succeeds M"
  shows "\<exists>s'. step M s s' \<and> pcs s' a \<noteq> pcs s a"
proof -
  note D = invD [OF I]
  have il: "in_loop s a p i e t" "i < e" using D(5) [of a] a by (simp_all add: actor_ok_def)
  have bg: "pcs s Background \<noteq> Setup" using il a by (cases "a = Background") (auto simp: in_loop_def)
  with D(2) have ok: "setup_ok (req s)" "aligned (local_parts (req s)) (parts (req s))" by (auto simp: phase_ok_def)
  have "0 \<le> p" "p < local_parts (req s)"
    using il marked_bounds [of p "req s"] setup_okD(10) [OF ok(1)] by (auto simp: in_loop_def)
  then have i: "0 \<le> i" "i < parts (req s)" using net.rng_in [OF ok(2)] il by (fastforce simp: in_loop_def)+
  obtain hs where "request (req s) = filled hs" "int (length hs) = parts (req s)"
    using setup_okD(5,6) [OF ok(1)] by auto
  with i M have "start_message M i (req s, log s) = Inr (req s, CStart (hs ! nat i) # log s)"
    by (simp add: start_message_def)
  from conjI [OF step.fire [OF a this]] show ?thesis by (rule exI) (simp add: a)
qed

lemma background_steps:
  assumes g: "good M h s" and c: "pcs s Background \<noteq> Done" and M: "mpi_succeeds M" "fresh_handles M"
  shows "\<exists>s'. step M s s' \<and> pcs s' Background \<noteq> pcs s Background"
proof -
  have I: "inv M h s" using g by (simp add: good_def)
  note D = invD [OF I]
  have fl: "flags_set (req s)" "state (req s) = ACTIVE" "side (req s) = SENDER" using D(1) by (auto simp: base_ok_def)
  show ?thesis
  proof (cases "pcs s Background")
    case Setup
    then obtain n sz where q: "prepared (req s)" "fits M (the_meta (req s)) n sz"
      "recv_data M (log s) (partner (the_meta (req s))) sync_tag (comm (the_meta (req s))) = Some (n, sz)"
      using D(2) by (auto simp: phase_ok_def)
    from thread_setup_eq [OF q(1,2) M q(3)] step.sync [OF Setup] Setup show ?thesis by fastforce
  next
    case Locking
    then show ?thesis using step.acquire fl(3) by fastforce
  next
    case (Scan p)
    have p: "0 \<le> p" using D(5) [of Background] Scan by (simp add: actor_ok_def)
    have ok: "aligned (local_parts (req s)) (parts (req s))" using D(2) Scan by (simp add: phase_ok_def)
    show ?thesis
    proof (cases "p < local_parts (req s)")
      case True
      note get = flags_setD [OF fl(1) p True]
      show ?thesis
      proof (cases "p \<in> marked (req s)")
        case in_set: True
        then show ?thesis using step.send [OF Scan True] get send_range_eq [OF ok p True] Scan by fastforce
      next
        case False
        then show ?thesis using step.skip [OF Scan True] get Scan by fastforce
      qed
    qed (use step.finish [OF Scan] Scan in fastforce)
  next
    case (Sending p i e t)
    then show ?thesis using sending_steps [OF I Sending] by simp
  next
    case (Firing p i e t)
    then show ?thesis using firing_steps [OF I Firing M(1)] by simp
  qed (use D(5) [of Background] c in \<open>auto simp: actor_ok_def\<close>)
qed

text \<open>Every actor that is not through can make its next step, unless it waits for the lock.\<close>

lemma actor_moves:
  assumes g: "good M h s" and a: "pcs s a \<noteq> Idle" "pcs s a \<noteq> Done" and M: "mpi_succeeds M" "fresh_handles M"
  shows "(\<exists>s'. step M s s' \<and> pcs s' a \<noteq> pcs s a) \<or> (a \<noteq> Background \<and> locked s)"
proof (cases a)
  case Background
  then show ?thesis using background_steps [OF g _ M] a(2) by simp
next
  case u: (User u)
  have I: "inv M h s" using g by (simp add: good_def)
  note D = invD [OF I]
  show ?thesis
  proof (cases "pcs s a")
    case (Marked p)
    have mk: "p \<in> marked (req s)" using D(5) [of a] Marked by (simp add: actor_ok_def)
    consider "locked s" | "\<not> locked s" "threaded (req s) = RUNNING" | "\<not> locked s" "threaded (req s) \<noteq> RUNNING" by blast
    then show ?thesis
    proof cases
      case 2
      with step.delay [of s u p M] Marked u show ?thesis by fastforce
    next
      case 3
      then have "pcs s Background = Done" using D(1) by (simp add: base_ok_def)
      then have ok: "setup_ok (req s)" "aligned (local_parts (req s)) (parts (req s))" using D(2) by (auto simp: phase_ok_def)
      have "0 \<le> p" "p < local_parts (req s)" using mk marked_bounds setup_okD(10) [OF ok(1)] by fastforce+
      from send_range_eq [OF ok(2) this] step.go [of s u p] 3 Marked u show ?thesis by fastforce
    qed (use u in simp)
  next
    case (Sending p i e t)
    then show ?thesis using sending_steps [OF I Sending] by simp
  next
    case (Firing p i e t)
    then show ?thesis using firing_steps [OF I Firing M(1)] by simp
  qed (use D(5) [of a] u a in \<open>auto simp: actor_ok_def\<close>)
qed

lemma good_progress:
  assumes g: "good M h s" and q: "\<not> quiescent s" and M: "mpi_succeeds M" "fresh_handles M"
  shows "\<exists>s'. step M s s'"
proof (cases "pcs s Background = Done")
  case True
  then obtain u where u: "pcs s (User u) \<noteq> Idle" using q by (auto simp: quiescent_def)
  have "inv M h s" using g by (simp add: good_def)
  then have "pcs s (User u) \<noteq> Done" using invD(5) [of M h s "User u"] by (auto simp: actor_ok_def)
  moreover have "\<not> locked s" using True by (simp add: locked_def)
  ultimately show ?thesis using actor_moves [OF g u _ M] by blast
qed (use background_steps [OF g _ M] in blast)

section \<open>A thread that finishes too early\<close>

text \<open>
  The background thread runs to its end between its creation and the store of \<open>RUNNING\<close>: the
  request keeps the status \<open>RUNNING\<close> although no thread is left to change it.
\<close>

definition finished_first :: "mpi \<Rightarrow> mpip \<times> hist \<Rightarrow> (mpip \<times> hist) res" where
  "finished_first M = (\<lambda>(r, h).
     bindE (run_thread M (pthread_create r, h)) (\<lambda>(r, h). Inr (set_running r, h)))"

text \<open>Such a request, active or not.\<close>

definition orphaned :: "mpip \<Rightarrow> bool" where
  "orphaned r \<longleftrightarrow> setup_ok r \<and> threaded r = RUNNING \<and> sync_thread r = Exited"

lemma finished_first_orphaned:
  assumes r: "prepared r" "state r = INACTIVE" and ft: "fits M (the_meta r) n sz"
    and M: "mpi_succeeds M" "fresh_handles M"
    and d: "recv_data M h (partner (the_meta r)) sync_tag (comm (the_meta r)) = Some (n, sz)"
  shows "\<exists>r' h'. finished_first M (r, h) = Inr (r', h') \<and> orphaned r' \<and> side r' = side r
      \<and> parts r' = n \<and> local_parts r' = local_parts r \<and> (\<forall>x. starts h' x = starts h x)
      \<and> set (handles r') \<inter> issued h = {} \<and> (\<forall>x\<in>set (handles r'). active h' x = active h x)"
proof -
  let ?r = "pthread_create r"
  have p: "prepared ?r" "the_meta ?r = the_meta r" "side ?r = side r" "state ?r = INACTIVE"
    using r by (simp_all add: pthread_create_def prepared_def)
  obtain xs where xs: "threaded_sync_driver M (?r, h)
        = thread_catch_up M (with_messages n sz xs ?r, thread_setup_log M ?r n sz xs h)"
    "setup_ok (with_messages n sz xs ?r)" "int (length xs) = n"
    "set xs \<inter> issued h = {}"
    using threaded_sync_driver_eq [OF p(1) _ M, of n sz h] p ft d by auto
  let ?q = "with_messages n sz xs ?r"
  have cu: "thread_catch_up M (?q, thread_setup_log M ?r n sz xs h)
      = Inr (?q\<lparr>threaded := FINISHED\<rparr>, thread_setup_log M ?r n sz xs h)"
    using setup_okD(11) [OF xs(2)] p(4) by (intro thread_catch_up_inactive) (simp_all add: with_messages_def)
  have "sync_thread ?r = Spawned" by (simp add: pthread_create_def)
  with xs(1) cu have "finished_first M (r, h)
      = Inr (?q\<lparr>threaded := RUNNING, sync_thread := Exited\<rparr>, thread_setup_log M ?r n sz xs h)"
    by (simp add: finished_first_def run_thread_def set_running_def)
  moreover have "active (thread_setup_log M ?r n sz xs h) x = active h x" for x
    by (rule active_thread_setup_log)
  ultimately show ?thesis using xs p
    by (simp add: orphaned_def setup_ok_def with_messages_def pthread_create_def)
qed

text \<open>
  A whole round of it sends nothing: \<open>MPIP_Start\<close> and \<open>MPIP_Pready\<close> leave everything to a thread
  that is gone, and \<open>MPIP_Wait\<close> joins it and waits for messages nobody started.
\<close>

lemma orphaned_wait:
  assumes "orphaned r" "mpi_succeeds M" "waitall_ret M h (handles r)"
  shows "MPIP_Wait M (r, h) = Inr (MPI_SUCCESS, r\<lparr>state := INACTIVE\<rparr>, CWaitall (handles r) # h)"
  using assms setup_okD(11) [of r]
  by (simp add: orphaned_def MPIP_Wait_def pthread_join_def handles_slice MPI_Waitall_def)

lemma orphaned_sender_round:
  assumes o: "orphaned r" "side r = SENDER" and ps: "set ps \<subseteq> {0..<local_parts r}"
    and M: "mpi_succeeds M" "inactive_waits_return M" and h: "\<forall>x\<in>set (handles r). \<not> active h x"
  shows "\<exists>r'. bindE (MPIP_Start M (r, h)) (\<lambda>(_, t).
      bindE (MPIP_Pready_list M (int (length ps)) ps t) (\<lambda>(_, t). MPIP_Wait M t))
      = Inr (MPI_SUCCESS, r', CWaitall (handles r) # h) \<and> orphaned r' \<and> state r' = INACTIVE"
proof -
  let ?r = "r\<lparr>state := ACTIVE\<rparr>"
  have ok: "setup_ok r" "threaded r = RUNNING" using o by (auto simp: orphaned_def)
  have start: "MPIP_Start M (r, h) = Inr (MPI_SUCCESS, ?r, h)"
    using ok setup_okD(11) by (intro MPIP_Start_running) auto
  have "held ?r" using setup_ok_prepared [OF ok(1)] ok o(2) by (simp add: held_def prepared_def)
  then obtain st where st: "MPIP_Pready_list M (int (length ps)) ps (?r, h)
      = Inr (MPI_SUCCESS, ?r\<lparr>local_status := st\<rparr>, h)" "held (?r\<lparr>local_status := st\<rparr>)"
    using pready_list_held [of ?r ps M h] ps by auto
  let ?q = "?r\<lparr>local_status := st\<rparr>"
  have "orphaned ?q" using o st(2) by (simp add: orphaned_def setup_ok_def held_def prepared_def)
  moreover from this have "MPIP_Wait M (?q, h) = Inr (MPI_SUCCESS, ?q\<lparr>state := INACTIVE\<rparr>, CWaitall (handles r) # h)"
    using orphaned_wait [of ?q M h] M h by (simp add: inactive_waits_return_def)
  ultimately show ?thesis using start st(1) by (simp add: orphaned_def setup_ok_def)
qed

lemma orphaned_receiver:
  assumes o: "orphaned r" "side r = RECEIVER"
  shows "MPIP_Start M (r, h) = Inr (MPI_SUCCESS, r\<lparr>state := ACTIVE\<rparr>, h)"
    "MPIP_Parrived M p (r, h) = Inr (0, r, h)"
  using o setup_okD(11) [of r] by (simp_all add: orphaned_def MPIP_Start_running MPIP_Parrived_def)

end
