(* ===== verification/Examples.thy ===== *)
theory Examples
  imports Races
begin

text \<open>
  Concrete requests, at which the properties are applied, and one schedule executed step by
  step: the background thread and a late \<open>MPIP_Pready\<close> both count the same partition.
\<close>

definition demo_meta :: meta where
  "demo_meta = \<lparr>buff = 0, partner = 1, tag = 7, comm = 0, mtype = 0\<rparr>"

text \<open>Memory before any initialisation.\<close>

definition blank :: mpip where
  "blank = \<lparr>state = INACTIVE, side = SENDER, local_status = Indet, internal_status = Indet,
     local_parts = 0, local_size = 0, parts = 0, psize = 0, request = Indet, comm_data = Indet,
     sync_thread = NoThread, lock = MIndet, threaded = NONE\<rparr>"

text \<open>A started request with \<open>lp\<close> partitions and \<open>n\<close> messages, nothing marked, setup finished.\<close>

definition demo :: "p2p_side \<Rightarrow> int \<Rightarrow> int \<Rightarrow> mpip" where
  "demo s lp n = \<lparr>state = ACTIVE, side = s,
     local_status = filled (replicate (nat lp) False),
     internal_status = filled (replicate (nat n) 0),
     local_parts = lp, local_size = 1, parts = n, psize = 1, request = filled [0..<nat n],
     comm_data = filled [demo_meta], sync_thread = NoThread, lock = MReady, threaded = NONE\<rparr>"

text \<open>A started request whose background thread has still to receive the partitioning.\<close>

definition demo_waiting :: "p2p_side \<Rightarrow> int \<Rightarrow> mpip" where
  "demo_waiting s lp = (demo s lp 1)\<lparr>internal_status := Indet, request := Indet,
     sync_thread := Spawned, threaded := RUNNING\<rparr>"

text \<open>A prepared request for which \<open>n\<close> messages of \<open>sz\<close> elements have been settled.\<close>

definition demo_plan :: "p2p_side \<Rightarrow> int \<Rightarrow> int \<Rightarrow> int \<Rightarrow> int \<Rightarrow> mpip" where
  "demo_plan s lp n sz t = (demo s lp n)\<lparr>psize := sz, threaded := NONE, internal_status := Indet, request := Indet,
     comm_data := filled [demo_meta\<lparr>tag := t\<rparr>]\<rparr>"

lemma demo_plan_simps [simp]:
  "side (demo_plan s lp n sz t) = s" "parts (demo_plan s lp n sz t) = n" "psize (demo_plan s lp n sz t) = sz"
  "hd (blk_vals (comm_data (demo_plan s lp n sz t))) = demo_meta\<lparr>tag := t\<rparr>"
  "0 < lp \<Longrightarrow> lp \<le> INT_MAX \<Longrightarrow> prepared (demo_plan s lp n sz t)"
  by (simp_all add: demo_plan_def demo_def prepared_def)

text \<open>A library whose partner answers with \<open>n\<close> messages of \<open>sz\<close> elements.\<close>

abbreviation mpi_answers :: "int \<Rightarrow> int \<Rightarrow> mpi" where
  "mpi_answers n sz \<equiv> mpi_run (\<lambda>j k. None) (Some (n, sz)) (\<lambda>h x. True)"

lemma demo_simps [simp]:
  "state (demo s lp n) = ACTIVE" "side (demo s lp n) = s" "local_parts (demo s lp n) = lp"
  "parts (demo s lp n) = n" "threaded (demo s lp n) = NONE" "lock (demo s lp n) = MReady"
  "handles (demo s lp n) = [0..<nat n]" "counters (demo s lp n) = replicate (nat n) 0"
  "local_status (demo s lp n) = filled (replicate (nat lp) False)"
  "internal_status (demo s lp n) = filled (replicate (nat n) 0)" "request (demo s lp n) = filled [0..<nat n]"
  by (simp_all add: demo_def)

lemma demo_setup_ok: "0 < lp \<Longrightarrow> lp \<le> INT_MAX \<Longrightarrow> 0 < n \<Longrightarrow> n \<le> INT_MAX \<Longrightarrow> setup_ok (demo s lp n)"
  by (simp add: setup_ok_def demo_def)

lemma demo_flags: "0 < lp \<Longrightarrow> flags_set (demo s lp n) \<and> marked (demo s lp n) = {}"
  by (intro flags_set_replicate) simp_all

lemma demo_ready:
  "aligned lp n \<Longrightarrow> 2 * lp \<le> INT_MAX \<Longrightarrow> ready_sender (demo SENDER lp n)"
  using demo_flags [of lp SENDER n] demo_setup_ok [of lp n SENDER] by (simp add: ready_sender_def aligned_def)

lemma demo_sender_at: "aligned lp n \<Longrightarrow> sender_at h {} (demo SENDER lp n, h)"
  using demo_flags [of lp SENDER n] demo_setup_ok [of lp n SENDER]
  by (auto simp: sender_at_def aligned_def intro!: round_at_start)

lemma demo_waiting_delayed:
  assumes "0 < lp" "lp \<le> INT_MAX"
  shows "delayed (demo_waiting SENDER lp)" "flags_set (demo_waiting SENDER lp)"
    "marked (demo_waiting SENDER lp) = {}" "the_meta (demo_waiting SENDER lp) = demo_meta"
    "local_parts (demo_waiting SENDER lp) = lp"
proof -
  have "flags_set (demo_waiting SENDER lp) \<and> marked (demo_waiting SENDER lp) = {}"
    using assms by (intro flags_set_replicate) (simp_all add: demo_waiting_def demo_def)
  then show "flags_set (demo_waiting SENDER lp)" "marked (demo_waiting SENDER lp) = {}" by auto
qed (use assms in \<open>simp_all add: delayed_def held_def prepared_def demo_waiting_def demo_def\<close>)

lemma demo_fits: "0 < n \<Longrightarrow> n \<le> 1000 \<Longrightarrow> 0 \<le> sz \<Longrightarrow> sz \<le> 1000 \<Longrightarrow> fits (mpi_run i d c) demo_meta n sz"
proof -
  assume n: "0 < n" "n \<le> 1000" "0 \<le> sz" "sz \<le> 1000"
  have small: "x \<le> 1000 * 1000 \<Longrightarrow> x * 8 < 2 ^ 63" for x :: int by simp
  have "(n - 1) * sz \<le> 1000 * 1000" using n by (intro mult_mono) auto
  moreover from this have "(n - 1) * sz * 8 < 2 ^ 63" by (rule small)
  ultimately show ?thesis using n by (simp add: fits_def demo_meta_def mpi_run_def)
qed

lemma demo_plan_fits:
  "0 < n \<Longrightarrow> n \<le> 1000 \<Longrightarrow> 0 \<le> sz \<Longrightarrow> sz \<le> 1000 \<Longrightarrow> 0 \<le> t \<Longrightarrow> t \<le> 1000 \<Longrightarrow>
   fits (mpi_run i d c) (demo_meta\<lparr>tag := t\<rparr>) n sz"
  using demo_fits [of n sz i d c] by (simp add: fits_def demo_meta_def)

lemma demo_waiting_sender:
  "aligned lp n \<Longrightarrow> lp \<le> 1000 \<Longrightarrow> n \<le> 1000 \<Longrightarrow>
   waiting_sender (mpi_answers n 1) h (demo_waiting SENDER lp) n"
  using demo_waiting_delayed [of lp] demo_fits [of n 1 "\<lambda>j k. None" "Some (n, 1)" "\<lambda>h x. True"]
  by (auto simp: waiting_sender_def aligned_def)

section \<open>Counting a partition twice\<close>

text \<open>
  Two partitions, one message. The user marks partition 0 and is about to read the status; the
  background thread sets up, scans both flags, counts partition 0 and finishes; the user reads
  \<open>FINISHED\<close> and counts partition 0 again.
\<close>

definition double_at :: "int list \<Rightarrow> thread_status \<Rightarrow> hist \<Rightarrow> pc \<Rightarrow> pc \<Rightarrow> (bool \<times> int \<times> int) set \<Rightarrow> conf" where
  "double_at cs th h u b C = \<lparr>
     req = (demo_waiting SENDER 2)\<lparr>local_status := filled [True, False], parts := 1, psize := 2,
       request := filled [0], internal_status := filled cs, threaded := th\<rparr>,
     log = h, pcs = (\<lambda>a. if a = User 0 then u else if a = Background then b else Idle), counted = C\<rparr>"

abbreviation double_log :: hist where
  "double_log \<equiv> [CSendInit (message (mpi_answers 1 2) demo_meta 2 0) 0, CTypeExtent 0, CRecv [1, 2] 1 990 0]"

lemma double_pcs: "pcs (double_at cs th h u b C) (User 0) = u" "pcs (double_at cs th h u b C) Background = b"
  "counted (double_at cs th h u b C) = C"
  by (simp_all add: double_at_def)

lemma double_goto:
  "goto (User 0) c (double_at cs th h u b C) = double_at cs th h c b C"
  "goto Background c (double_at cs th h u b C) = double_at cs th h u c C"
  by (auto simp: double_at_def fun_eq_iff)

lemma double_range: "send_range 0 (req (double_at cs th h u b C)) = Inr (0, 1, 2)"
  by (simp add: double_at_def send_range_def demo_waiting_def demo_def c_div_pos c_add_def)

lemma double_count:
  "0 \<le> v \<Longrightarrow> v < 100 \<Longrightarrow> fetch_add 0 (req (double_at [v] th h u b C)) = Inr (v, req (double_at [v + 1] th h u b C))
     \<and> c_add v 1 = Inr (v + 1)"
  by (simp add: double_at_def fetch_add_def int32_of_id c_add_def)

lemma double_update:
  "double_at cs th h u b C\<lparr>req := req (double_at cs' th' h' u' b' C'), counted := D\<rparr> = double_at cs' th' h u b D"
  "double_at cs th h u b C\<lparr>req := req (double_at cs' th' h' u' b' C'), log := k\<rparr> = double_at cs' th' k u b C"
  by (simp_all add: double_at_def)

lemma double_mark:
  "step M (conf_of (demo_waiting SENDER 2) [] Setup)
     (goto (User 0) (Marked 0) (conf_of ((demo_waiting SENDER 2)\<lparr>local_status := filled [True, False]\<rparr>) [] Setup))"
  using step.mark [of "conf_of (demo_waiting SENDER 2) [] Setup" 0 0 "filled [True, False]" M]
    demo_waiting_delayed [of 2]
  by (simp add: conf_of_def demo_waiting_def demo_def numeral_2_eq_2)

lemma double_sync:
  "step (mpi_answers 1 2)
     (goto (User 0) (Marked 0) (conf_of ((demo_waiting SENDER 2)\<lparr>local_status := filled [True, False]\<rparr>) [] Setup))
     (double_at [0] RUNNING double_log (Marked 0) Locking {})"
proof -
  let ?q = "(demo_waiting SENDER 2)\<lparr>local_status := filled [True, False]\<rparr>"
    and ?M = "mpi_answers 1 2"
  have m: "blk_malloc 1 = Live [None]" by (simp add: blk_malloc_def)
  have "bindE (sync_side ?M (not_side (side ?q)) (?q, [])) (internal_setup ?M)
      = Inr (req (double_at [0] RUNNING double_log (Marked 0) Locking {}), double_log)"
    by (simp add: sync_side_def internal_setup_def demo_waiting_def demo_def demo_meta_def double_at_def m
        for_up_step setup_one_def c_mul_def c_add_def chk_aint_def message_def Let_def filled_def)
  from step.sync [of "goto (User 0) (Marked 0) (conf_of ?q [] Setup)" ?M, OF _ _] this
  have "step ?M (goto (User 0) (Marked 0) (conf_of ?q [] Setup))
     (goto Background Locking (goto (User 0) (Marked 0) (conf_of ?q [] Setup)
        \<lparr>req := req (double_at [0] RUNNING double_log (Marked 0) Locking {}), log := double_log\<rparr>))"
    by (simp add: conf_of_def)
  moreover have "goto Background Locking (goto (User 0) (Marked 0) (conf_of ?q [] Setup)
        \<lparr>req := req (double_at [0] RUNNING double_log (Marked 0) Locking {}), log := double_log\<rparr>)
     = double_at [0] RUNNING double_log (Marked 0) Locking {}"
    by (auto simp: conf_of_def double_at_def fun_eq_iff split: actor.splits)
  ultimately show ?thesis by simp
qed

lemma double_scan:
  "reaches M (double_at [0] RUNNING h (Marked 0) Locking {})
     (double_at [1] FINISHED h (Marked 0) Done {(True, 0, 0)})"
proof -
  let ?s = "\<lambda>v th b C. double_at [v] th h (Marked 0) b C"
  have r: "local_parts (req (?s v th b C)) = 2" "side (req (?s v th b C)) = SENDER" "state (req (?s v th b C)) = ACTIVE"
    "blk_get (local_status (req (?s v th b C))) 0 = Inr True" "blk_get (local_status (req (?s v th b C))) 1 = Inr False"
    for v th b C by (simp_all add: double_at_def demo_waiting_def demo_def)
  note b = double_pcs(2)
  have "step M (?s 0 RUNNING Locking {}) (?s 0 RUNNING (Scan 0) {})"
    using step.acquire [OF b r(2), where M = M] r(3) by (simp add: double_goto)
  moreover have "step M (?s 0 RUNNING (Scan 0) {}) (?s 0 RUNNING (Sending 0 0 1 2) {})"
    using step.send [OF b _ r(4) double_range, where M = M] r(1) by (simp add: double_goto)
  moreover have "step M (?s 0 RUNNING (Sending 0 0 1 2) {}) (?s 1 RUNNING (Sending 0 1 1 2) {(True, 0, 0)})"
  proof -
    let ?t = "?s 0 RUNNING (Sending 0 0 1 2) {}"
    have f: "fetch_add 0 (req ?t) = Inr (0, req (?s 1 RUNNING (Sending 0 0 1 2) {}))" "c_add 0 1 = Inr 1"
      using double_count [of 0 RUNNING h "Marked 0" "Sending 0 0 1 2" "{}"] by auto
    show ?thesis using step.count [OF b _ f, where M = M] by (simp add: double_goto double_update double_pcs)
  qed
  moreover have "step M (?s 1 RUNNING (Sending 0 1 1 2) {(True, 0, 0)}) (?s 1 RUNNING (Scan 1) {(True, 0, 0)})"
    using step.sent [OF b [of "[1]" RUNNING h "Marked 0" "Sending 0 1 1 2" "{(True, 0, 0)}"], where M = M]
    by (simp add: double_goto)
  moreover have "step M (?s 1 RUNNING (Scan 1) {(True, 0, 0)}) (?s 1 RUNNING (Scan 2) {(True, 0, 0)})"
    using step.skip [OF b _ r(5), where M = M] r(1) by (simp add: double_goto)
  moreover have "step M (?s 1 RUNNING (Scan 2) {(True, 0, 0)}) (?s 1 FINISHED Done {(True, 0, 0)})"
  proof -
    let ?t = "?s 1 RUNNING (Scan 2) {(True, 0, 0)}"
    have "goto Background Done (?t\<lparr>req := (req ?t)\<lparr>threaded := FINISHED\<rparr>\<rparr>) = ?s 1 FINISHED Done {(True, 0, 0)}"
      by (auto simp: double_at_def fun_eq_iff)
    moreover have "pcs ?t Background = Scan 2" "\<not> 2 < local_parts (req ?t)" by (simp_all add: r(1) double_pcs)
    ultimately show ?thesis using step.finish [of ?t 2 M] by simp
  qed
  ultimately show ?thesis by (meson rtranclp.rtrancl_refl converse_rtranclp_into_rtranclp)
qed

lemma double_user:
  assumes "mpi_succeeds M"
  shows "reaches M (double_at [1] FINISHED h (Marked 0) Done {(True, 0, 0)})
     (double_at [2] FINISHED (CStart 0 # h) (Sending 0 1 1 2) Done {(False, 0, 0), (True, 0, 0)})"
proof -
  let ?s = "\<lambda>v h u C. double_at [v] FINISHED h u Done C"
  note b = double_pcs(1)
  have "step M (?s 1 h (Marked 0) {(True, 0, 0)}) (?s 1 h (Sending 0 0 1 2) {(True, 0, 0)})"
    using step.go [OF b _ _ double_range, where M = M] by (simp add: double_goto locked_def double_pcs) (simp add: double_at_def)
  moreover have "step M (?s 1 h (Sending 0 0 1 2) {(True, 0, 0)}) (?s 2 h (Firing 0 0 1 2) {(False, 0, 0), (True, 0, 0)})"
  proof -
    let ?t = "?s 1 h (Sending 0 0 1 2) {(True, 0, 0)}"
    have f: "fetch_add 0 (req ?t) = Inr (1, req (?s 2 h (Sending 0 0 1 2) {(True, 0, 0)}))" "c_add 1 1 = Inr 2"
      using double_count [of 1 FINISHED h "Sending 0 0 1 2" Done "{(True, 0, 0)}"] by auto
    show ?thesis using step.count [OF b _ f, where M = M] by (simp add: double_goto double_update double_pcs)
  qed
  moreover have "step M (?s 2 h (Firing 0 0 1 2) {(False, 0, 0), (True, 0, 0)})
      (?s 2 (CStart 0 # h) (Sending 0 1 1 2) {(False, 0, 0), (True, 0, 0)})"
  proof -
    let ?t = "?s 2 h (Firing 0 0 1 2) {(False, 0, 0), (True, 0, 0)}"
    have "start_message M 0 (req ?t, log ?t) = Inr (req ?t, CStart 0 # h)"
      using assms by (simp add: start_message_def double_at_def)
    from step.fire [OF b this] show ?thesis by (simp add: double_goto) (simp add: double_at_def fun_upd_def cong: if_cong)
  qed
  ultimately show ?thesis by (meson rtranclp.rtrancl_refl converse_rtranclp_into_rtranclp)
qed

lemma double_reaches:
  "reaches (mpi_answers 1 2) (conf_of (demo_waiting SENDER 2) [] Setup)
     (double_at [2] FINISHED (CStart 0 # double_log) (Sending 0 1 1 2) Done {(False, 0, 0), (True, 0, 0)})"
  using double_mark [of "mpi_answers 1 2"] double_sync double_scan [of "mpi_answers 1 2" double_log]
    double_user [of "mpi_answers 1 2" double_log]
  by (meson mpi_run_succeeds converse_rtranclp_into_rtranclp rtranclp_trans)

end
