(* ===== verification/Unaligned.thy ===== *)
theory Unaligned
  imports Examples
begin

text \<open>
  Partition and message counts of which neither divides the other. With more partitions than
  messages the last partition is counted into a message that does not exist; with more messages
  than partitions the last message belongs to no partition.
\<close>

section \<open>More partitions than messages\<close>

lemma last_partition_range:
  fixes lp n :: int
  assumes "0 < n" "n < lp" "lp mod n \<noteq> 0"
  shows "n \<le> (lp - 1) div (lp div n)"
proof -
  have t: "0 < lp div n" using assms by (simp add: pos_imp_zdiv_pos_iff)
  have "lp = n * (lp div n) + lp mod n" by simp
  moreover have "0 < lp mod n" using assms pos_mod_sign [of n lp] by linarith
  ultimately have "n * (lp div n) \<le> lp - 1" by linarith
  then have "n * (lp div n) div (lp div n) \<le> (lp - 1) div (lp div n)" using t by (intro zdiv_mono1) auto
  with t show ?thesis by simp
qed

text \<open>
  With more partitions than messages and no exact division, marking the last partition makes
  \<open>general_send\<close> count it into a message past the end of the array.
\<close>

lemma pready_last_out_of_bounds:
  assumes ok: "setup_ok r" and s: "side r = SENDER" "state r = ACTIVE" "threaded r \<noteq> RUNNING"
    and n: "parts r < local_parts r" "local_parts r mod parts r \<noteq> 0"
  shows "MPIP_Pready M (local_parts r - 1) (r, h) = Inl (Undefined OutOfBounds)"
proof -
  note D = setup_okD [OF ok]
  let ?lp = "local_parts r" and ?n = "parts r"
  let ?i = "(?lp - 1) div (?lp div ?n)"
  have i: "?n \<le> ?i" using last_partition_range D n by simp
  have thr: "0 < ?lp div ?n" using D n by (simp add: pos_imp_zdiv_pos_iff)
  have ub: "?i \<le> ?lp - 1" using thr zdiv_mono2 [of "?lp - 1" 1 "?lp div ?n"] D by simp
  have "send_range (?lp - 1) r = Inr (?i, ?i + 1, ?lp div ?n)"
    using D n thr i ub by (simp add: send_range_def c_div_pos c_add_def)
  moreover obtain cs where "internal_status r = filled cs" "int (length cs) = ?n" using D(8,9) by auto
  then have "fetch_add ?i (r\<lparr>local_status := st\<rparr>) = Inl (Undefined OutOfBounds)" for st
    using i by (simp add: fetch_add_def filled_def)
  ultimately have "general_send M (?lp - 1) (r\<lparr>local_status := st\<rparr>, h) = Inl (Undefined OutOfBounds)" for st
    by (simp add: general_send_def for_up_step send_one_def)
  moreover obtain st where "blk_set (local_status r) (?lp - 1) True = Inr st"
    using blk.put_ok [of "?lp - 1" "local_status r" True] D by auto
  ultimately show ?thesis using s D(11) by (simp add: MPIP_Pready_def Let_def)
qed

lemma pready_last_out_of_bounds_witness:
  "MPIP_Pready mpi_done 2 (demo SENDER 3 2, []) = Inl (Undefined OutOfBounds)"
proof -
  have "setup_ok (demo SENDER 3 2)" by (simp add: demo_setup_ok)
  from pready_last_out_of_bounds [OF this, of mpi_done "[]"] show ?thesis by simp
qed

section \<open>More messages than partitions\<close>

text \<open>The start of any message but the last one.\<close>

lemma send_one_other:
  assumes "send_one M thr i (r, h) = Inr (r', h')" "setup_ok r" "0 \<le> i" "i < parts r - 1"
  shows "setup_ok r' \<and> same_messages r r' \<and> state r' = state r
    \<and> starts h' (handles r ! nat (parts r - 1)) = starts h (handles r ! nat (parts r - 1))"
proof -
  note D = setup_okD [OF assms(2)]
  obtain cs hs where cs: "internal_status r = filled cs" "int (length cs) = parts r"
    and hs: "request r = filled hs" "int (length hs) = parts r" "distinct hs" using D by metis
  have ne: "hs ! nat i \<noteq> hs ! nat (parts r - 1)"
    using nth_eq_iff_index_eq [OF hs(3), of "nat i" "nat (parts r - 1)"] hs(2) assms(3,4) by auto
  obtain c where "r' = r\<lparr>internal_status := filled (cs[nat i := c])\<rparr>" "h' = h \<or> h' = CStart (hs ! nat i) # h"
    using assms(1,3,4) cs hs
    by (auto simp: send_one_def fetch_add_def start_message_def mpi_call_eq_Inr split: if_splits)
  then show ?thesis using assms(2) cs hs ne by (auto simp: setup_ok_def same_messages_def)
qed

lemma pready_skips_last:
  assumes ok: "setup_ok r" and n: "local_parts r \<le> parts r" "parts r mod local_parts r \<noteq> 0"
    and p: "0 \<le> p" "p < local_parts r" and e: "MPIP_Pready M p (r, h) = Inr (v, r', h')"
  shows "v = MPI_SUCCESS \<and> setup_ok r' \<and> same_messages r r'
    \<and> starts h' (handles r ! nat (parts r - 1)) = starts h (handles r ! nat (parts r - 1))"
proof -
  note D = setup_okD [OF ok]
  let ?q = "parts r div local_parts r" and ?x = "handles r ! nat (parts r - 1)"
  have q: "0 < ?q" using D n by (simp add: pos_imp_zdiv_pos_iff)
  have "parts r = ?q * local_parts r + parts r mod local_parts r" by simp
  moreover have "0 < parts r mod local_parts r" using D n pos_mod_sign [of "local_parts r" "parts r"] by linarith
  moreover have "?q * (p + 1) \<le> ?q * local_parts r" using p q by (intro mult_left_mono) auto
  ultimately have e1: "?q * (p + 1) \<le> parts r - 1" by linarith
  obtain st where st: "blk_set (local_status r) p True = Inr st" "side r = SENDER" "state r = ACTIVE"
    using e by (auto simp: MPIP_Pready_def)
  let ?r = "r\<lparr>local_status := st\<rparr>"
  have "blk_len st = local_parts r" using blk.put_len [OF st(1)] D by simp
  then have ok': "setup_ok ?r" using ok by (simp add: setup_ok_def)
  let ?P = "\<lambda>(q, k). setup_ok q \<and> same_messages r q \<and> starts k ?x = starts h ?x"
  have "?P (r', h') \<and> v = MPI_SUCCESS"
  proof (cases "threaded r = RUNNING")
    case True
    then show ?thesis using e st ok' D by (auto simp: MPIP_Pready_def same_messages_def)
  next
    case False
    then have "general_send M p (?r, h) = Inr (r', h')" "v = MPI_SUCCESS"
      using e st D by (auto simp: MPIP_Pready_def)
    moreover have "send_range p ?r = Inr (?q * p, ?q * (p + 1), 1)"
      using D n p by (simp add: send_range_def map_local_to_network_partitions_eq)
    ultimately have "for_up (?q * p) (?q * (p + 1)) (send_one M 1) (?r, h) = Inr (r', h')"
      by (simp add: general_send_def)
    then have "?P (r', h')"
    proof (rule for_up_preserves)
      show "?P (?r, h)" using ok' by (simp add: same_messages_def)
    next
      fix i t t' assume i: "?q * p \<le> i" "i < ?q * (p + 1)" and P: "?P t" and s: "send_one M 1 i t = Inr t'"
      obtain a k a' k' where t: "t = (a, k)" "t' = (a', k')" by fastforce
      have "0 \<le> ?q * p" using q p by simp
      with i e1 have "0 \<le> i" "i < parts a - 1" using P t by (auto simp: same_messages_def)
      with send_one_other [of M 1 i a k a' k'] s P t show "?P t'"
        by (auto simp: same_messages_def)
    qed
    with \<open>v = MPI_SUCCESS\<close> show ?thesis by blast
  qed
  then show ?thesis by simp
qed

text \<open>
  With more messages than partitions and no exact division, no call that marks partitions
  ever starts the last message: the \<open>ceil\<close> that should have rounded up is applied after the
  integer division.
\<close>

lemma pready_list_skips_last:
  assumes ok: "setup_ok r" and n: "local_parts r \<le> parts r" "parts r mod local_parts r \<noteq> 0"
    and ps: "set ps \<subseteq> {0..<local_parts r}"
    and e: "MPIP_Pready_list M (int (length ps)) ps (r, h) = Inr (v, r', h')"
  shows "starts h' (handles r ! nat (parts r - 1)) = starts h (handles r ! nat (parts r - 1))"
proof -
  let ?x = "handles r ! nat (parts r - 1)"
  let ?P = "\<lambda>(q, k). setup_ok q \<and> same_messages r q \<and> starts k ?x = starts h ?x"
  have "for_up 0 (int (length ps)) (\<lambda>i t.
       bindE (blk_get (filled ps) i) (\<lambda>p. checked (MPIP_Pready M p t))) (r, h) = Inr (r', h')"
    using e by (auto simp: MPIP_Pready_list_def)
  then have "?P (r', h')"
  proof (rule for_up_preserves)
    show "?P (r, h)" using ok by simp
  next
    fix i t t' assume i: "0 \<le> i" "i < int (length ps)" and P: "?P t"
      and s: "bindE (blk_get (filled ps) i) (\<lambda>p. checked (MPIP_Pready M p t)) = Inr t'"
    obtain a k a' k' where t: "t = (a, k)" "t' = (a', k')" by fastforce
    have "nat i < length ps" using i by linarith
    then have "0 \<le> ps ! nat i" "ps ! nat i < local_parts r" using ps nth_mem by fastforce+
    moreover obtain v where "MPIP_Pready M (ps ! nat i) (a, k) = Inr (v, a', k')"
      using s i t by (auto simp: checked_def)
    ultimately show "?P t'"
      using pready_skips_last [of a "ps ! nat i" M k v a' k'] P t n by (auto simp: same_messages_def)
  qed
  then show ?thesis by simp
qed

lemma pready_list_skips_last_witness:
  "\<exists>r' h'. MPIP_Pready_list mpi_done 2 [0, 1] (demo SENDER 2 3, []) = Inr (MPI_SUCCESS, r', h') \<and> starts h' 2 = 0"
proof -
  let ?r = "demo SENDER 2 3"
  have ok: "setup_ok ?r" by (simp add: demo_setup_ok)
  have "\<exists>t. MPIP_Pready_list mpi_done 2 [0, 1] (?r, []) = Inr (MPI_SUCCESS, t)"
    by (simp add: MPIP_Pready_list_def for_up_step MPIP_Pready_def general_send_def send_range_def
        map_local_to_network_partitions_def c_div_pos c_mul_def c_add_def send_one_def fetch_add_def
        start_message_def int32_of_id Let_def checked_def numeral_2_eq_2 numeral_3_eq_3)
  then obtain r' h' where e: "MPIP_Pready_list mpi_done (int (length [0 :: int, 1])) [0, 1] (?r, []) = Inr (MPI_SUCCESS, r', h')"
    by auto
  from pready_list_skips_last [OF ok _ _ _ this] have "starts h' 2 = 0" by (simp add: numeral_2_eq_2)
  with e show ?thesis by auto
qed

section \<open>Neither divides the other\<close>

text \<open>
  C30: what goes wrong when neither of the counts of partitions and messages divides the other. With
  more partitions, marking the last one counts it into a message past the end of the array. With
  more messages, no call that marks partitions ever starts the last message: the \<open>ceil\<close> that should
  have rounded up is applied after the integer division.
\<close>

theorem uneven_counts:
  assumes ok: "setup_ok r" and s: "side r = SENDER" "state r = ACTIVE" "threaded r \<noteq> RUNNING"
    and n: "local_parts r mod parts r \<noteq> 0" "parts r mod local_parts r \<noteq> 0"
  shows "if parts r < local_parts r
    then MPIP_Pready M (local_parts r - 1) (r, h) = Inl (Undefined OutOfBounds)
    else \<forall>ps v r' h'. set ps \<subseteq> {0..<local_parts r}
      \<longrightarrow> MPIP_Pready_list M (int (length ps)) ps (r, h) = Inr (v, r', h')
      \<longrightarrow> starts h' (handles r ! nat (parts r - 1)) = starts h (handles r ! nat (parts r - 1))"
  using pready_last_out_of_bounds [OF ok s _ n(1)] pready_list_skips_last [OF ok _ n(2)] by auto

theorem uneven_counts_witness:
  "MPIP_Pready mpi_done 2 (demo SENDER 3 2, []) = Inl (Undefined OutOfBounds)
   \<and> (\<exists>r' h'. MPIP_Pready_list mpi_done 2 [0, 1] (demo SENDER 2 3, []) = Inr (MPI_SUCCESS, r', h') \<and> starts h' 2 = 0)"
proof
  have "setup_ok (demo SENDER 3 2)" by (simp add: demo_setup_ok)
  from uneven_counts [OF this, of mpi_done "[]"]
  show "MPIP_Pready mpi_done 2 (demo SENDER 3 2, []) = Inl (Undefined OutOfBounds)" by simp
  have "setup_ok (demo SENDER 2 3)" by (simp add: demo_setup_ok)
  from uneven_counts [OF this, of mpi_done "[]"]
  have skips: "set ps \<subseteq> {0..<2} \<Longrightarrow> MPIP_Pready_list mpi_done (int (length ps)) ps (demo SENDER 2 3, []) = Inr (v, r', h')
      \<Longrightarrow> starts h' 2 = 0" for ps v r' h'
    by (simp add: numeral_2_eq_2)
  obtain r' h' where e: "MPIP_Pready_list mpi_done 2 [0, 1] (demo SENDER 2 3, []) = Inr (MPI_SUCCESS, r', h')"
    using pready_list_skips_last_witness by blast
  with skips [of "[0, 1]" MPI_SUCCESS r' h']
  show "\<exists>r' h'. MPIP_Pready_list mpi_done 2 [0, 1] (demo SENDER 2 3, []) = Inr (MPI_SUCCESS, r', h') \<and> starts h' 2 = 0"
    by auto
qed

end
