(* ===== verification/Ready_Order.thy ===== *)
theory Ready_Order
  imports Sender "HOL-Library.Multiset"
begin

text \<open>
  The order in which partitions are marked does not matter: \<open>MPIP_Pready_range\<close> and
  \<open>MPIP_Pready_list\<close> are iterations of \<open>MPIP_Pready\<close>, and two lists with the same partitions
  leave the same request and have started the same messages.
\<close>

section \<open>Loops over the elements of a list\<close>

fun each :: "('a \<Rightarrow> 's \<Rightarrow> 's res) \<Rightarrow> 'a list \<Rightarrow> 's \<Rightarrow> 's res" where
  "each f [] s = Inr s"
| "each f (x # xs) s = bindE (f x s) (each f xs)"

lemma each_cong: "(\<And>x s. x \<in> set xs \<Longrightarrow> f x s = g x s) \<Longrightarrow> each f xs s = each g xs s"
proof (induction xs arbitrary: s)
  case (Cons x xs)
  then show ?case by (auto simp: bindE_def split: sum.splits)
qed simp

lemma for_up_upto: "for_up lo (hi + 1) f s = each f [lo..hi] s"
proof (induction lo "hi + 1" f s rule: for_up.induct)
  case (1 lo f s)
  show ?case
  proof (cases "lo \<le> hi")
    case True
    have "for_up (lo + 1) (hi + 1) f t = each f [lo + 1..hi] t" if "f lo s = Inr t" for t
      using 1 [OF _ that] True by simp
    then show ?thesis
      using True by (simp add: for_up_step upto_rec1) (auto simp: bindE_def split: sum.splits)
  qed simp
qed

lemma for_up_drop:
  "k \<le> length xs \<Longrightarrow>
   for_up (int k) (int (length xs)) (\<lambda>i s. bindE (blk_get (filled xs) i) (\<lambda>x. f x s)) s = each f (drop k xs) s"
proof (induction "length xs - k" arbitrary: k s)
  case (Suc n)
  then have k: "k < length xs" by simp
  have "for_up (int (Suc k)) (int (length xs)) (\<lambda>i s. bindE (blk_get (filled xs) i) (\<lambda>x. f x s)) t
      = each f (drop (Suc k) xs) t" for t
    using Suc by (intro Suc.hyps(1)) auto
  with k show ?case
    by (simp add: for_up_step Cons_nth_drop_Suc [symmetric] add.commute) (simp add: bindE_def split: sum.splits)
qed simp

lemma for_up_each:
  "for_up 0 (int (length xs)) (\<lambda>i s. bindE (blk_get (filled xs) i) (\<lambda>x. f x s)) s = each f xs s"
  using for_up_drop [of 0 xs f s] by simp

section \<open>Ranges and lists\<close>

definition pready_each :: "mpi \<Rightarrow> int list \<Rightarrow> mpip \<times> hist \<Rightarrow> (mpip \<times> hist) res" where
  "pready_each M = each (\<lambda>p t. checked (MPIP_Pready M p t))"

lemma MPIP_Pready_list_each:
  "MPIP_Pready_list M (int (length ps)) ps t = bindE (pready_each M ps t) (\<lambda>t. Inr (MPI_SUCCESS, t))"
  by (simp add: MPIP_Pready_list_def pready_each_def for_up_each)

lemma MPIP_Pready_range_each:
  assumes "INT_MIN \<le> lo" "hi < INT_MAX"
  shows "MPIP_Pready_range M lo hi t = bindE (pready_each M [lo..hi] t) (\<lambda>t. Inr (MPI_SUCCESS, t))"
proof -
  have "bindE (checked (MPIP_Pready M i u)) (\<lambda>t. bindE (c_add i 1) (\<lambda>_. Inr t)) = checked (MPIP_Pready M i u)"
    if "i \<in> set [lo..hi]" for i u
  proof -
    have "c_add i 1 = Inr (i + 1)" using that assms by (simp add: c_add_def chk_int_def)
    then show ?thesis by (simp add: bindE_def split: sum.splits)
  qed
  then show ?thesis
    unfolding MPIP_Pready_range_def pready_each_def for_up_upto
    by (subst each_cong [where g = "\<lambda>p t. checked (MPIP_Pready M p t)"]) auto
qed

section \<open>What marking changes\<close>

text \<open>Only flags and counters of the request change, and only messages of the request start.\<close>

definition marking :: "mpip \<times> hist \<Rightarrow> mpip \<times> hist \<Rightarrow> bool" where
  "marking = (\<lambda>(r, h) (r', h'). \<exists>ls st xs. r' = r\<lparr>local_status := ls, internal_status := st\<rparr>
     \<and> h' = map CStart xs @ h \<and> set xs \<subseteq> {x. \<exists>i. blk_get (request r) i = Inr x})"

lemma marking_refl: "marking t t"
  by (cases t) (auto simp: marking_def intro!: exI [of _ "local_status (fst t)"] exI [of _ "internal_status (fst t)"] exI [of _ "[]"])

lemma marking_trans: "marking t u \<Longrightarrow> marking u v \<Longrightarrow> marking t v"
  by (cases t; cases u; cases v) (fastforce simp: marking_def simp flip: map_append append_assoc)

lemma markingI:
  "set xs \<subseteq> {x. \<exists>i. blk_get (request r) i = Inr x} \<Longrightarrow>
   marking (r, h) (r\<lparr>local_status := ls, internal_status := st\<rparr>, map CStart xs @ h)"
  unfolding marking_def by auto

lemma send_one_marking:
  assumes "send_one M thr i (r, h) = Inr t'"
  shows "marking (r, h) t'"
proof -
  obtain st x where st: "t' = (r\<lparr>internal_status := st\<rparr>, h)
      \<or> (t' = (r\<lparr>internal_status := st\<rparr>, CStart x # h) \<and> blk_get (request r) i = Inr x)"
    using assms by (fastforce simp: send_one_def fetch_add_def start_message_def mpi_call_eq_Inr split: if_splits)
  then show ?thesis
    using markingI [where xs = "[]" and r = r and h = h and ls = "local_status r" and st = st] markingI [where xs = "[x]" and r = r and h = h and ls = "local_status r" and st = st] by auto
qed

lemma for_up_marking:
  assumes "for_up lo hi body t = Inr t'" "\<And>i t t'. body i t = Inr t' \<Longrightarrow> marking t t'"
  shows "marking t t'"
  using for_up_preserves [OF assms(1), of "marking t"] assms(2) marking_refl marking_trans by blast

lemma general_send_marking: "general_send M p (r, h) = Inr t' \<Longrightarrow> marking (r, h) t'"
  by (auto simp: general_send_def elim!: for_up_marking intro: send_one_marking)

lemma pready_marking:
  assumes "MPIP_Pready M p (r, h) = Inr (v, t')"
  shows "marking (r, h) t'"
proof -
  obtain st where st: "blk_set (local_status r) p True = Inr st"
    "t' = (r\<lparr>local_status := st\<rparr>, h) \<or> general_send M p (r\<lparr>local_status := st\<rparr>, h) = Inr t'"
    using assms by (auto simp: MPIP_Pready_def Let_def split: if_splits)
  have "marking (r, h) (r\<lparr>local_status := st\<rparr>, h)" using markingI [where xs = "[]" and r = r and h = h and ls = st and st = "internal_status r"] by simp
  with st(2) general_send_marking show ?thesis by (blast intro: marking_trans)
qed

lemma pready_each_marking: "pready_each M ps t = Inr t' \<Longrightarrow> marking t t'"
proof (induction ps arbitrary: t)
  case Nil
  then show ?case by (simp add: pready_each_def marking_refl)
next
  case (Cons p ps)
  obtain r h where t: "t = (r, h)" by fastforce
  with Cons.prems obtain v u where "MPIP_Pready M p (r, h) = Inr (v, u)" "pready_each M ps u = Inr t'"
    by (auto simp: pready_each_def checked_def)
  with Cons.IH [of u] pready_marking [of M p r h] t show ?case by (blast intro: marking_trans)
qed

section \<open>The order is irrelevant\<close>

text \<open>A request is determined by its marked partitions, a round's starts by the counts.\<close>

lemma flags_unique:
  assumes "flags_set r" "flags_set r'" "local_parts r' = local_parts r" "marked r' = marked r"
  shows "local_status r' = local_status r"
proof -
  obtain xs ys where xs: "local_status r = filled xs" "int (length xs) = local_parts r"
    and ys: "local_status r' = filled ys" "int (length ys) = local_parts r"
    using assms(1-3) by (auto simp: flags_set_def elim!: is_filledE)
  have "xs ! k = ys ! k" if "k < length xs" for k
  proof -
    have "int k \<in> marked r \<longleftrightarrow> xs ! k" "int k \<in> marked r' \<longleftrightarrow> ys ! k"
      using that xs ys by (auto simp: marked_def blk_get_filled_iff)
    with assms(4) show ?thesis by simp
  qed
  with xs ys show ?thesis by (simp add: list_eq_iff_nth_eq)
qed

lemma counters_unique:
  assumes "sender_at h0 R (r, h)" "sender_at h0 R (r', h')" "same_messages r r'"
  shows "internal_status r' = internal_status r"
proof -
  note S = sender_atD [OF assms(1)] and S' = sender_atD [OF assms(2)]
  have len: "length (counters r') = length (counters r)"
    using setup_okD(9) [OF S(1)] setup_okD(9) [OF S'(1)] assms(3) by (simp add: same_messages_def)
  have "counters r ! k = counters r' ! k" if k: "k < length (counters r)" for k
  proof -
    have i: "0 \<le> int k" "int k < parts r" using k setup_okD(9) [OF S(1)] by auto
    with round_atD(1) [OF S(4) i] round_atD(1) [OF S'(4), of "int k"] assms(3)
    show ?thesis by (simp add: same_messages_def)
  qed
  with len have "counters r' = counters r" by (simp add: list_eq_iff_nth_eq)
  then show ?thesis using setup_okD(8) [OF S(1)] setup_okD(8) [OF S'(1)] by metis
qed

lemma mset_starts:
  assumes "\<And>x. starts (map CStart xs) x = starts (map CStart ys) x"
  shows "mset (map CStart xs) = mset (map CStart ys)"
proof -
  have "count (mset xs) x = count (mset ys) x" for x
    using assms [of x] by (simp add: starts_map_CStart count_mset)
  then have "mset xs = mset ys" by (rule multiset_eqI)
  then show ?thesis by simp
qed

lemma same_end:
  assumes at: "sender_at h0 R (r1, h1)" "sender_at h0 R (r2, h2)" "same_messages r r1" "same_messages r r2"
    and m: "marking (r, h) (r1, h1)" "marking (r, h) (r2, h2)" and rq: "request r = filled hs" "int (length hs) = parts r"
  shows "r1 = r2 \<and> mset h1 = mset h2"
proof -
  obtain l1 s1 xs where r1: "r1 = r\<lparr>local_status := l1, internal_status := s1\<rparr>" "h1 = map CStart xs @ h"
      "set xs \<subseteq> {x. \<exists>i. blk_get (request r) i = Inr x}"
    using m(1) by (auto simp: marking_def)
  obtain l2 s2 ys where r2: "r2 = r\<lparr>local_status := l2, internal_status := s2\<rparr>" "h2 = map CStart ys @ h"
      "set ys \<subseteq> {x. \<exists>i. blk_get (request r) i = Inr x}"
    using m(2) by (auto simp: marking_def)
  note S1 = sender_atD [OF at(1)] and S2 = sender_atD [OF at(2)]
  have sm: "same_messages r1 r2" using at(3,4) by (simp add: same_messages_def)
  have "local_status r2 = local_status r1"
    by (rule flags_unique) (use S1(3,8) S2(3,8) sm in \<open>auto simp: same_messages_def\<close>)
  moreover have "internal_status r2 = internal_status r1" by (rule counters_unique [OF at(1,2) sm])
  ultimately have r: "r1 = r2" using r1(1) r2(1) by simp
  have "starts (map CStart xs) x = starts (map CStart ys) x" for x
  proof (cases "x \<in> set hs")
    case True
    then obtain k where k: "k < length hs" "x = hs ! k" by (auto simp: in_set_conv_nth)
    then have "starts h1 x = starts h2 x"
      using round_atD(2) [OF S1(4), of "int k"] round_atD(2) [OF S2(4), of "int k"] r1(1) r2(1) rq by simp
    then show ?thesis by (simp add: r1(2) r2(2))
  next
    case False
    then have "x \<notin> set xs" "x \<notin> set ys" using r1(3) r2(3) rq(1) by (auto simp: blk_get_filled_iff)
    then show ?thesis by (simp add: starts_map_CStart count_list_0_iff)
  qed
  then have "mset (map CStart xs) = mset (map CStart ys)" by (rule mset_starts)
  then have "mset h1 = mset h2" unfolding r1(2) r2(2) by simp
  with r show ?thesis by blast
qed

end
