(* ===== verification/Call_Safety.thy ===== *)
theory Call_Safety
  imports Completion Ready_Order
begin

text \<open>
  Sequences of calls on one request, in any order: as long as the request is set up, the
  configuration is supported and the partition numbers are in range, no call has undefined
  behaviour, whatever MPI answers. The invariant bounds the counters by the number of partitions
  marked so far, since nothing in the code stops a partition from being marked twice.
\<close>

section \<open>Calls\<close>

datatype call =
    DoStart
  | DoPready int
  | DoRange int int
  | DoList "int list"
  | DoParrived int
  | DoTest
  | DoWait

text \<open>One call; its return code and flag are dropped.\<close>

fun api :: "mpi \<Rightarrow> call \<Rightarrow> mpip \<times> hist \<Rightarrow> (mpip \<times> hist) res" where
  "api M DoStart t = bindE (MPIP_Start M t) (\<lambda>(_, t). Inr t)"
| "api M (DoPready p) t = bindE (MPIP_Pready M p t) (\<lambda>(_, t). Inr t)"
| "api M (DoRange low high) t = bindE (MPIP_Pready_range M low high t) (\<lambda>(_, t). Inr t)"
| "api M (DoList ps) t = bindE (MPIP_Pready_list M (int (length ps)) ps t) (\<lambda>(_, t). Inr t)"
| "api M (DoParrived p) t = bindE (MPIP_Parrived M p t) (\<lambda>(_, t). Inr t)"
| "api M DoTest (r, h) = bindE (MPIP_Test M (Some r, h)) (\<lambda>(_, _, ro, h). Inr (the ro, h))"
| "api M DoWait t = bindE (MPIP_Wait M t) (\<lambda>(_, t). Inr t)"

definition calls :: "mpi \<Rightarrow> call list \<Rightarrow> mpip \<times> hist \<Rightarrow> (mpip \<times> hist) res" where
  "calls M = each (api M)"

text \<open>The partitions a call marks, and whether those it names exist.\<close>

fun marks :: "call \<Rightarrow> int list" where
  "marks (DoPready p) = [p]"
| "marks (DoRange low high) = [low..high]"
| "marks (DoList ps) = ps"
| "marks _ = []"

fun in_range :: "int \<Rightarrow> call \<Rightarrow> bool" where
  "in_range lp (DoParrived p) \<longleftrightarrow> 0 \<le> p \<and> p < lp"
| "in_range lp (DoRange low high) \<longleftrightarrow> 0 \<le> low \<and> high < lp"
| "in_range lp c \<longleftrightarrow> set (marks c) \<subseteq> {0..<lp}"

definition weight :: "call list \<Rightarrow> nat" where
  "weight cs = length (concat (map marks cs))"

section \<open>The invariant\<close>

text \<open>\<open>usable k r\<close>: a request between two calls, with at most \<open>k\<close> marks since its last start.\<close>

definition usable :: "nat \<Rightarrow> mpip \<Rightarrow> bool" where
  "usable k r \<longleftrightarrow> setup_ok r \<and> aligned (local_parts r) (parts r) \<and> flags_set r \<and> threaded r \<noteq> RUNNING
     \<and> (\<forall>c\<in>set (counters r). 0 \<le> c \<and> c \<le> int k)"

lemma usableD:
  assumes "usable k r"
  shows "setup_ok r" "aligned (local_parts r) (parts r)" "flags_set r" "threaded r \<noteq> RUNNING"
    "\<And>i. 0 \<le> i \<Longrightarrow> i < parts r \<Longrightarrow> 0 \<le> counters r ! nat i \<and> counters r ! nat i \<le> int k"
  using assms setup_okD(9) [of r] by (auto simp: usable_def nat_less_iff)

lemma usable_mono: "usable k r \<Longrightarrow> k \<le> l \<Longrightarrow> usable l r"
  by (fastforce simp: usable_def)

text \<open>
  The contract every call meets: it returns and keeps what \<open>P\<close> says, or it stops in one of the
  two ways that are not undefined behaviour.
\<close>

definition meets :: "(mpip \<Rightarrow> bool) \<Rightarrow> (mpip \<times> hist) res \<Rightarrow> bool" where
  "meets P x \<longleftrightarrow> (case x of Inl e \<Rightarrow> e = AssertFailed \<or> e = Blocked | Inr (r, h) \<Rightarrow> P r)"

lemma meets_simps [simp]:
  "meets P (Inl e) \<longleftrightarrow> e = AssertFailed \<or> e = Blocked" "meets P (Inr (r, h)) \<longleftrightarrow> P r"
  by (simp_all add: meets_def)

lemma meets_bindE: "meets P m \<Longrightarrow> (\<And>r h. P r \<Longrightarrow> meets Q (f (r, h))) \<Longrightarrow> meets Q (bindE m f)"
  by (cases m) auto

text \<open>The side, the partitioning and the messages stay.\<close>

definition keeps :: "mpip \<Rightarrow> nat \<Rightarrow> mpip \<Rightarrow> bool" where
  "keeps r k r' \<longleftrightarrow> usable k r' \<and> same_messages r r' \<and> side r' = side r"

lemma keepsI: "usable k r' \<Longrightarrow> same_messages r r' \<Longrightarrow> side r' = side r \<Longrightarrow> keeps r k r'"
  by (simp add: keeps_def)

lemma keeps_refl: "usable k r \<Longrightarrow> keeps r k r"
  by (simp add: keeps_def)

lemma keeps_trans: "keeps r k r' \<Longrightarrow> keeps r' l r'' \<Longrightarrow> keeps r l r''"
  by (auto simp: keeps_def intro: same_messages_trans)

lemma meets_keeps: "keeps r k r' \<Longrightarrow> meets (keeps r' l) x \<Longrightarrow> meets (keeps r l) x"
  by (auto simp: meets_def split: sum.splits intro: keeps_trans)

section \<open>Every call keeps it\<close>

lemma start_keeps:
  assumes r: "setup_ok r" "aligned (local_parts r) (parts r)" "threaded r \<noteq> RUNNING" and M: "mpi_succeeds M"
  shows "meets (keeps r 0) (api M DoStart (r, h))"
proof -
  let ?r = "r\<lparr>state := ACTIVE, internal_status := filled (replicate (nat (parts r)) 0),
      local_status := filled (replicate (nat (local_parts r)) False)\<rparr>"
  have "flags_set ?r \<and> marked ?r = {}" using setup_okD(1) [OF r(1)] by (intro flags_set_replicate) auto
  moreover have "setup_ok ?r" using r(1) by (simp add: setup_ok_def)
  ultimately have "keeps r 0 ?r" using r by (auto simp: keeps_def usable_def same_messages_def)
  then show ?thesis using MPIP_Start_eq [OF r(1,3) M, of h] by simp
qed

lemma pready_keeps:
  assumes u: "usable k r" and p: "0 \<le> p" "p < local_parts r" and k: "int k < INT_MAX" and M: "mpi_succeeds M"
  shows "MPIP_Pready M p (r, h) = Inl AssertFailed
    \<or> (\<exists>r' h'. MPIP_Pready M p (r, h) = Inr (MPI_SUCCESS, r', h') \<and> keeps r (Suc k) r')"
proof (cases "side r = SENDER \<and> state r = ACTIVE")
  case True
  note U = usableD [OF u]
  obtain st where st: "blk_set (local_status r) p True = Inr st" "blk_len st = local_parts r"
    "flags_set (r\<lparr>local_status := st\<rparr>)"
    using mark_partition [OF setup_okD(10) [OF U(1)] p] U(3) by auto
  let ?r = "r\<lparr>local_status := st\<rparr>"
  obtain s e where rng: "net_range (local_parts r) (parts r) p = (s, e)" by fastforce
  have se: "0 \<le> s" "e \<le> parts r" using net.rng_in [OF U(2) p] rng by auto
  let ?cs = "bump s e (counters r)"
  have ok: "setup_ok ?r" using U(1) st(2) by (simp add: setup_ok_def)
  have gs: "general_send M p (?r, h) = Inr (?r\<lparr>internal_status := filled ?cs\<rparr>,
      rev (map CStart (fired (net_threshold (local_parts r) (parts r)) s e (counters r) (handles r))) @ h)"
  proof -
    have "0 \<le> counters r ! nat i \<and> counters r ! nat i < INT_MAX" if "s \<le> i" "i < e" for i
      using U(5) [of i] that se k by auto
    then show ?thesis using general_send_eq [OF ok, of p M s e h] U(2) p M rng by simp
  qed
  have "0 \<le> c \<and> c \<le> int (Suc k)" if c: "c \<in> set ?cs" for c
  proof -
    obtain j where j: "j < length (counters r)" "c = ?cs ! j" using c by (auto simp: in_set_conv_nth)
    have "0 \<le> counters r ! j \<and> counters r ! j \<le> int k"
      using U(5) [of "int j"] j(1) setup_okD(9) [OF U(1)] by simp
    with j show ?thesis by (auto simp: nth_bump)
  qed
  moreover have "setup_ok (?r\<lparr>internal_status := filled ?cs\<rparr>)"
    using setup_ok_counters [OF ok, of ?cs] setup_okD(9) [OF U(1)] by simp
  ultimately have "keeps r (Suc k) (?r\<lparr>internal_status := filled ?cs\<rparr>)"
    using U st(3) by (simp add: keeps_def usable_def same_messages_def flags_set_def)
  with True gs st(1) U(4) setup_okD(11) [OF U(1)] show ?thesis by (simp add: MPIP_Pready_def Let_def)
qed (auto simp: MPIP_Pready_def)

lemma pready_each_keeps:
  assumes "usable k r" "set ps \<subseteq> {0..<local_parts r}" "int (k + length ps) \<le> INT_MAX" "mpi_succeeds M"
  shows "meets (keeps r (k + length ps)) (pready_each M ps (r, h))"
  using assms
proof (induction ps arbitrary: k r h)
  case Nil
  then show ?case by (simp add: pready_each_def keeps_refl)
next
  case (Cons p ps)
  have "MPIP_Pready M p (r, h) = Inl AssertFailed
      \<or> (\<exists>r' h'. MPIP_Pready M p (r, h) = Inr (MPI_SUCCESS, r', h') \<and> keeps r (Suc k) r')"
    using Cons.prems by (intro pready_keeps) auto
  then show ?case
  proof (elim disjE exE conjE)
    fix r' h' assume r': "MPIP_Pready M p (r, h) = Inr (MPI_SUCCESS, r', h')" "keeps r (Suc k) r'"
    then have "meets (keeps r' (Suc k + length ps)) (pready_each M ps (r', h'))"
      using Cons.prems by (intro Cons.IH) (auto simp: keeps_def same_messages_def)
    with r' show ?thesis by (simp add: pready_each_def meets_keeps)
  qed (simp add: pready_each_def checked_def)
qed

lemma parrived_keeps:
  assumes u: "usable k r" and p: "0 \<le> p" "p < local_parts r" and M: "mpi_succeeds M"
  shows "meets (keeps r k) (api M (DoParrived p) (r, h))"
proof (cases "side r = RECEIVER")
  case True
  note U = usableD [OF u]
  let ?f = "testall_flag M h (part_handles r p)"
  obtain st where st: "blk_set (local_status r) p (?f \<noteq> 0) = Inr st"
    using blk.put_ok [of p "local_status r"] p setup_okD(10) [OF U(1)] by metis
  have get: "blk_get (local_status r) p = Inr (p \<in> marked r)" by (rule flags_setD [OF U(3) p])
  show ?thesis
  proof (cases "p \<in> marked r")
    case known: True
    then have "MPIP_Parrived M p (r, h) = Inr (1, r, h)"
      using True U get setup_okD(11) [OF U(1)] by (simp add: MPIP_Parrived_def map_recv_buffer_known)
    then show ?thesis using keeps_refl [OF u] by simp
  next
    case False
    then have "MPIP_Parrived M p (r, h) = Inr (?f, r\<lparr>local_status := st\<rparr>, CTestall (part_handles r p) ?f # h)"
      using True U get setup_okD(11) [OF U(1)] map_recv_buffer_test [OF U(1,2) p M _ st] by (simp add: MPIP_Parrived_def)
    moreover obtain xs where "local_status r = filled xs" "int (length xs) = local_parts r"
      using U(3) by (auto simp: flags_set_def elim: is_filledE)
    then have "keeps r k (r\<lparr>local_status := st\<rparr>)"
      using st u by (auto simp: keeps_def usable_def flags_set_def setup_ok_def same_messages_def blk_set_filled_iff)
    ultimately show ?thesis by simp
  qed
qed (cases "side r"; simp add: MPIP_Parrived_def)

lemma test_keeps:
  assumes u: "usable k r" and M: "mpi_succeeds M"
  shows "meets (keeps r k) (api M DoTest (r, h))"
proof (cases "state r")
  case INACTIVE
  then show ?thesis using keeps_refl [OF u] by (simp add: MPIP_Test_inactive)
next
  case ACTIVE
  have "keeps r k r" "keeps r k (r\<lparr>state := INACTIVE\<rparr>)"
    using u by (auto simp: keeps_def usable_def setup_ok_def flags_set_def same_messages_def)
  then show ?thesis using MPIP_Test_eq [OF usableD(1) [OF u] ACTIVE usableD(4) [OF u] M, of h] by simp
qed

lemma wait_keeps:
  assumes u: "usable k r" and M: "mpi_succeeds M"
  shows "meets (keeps r k) (api M DoWait (r, h))"
proof -
  have "keeps r k (r\<lparr>state := INACTIVE\<rparr>)"
    using u by (auto simp: keeps_def usable_def setup_ok_def flags_set_def same_messages_def)
  then show ?thesis
    using MPIP_Wait_eq [OF usableD(1,4) [OF u] M, of h] MPIP_Wait_blocks [OF usableD(1,4) [OF u], of M h]
    by (cases "waitall_ret M h (handles r)") auto
qed

lemma api_keeps:
  assumes u: "usable k r" and c: "in_range (local_parts r) c" "int (k + length (marks c)) \<le> INT_MAX" and M: "mpi_succeeds M"
  shows "meets (keeps r (k + length (marks c))) (api M c (r, h))"
proof (cases c)
  case DoStart
  have "meets (keeps r 0) (api M DoStart (r, h))" using usableD [OF u] M by (intro start_keeps) auto
  then show ?thesis unfolding DoStart meets_def keeps_def
    by (auto split: sum.splits intro: usable_mono)
next
  case (DoPready p)
  with pready_keeps [OF u _ _ _ M, of p h] c show ?thesis by auto
next
  case (DoRange lo hi)
  have "hi < INT_MAX" "set [lo..hi] \<subseteq> {0..<local_parts r}"
    using c(1) DoRange setup_okD(2) [OF usableD(1) [OF u]] by auto
  then have "meets (keeps r (k + length (marks c))) (pready_each M (marks c) (r, h))"
    using c(2) DoRange by (intro pready_each_keeps [OF u _ _ M]) auto
  then show ?thesis
    using DoRange c(1) \<open>hi < INT_MAX\<close> MPIP_Pready_range_each [of lo hi M "(r, h)"]
    by (cases "pready_each M (marks c) (r, h)") auto
next
  case (DoList ps)
  then have "meets (keeps r (k + length (marks c))) (pready_each M (marks c) (r, h))"
    using c by (intro pready_each_keeps [OF u _ _ M]) auto
  then show ?thesis
    using DoList MPIP_Pready_list_each [of M ps "(r, h)"] by (cases "pready_each M (marks c) (r, h)") auto
next
  case (DoParrived p)
  then show ?thesis using parrived_keeps [OF u _ _ M, of p h] c by simp
next
  case DoTest
  then show ?thesis using test_keeps [OF u M, of h] by simp
next
  case DoWait
  then show ?thesis using wait_keeps [OF u M, of h] by simp
qed

lemma calls_keep:
  assumes "usable k r" "\<forall>c\<in>set cs. in_range (local_parts r) c" "int (k + weight cs) \<le> INT_MAX" "mpi_succeeds M"
  shows "meets (keeps r (k + weight cs)) (calls M cs (r, h))"
  using assms
proof (induction cs arbitrary: k r h)
  case Nil
  then show ?case by (simp add: calls_def weight_def keeps_refl)
next
  case (Cons c cs)
  have w: "weight (c # cs) = length (marks c) + weight cs" by (simp add: weight_def)
  have "meets (keeps r (k + length (marks c))) (api M c (r, h))"
    using Cons.prems w by (intro api_keeps) auto
  then have "meets (keeps r (k + weight (c # cs))) (bindE (api M c (r, h)) (each (api M) cs))"
  proof (rule meets_bindE)
    fix q g assume q: "keeps r (k + length (marks c)) q"
    then have "meets (keeps q (k + length (marks c) + weight cs)) (calls M cs (q, g))"
      using Cons.prems w by (intro Cons.IH) (auto simp: keeps_def same_messages_def)
    then show "meets (keeps r (k + weight (c # cs))) (each (api M) cs (q, g))"
      using meets_keeps [OF q] w by (simp add: calls_def add.assoc)
  qed
  then show ?case by (simp add: calls_def)
qed

end
