(* ===== verification/Step_Systems.thy ===== *)
theory Step_Systems
  imports Main
begin

text \<open>
  What the step relations of the development share. \<open>measured_steps\<close>: an invariant \<open>ok\<close>, a measure
  \<open>work\<close> of the steps still to come, and the configurations that are \<open>over\<close>; it is interpreted as
  \<open>round\<close> on \<open>step\<close> (theory \<open>Run_Length\<close>) and as \<open>life\<close> on \<open>life_step\<close> (theory \<open>Lifecycle\<close>).
  \<open>step_map\<close>: a function on configurations that maps steps to steps, a functional simulation;
  it is interpreted as \<open>clear\<close> in theory \<open>Cleared_Flags\<close>. \<open>one_way\<close>: steps that differ can be
  exchanged, so that all runs lead to the same end in the same number of steps; it is interpreted
  as \<open>pair\<close> on the step relation of theory \<open>Benchmarks\<close>.
\<close>

locale measured_steps =
  fixes step :: "'s \<Rightarrow> 's \<Rightarrow> bool"
    and ok :: "'s \<Rightarrow> bool"
    and over :: "'s \<Rightarrow> bool"
    and work :: "'s \<Rightarrow> nat"
  assumes step_ok: "step s s' \<Longrightarrow> ok s \<Longrightarrow> ok s'"
    and step_work: "step s s' \<Longrightarrow> ok s \<Longrightarrow> work s' < work s"
    and progress: "ok s \<Longrightarrow> \<not> over s \<Longrightarrow> \<exists>s'. step s s'"
begin

lemma run_ok: "step\<^sup>*\<^sup>* s s' \<Longrightarrow> ok s \<Longrightarrow> ok s'"
  by (induction rule: rtranclp_induct) (auto intro: step_ok)

text \<open>A run is never longer than the work there is at its beginning.\<close>

lemma run_work: "(step ^^ k) s s' \<Longrightarrow> ok s \<Longrightarrow> k + work s' \<le> work s"
proof (induction k arbitrary: s)
  case (Suc k)
  from Suc.prems(1) obtain t where t: "step s t" "(step ^^ k) t s'" by (blast elim: relpowp_Suc_E2)
  with Suc.IH step_ok step_work [OF t(1)] Suc.prems(2) show ?case by fastforce
qed simp

text \<open>Every run can be continued until it is over.\<close>

lemma run_to_end: "ok s \<Longrightarrow> \<exists>s'. step\<^sup>*\<^sup>* s s' \<and> over s'"
proof (induction "work s" arbitrary: s rule: less_induct)
  case less
  show ?case
  proof (cases "over s")
    case False
    then obtain t where t: "step s t" using progress [OF less.prems] by blast
    then obtain s' where "step\<^sup>*\<^sup>* t s'" "over s'"
      using less.hyps [OF step_work] step_ok less.prems by blast
    with t show ?thesis by (meson converse_rtranclp_into_rtranclp)
  qed blast
qed

end

locale step_map =
  fixes step :: "'s \<Rightarrow> 's \<Rightarrow> bool"
    and abs_step :: "'a \<Rightarrow> 'a \<Rightarrow> bool"
    and abs :: "'s \<Rightarrow> 'a"
  assumes step_abs: "step s s' \<Longrightarrow> abs_step (abs s) (abs s')"
begin

lemma run_abs: "step\<^sup>*\<^sup>* s s' \<Longrightarrow> abs_step\<^sup>*\<^sup>* (abs s) (abs s')"
  by (induction rule: rtranclp_induct) (auto intro: rtranclp.rtrancl_into_rtrancl step_abs)

lemma run_abs_length: "(step ^^ k) s s' \<Longrightarrow> (abs_step ^^ k) (abs s) (abs s')"
  by (induction k arbitrary: s') (auto intro: step_abs)

end

locale one_way =
  fixes step :: "'s \<Rightarrow> 's \<Rightarrow> bool"
  assumes diamond: "step s t \<Longrightarrow> step s u \<Longrightarrow> t = u \<or> (\<exists>v. step t v \<and> step u v)"
begin

text \<open>A first step is never a detour on the way to a configuration without a step.\<close>

lemma first_step:
  "(step ^^ n) s e \<Longrightarrow> step s t \<Longrightarrow> (\<And>x. \<not> step e x) \<Longrightarrow> \<exists>k. n = Suc k \<and> (step ^^ k) t e"
proof (induction n arbitrary: s t)
  case (Suc n)
  from Suc.prems(1) obtain u where u: "step s u" "(step ^^ n) u e" by (blast elim: relpowp_Suc_E2)
  from diamond [OF Suc.prems(2) u(1)] show ?case
  proof
    assume "\<exists>v. step t v \<and> step u v"
    then obtain v where v: "step t v" "step u v" by blast
    with Suc.IH [OF u(2) v(2) Suc.prems(3)] show ?thesis by (auto intro: relpowp_Suc_I2)
  qed (use u in auto)
qed auto

text \<open>If some run ends there, every run ends there, after the same number of steps.\<close>

lemma every_run:
  "(step ^^ m) s t \<Longrightarrow> (step ^^ n) s e \<Longrightarrow> (\<And>x. \<not> step e x) \<Longrightarrow> m \<le> n \<and> (step ^^ (n - m)) t e"
proof (induction m arbitrary: s n)
  case (Suc m)
  from Suc.prems(1) obtain u where u: "step s u" "(step ^^ m) u t" by (blast elim: relpowp_Suc_E2)
  from first_step [OF Suc.prems(2) u(1) Suc.prems(3)] obtain k where k: "n = Suc k" "(step ^^ k) u e" by blast
  with Suc.IH [OF u(2) k(2) Suc.prems(3)] show ?case by simp
qed simp

end

end
