(* ===== verification/Lifecycle.thy ===== *)
theory Lifecycle
  imports Completion Step_Systems
begin

text \<open>
  The first start of a request whose peer decides the partitioning, as an interleaving of the
  user thread, from inside the init function to the return of \<open>MPIP_Start\<close>, with the background
  thread. The steps are the store of \<open>RUNNING\<close> after \<open>pthread_create\<close>, which no lock protects, the
  critical section of \<open>MPIP_Start\<close> and what follows it, the setup by the thread, its catch-up under
  the lock, and its store of \<open>FINISHED\<close> with the release of the lock.
\<close>

section \<open>The two halves of a start and of the catch-up\<close>

text \<open>\<open>MPIP_Start\<close> after its critical section, in which it has read \<open>thread_status\<close>.\<close>

definition start_rest :: "mpi \<Rightarrow> thread_status \<Rightarrow> mpip \<times> hist \<Rightarrow> (int \<times> mpip \<times> hist) res" where
  "start_rest M thread_status = (\<lambda>(r, h).
     if thread_status \<noteq> RUNNING
     then bindE (for_up 0 (parts r) (\<lambda>i r.
            bindE (blk_set (internal_status r) i 0) (\<lambda>st. Inr (r\<lparr>internal_status := st\<rparr>))) r) (\<lambda>r.
          bindE (reset_status r) (\<lambda>r.
          if side r = RECEIVER
          then bindE (blk_slice (request r) 0 (parts r)) (\<lambda>xs.
               bindE (mpi_call M (CStartall xs) h) (\<lambda>h. Inr (MPI_SUCCESS, r, h)))
          else Inr (MPI_SUCCESS, r, h)))
     else Inr (MPI_SUCCESS, r, h))"

lemma MPIP_Start_split:
  "MPIP_Start M (r, h) = bindE (lock_pair r) (\<lambda>_. start_rest M (threaded r) (r\<lparr>state := ACTIVE\<rparr>, h))"
  by (simp add: MPIP_Start_def start_rest_def Let_def)

text \<open>The thread between acquiring and releasing the lock.\<close>

definition catch_up :: "mpi \<Rightarrow> mpip \<times> hist \<Rightarrow> (mpip \<times> hist) res" where
  "catch_up M = (\<lambda>(r, h).
     if side r = RECEIVER \<and> state r = ACTIVE
     then bindE (blk_slice (request r) 0 (parts r)) (\<lambda>xs.
          bindE (mpi_call M (CStartall xs) h) (\<lambda>h. Inr (r, h)))
     else if side r = SENDER \<and> state r = ACTIVE then send_ready M (r, h)
     else Inr (r, h))"

lemma thread_catch_up_split:
  "thread_catch_up M (r, h) = bindE (lock_pair r) (\<lambda>_.
     bindE (catch_up M (r, h)) (\<lambda>(r, h). Inr (r\<lparr>threaded := FINISHED\<rparr>, h)))"
  by (simp add: thread_catch_up_def catch_up_def)

section \<open>Configurations and steps\<close>

text \<open>
  The user thread: inside the init function after \<open>pthread_create\<close>; between init and start; in
  \<open>MPIP_Start\<close> after its critical section; and after \<open>MPIP_Start\<close>. The background thread: before its
  setup; before the lock; holding it with the catch-up done; at its end.
\<close>

datatype user_pc = InInit | Inited | Starting thread_status | Started

datatype thread_pc = ToSetup | ToLock | InLock | Ended

record life =
  lreq :: mpip
  llog :: hist
  luser :: user_pc
  lthread :: thread_pc

inductive life_step :: "mpi \<Rightarrow> life \<Rightarrow> life \<Rightarrow> bool" for M :: mpi where
  store: "luser s = InInit \<Longrightarrow> life_step M s (s\<lparr>lreq := set_running (lreq s), luser := Inited\<rparr>)"
| read_status: "luser s = Inited \<Longrightarrow> lthread s \<noteq> InLock \<Longrightarrow>
    life_step M s (s\<lparr>lreq := (lreq s)\<lparr>state := ACTIVE\<rparr>, luser := Starting (threaded (lreq s))\<rparr>)"
| start: "luser s = Starting st \<Longrightarrow> start_rest M st (lreq s, llog s) = Inr (v, r, h) \<Longrightarrow>
    life_step M s (s\<lparr>lreq := r, llog := h, luser := Started\<rparr>)"
| sync: "lthread s = ToSetup \<Longrightarrow>
    bindE (sync_side M (not_side (side (lreq s))) (lreq s, llog s)) (internal_setup M) = Inr (r, h) \<Longrightarrow>
    life_step M s (s\<lparr>lreq := r, llog := h, lthread := ToLock\<rparr>)"
| catch: "lthread s = ToLock \<Longrightarrow> catch_up M (lreq s, llog s) = Inr (r, h) \<Longrightarrow>
    life_step M s (s\<lparr>lreq := r, llog := h, lthread := InLock\<rparr>)"
| finish: "lthread s = InLock \<Longrightarrow>
    life_step M s (s\<lparr>lreq := (lreq s)\<lparr>threaded := FINISHED\<rparr>, lthread := Ended\<rparr>)"

inductive_cases life_stepE: "life_step M s s'"

abbreviation lives :: "mpi \<Rightarrow> life \<Rightarrow> life \<Rightarrow> bool" where
  "lives M \<equiv> (life_step M)\<^sup>*\<^sup>*"

definition spawned :: "mpip \<Rightarrow> hist \<Rightarrow> life" where
  "spawned r h = \<lparr>lreq = pthread_create r, llog = h, luser = InInit, lthread = ToSetup\<rparr>"

definition both_done :: "life \<Rightarrow> bool" where
  "both_done s \<longleftrightarrow> luser s = Started \<and> lthread s = Ended"

section \<open>The invariant of a receiver\<close>

text \<open>How often the receives have been started since the init function.\<close>

definition started_now :: "life \<Rightarrow> nat" where
  "started_now s = (case lthread s of
      ToSetup \<Rightarrow> 0
    | ToLock \<Rightarrow> 0
    | InLock \<Rightarrow> (if state (lreq s) = ACTIVE then 1 else 0)
    | Ended \<Rightarrow> (case luser s of
          Starting st \<Rightarrow> (if threaded (lreq s) = FINISHED \<and> st = RUNNING then 1 else 0)
        | Started \<Rightarrow> (if threaded (lreq s) = FINISHED then 1 else 0)
        | _ \<Rightarrow> 0))"

text \<open>A prepared receiver whose partner's answer fits.\<close>

definition awaits :: "mpi \<Rightarrow> hist \<Rightarrow> int \<Rightarrow> mpip \<Rightarrow> bool" where
  "awaits M h n r \<longleftrightarrow> prepared r \<and> (\<exists>sz. fits M (the_meta r) n sz
     \<and> recv_data M h (partner (the_meta r)) sync_tag (comm (the_meta r)) = Some (n, sz))"

definition life_inv :: "mpi \<Rightarrow> hist \<Rightarrow> int \<Rightarrow> life \<Rightarrow> bool" where
  "life_inv M h0 n s \<longleftrightarrow>
     side (lreq s) = RECEIVER
     \<and> (state (lreq s) = ACTIVE \<longleftrightarrow> luser s \<noteq> InInit \<and> luser s \<noteq> Inited)
     \<and> (luser s \<noteq> InInit \<and> lthread s \<noteq> Ended \<longrightarrow> threaded (lreq s) = RUNNING)
     \<and> (lthread s = Ended \<longrightarrow> threaded (lreq s) = FINISHED \<or> luser s \<noteq> InInit \<and> threaded (lreq s) = RUNNING)
     \<and> (\<forall>st. luser s = Starting st \<longrightarrow> st = RUNNING \<or> st = FINISHED \<and> lthread s = Ended \<and> threaded (lreq s) = FINISHED)
     \<and> (if lthread s = ToSetup then awaits M h0 n (lreq s) \<and> llog s = h0
        else setup_ok (lreq s) \<and> parts (lreq s) = n
          \<and> (\<forall>x\<in>set (handles (lreq s)). starts (llog s) x = starts h0 x + started_now s))"

lemma life_invD:
  assumes "life_inv M h0 n s"
  shows "side (lreq s) = RECEIVER" "state (lreq s) = ACTIVE \<longleftrightarrow> luser s \<noteq> InInit \<and> luser s \<noteq> Inited"
    "luser s \<noteq> InInit \<Longrightarrow> lthread s \<noteq> Ended \<Longrightarrow> threaded (lreq s) = RUNNING"
    "lthread s = Ended \<Longrightarrow> threaded (lreq s) = FINISHED \<or> luser s \<noteq> InInit \<and> threaded (lreq s) = RUNNING"
    "luser s = Starting st \<Longrightarrow> st = RUNNING \<or> st = FINISHED \<and> lthread s = Ended \<and> threaded (lreq s) = FINISHED"
    "lthread s = ToSetup \<Longrightarrow> awaits M h0 n (lreq s) \<and> llog s = h0"
    "lthread s \<noteq> ToSetup \<Longrightarrow> setup_ok (lreq s) \<and> parts (lreq s) = n
      \<and> (\<forall>x\<in>set (handles (lreq s)). starts (llog s) x = starts h0 x + started_now s)"
  using assms by (auto simp: life_inv_def split: if_splits)

lemma start_rest_running [simp]: "start_rest M RUNNING (r, h) = Inr (MPI_SUCCESS, r, h)"
  by (simp add: start_rest_def)

lemma start_rest_finished:
  assumes "setup_ok r" "side r = RECEIVER" "state r = ACTIVE" "threaded r = FINISHED" "mpi_succeeds M"
  shows "\<exists>cs ls. start_rest M FINISHED (r, h)
      = Inr (MPI_SUCCESS, r\<lparr>internal_status := cs, local_status := ls\<rparr>, CStartall (handles r) # h)
    \<and> setup_ok (r\<lparr>internal_status := cs, local_status := ls\<rparr>)"
proof -
  have "r\<lparr>state := ACTIVE\<rparr> = r" using assms(3) by simp
  then have "start_rest M FINISHED (r, h) = MPIP_Start M (r, h)"
    using MPIP_Start_split [of M r h] setup_okD(11) [OF assms(1)] assms(4) by simp
  moreover have "setup_ok (r\<lparr>internal_status := filled (replicate (nat (parts r)) 0),
      local_status := filled (replicate (nat (local_parts r)) False)\<rparr>)"
    using assms(1) by (simp add: setup_ok_def)
  ultimately show ?thesis using MPIP_Start_eq [of r M h] assms \<open>r\<lparr>state := ACTIVE\<rparr> = r\<close> by auto
qed

lemma catch_up_receiver:
  assumes "setup_ok r" "side r = RECEIVER" "mpi_succeeds M"
  shows "catch_up M (r, h) = Inr (r, (if state r = ACTIVE then [CStartall (handles r)] else []) @ h)"
  using assms handles_slice [OF assms(1)] by (simp add: catch_up_def)

lemma life_setup_eq:
  assumes "awaits M h n r" "mpi_succeeds M" "fresh_handles M"
  shows "\<exists>xs sz. bindE (sync_side M (not_side (side r)) (r, h)) (internal_setup M)
      = Inr (with_messages n sz xs r, thread_setup_log M r n sz xs h) \<and> setup_ok (with_messages n sz xs r)"
  using thread_setup_eq [of r M n _ h] assms unfolding awaits_def by blast

lemma life_inv_step:
  assumes step: "life_step M s s'" and I: "life_inv M h0 n s" and M: "mpi_succeeds M" "fresh_handles M"
  shows "life_inv M h0 n s'"
  using step
proof cases
  case store
  then show ?thesis using I
    by (auto simp: life_inv_def set_running_def awaits_def prepared_def setup_ok_def started_now_def split: thread_pc.splits)
next
  case read_status
  then show ?thesis using I
    by (auto simp: life_inv_def awaits_def prepared_def setup_ok_def started_now_def split: thread_pc.splits)
next
  case (start st v r h)
  note D = life_invD [OF I]
  show ?thesis
  proof (cases "st = RUNNING")
    case True
    with start have "r = lreq s" "h = llog s" by auto
    with True start I show ?thesis
      by (auto simp: life_inv_def started_now_def split: thread_pc.splits)
  next
    case False
    with D(5) start have st: "st = FINISHED" "lthread s = Ended" "threaded (lreq s) = FINISHED" by auto
    then have ok: "setup_ok (lreq s)" "state (lreq s) = ACTIVE" using D(2,7) start by auto
    obtain cs ls where "r = (lreq s)\<lparr>internal_status := cs, local_status := ls\<rparr>" "h = CStartall (handles (lreq s)) # llog s"
      "setup_ok r"
      using start_rest_finished [OF ok(1) D(1) ok(2) st(3) M(1), of "llog s"] start(3) st(1) by auto
    then show ?thesis using st ok D(1,7) start setup_okD(7) [OF ok(1)]
      by (auto simp: life_inv_def started_now_def count_list_distinct)
  qed
next
  case (sync r h)
  note D = life_invD [OF I]
  obtain xs sz where r: "r = with_messages n sz xs (lreq s)" "h = thread_setup_log M (lreq s) n sz xs h0" "setup_ok r"
    using life_setup_eq [of M h0 n "lreq s"] D(6) sync M by auto
  then show ?thesis using sync D
    by (auto simp: life_inv_def started_now_def with_messages_def)
next
  case (catch r h)
  note D = life_invD [OF I]
  have ok: "setup_ok (lreq s)" using D(7) catch by auto
  have "r = lreq s" "h = (if state (lreq s) = ACTIVE then [CStartall (handles (lreq s))] else []) @ llog s"
    using catch_up_receiver [OF ok D(1) M(1), of "llog s"] catch(3) by auto
  then show ?thesis using catch D setup_okD(7) [OF ok]
    by (auto simp: life_inv_def started_now_def count_list_distinct)
next
  case finish
  note D = life_invD [OF I]
  show ?thesis using finish D
    by (cases "luser s") (auto simp: life_inv_def started_now_def setup_ok_def)
qed

lemma life_inv_start:
  assumes "awaits M h n r" "side r = RECEIVER" "state r = INACTIVE"
  shows "life_inv M h n (spawned r h)"
  using assms by (simp add: life_inv_def spawned_def pthread_create_def awaits_def prepared_def)

section \<open>No order gets stuck, and which order starts what\<close>

lemma life_progress:
  assumes I: "life_inv M h0 n s" and d: "\<not> both_done s" and M: "mpi_succeeds M" "fresh_handles M"
  shows "\<exists>s'. life_step M s s'"
proof -
  note D = life_invD [OF I]
  consider "luser s = InInit" | "lthread s = InLock" | "luser s = Inited" "lthread s \<noteq> InLock"
    | st where "luser s = Starting st" | "luser s = Started" "lthread s \<noteq> InLock"
    by (cases "luser s") auto
  then show ?thesis
  proof cases
    case 1
    then show ?thesis by (intro exI, rule life_step.store)
  next
    case 2
    then show ?thesis by (intro exI, rule life_step.finish)
  next
    case 3
    then show ?thesis by (intro exI, rule life_step.read_status)
  next
    case (4 st)
    show ?thesis
    proof (cases "st = RUNNING")
      case True
      then show ?thesis using life_step.start [OF 4, of M MPI_SUCCESS "lreq s" "llog s"] by auto
    next
      case False
      with D(5) [OF 4] have st: "st = FINISHED" "lthread s = Ended" "threaded (lreq s) = FINISHED" by auto
      then have "setup_ok (lreq s)" "state (lreq s) = ACTIVE" using D(2,7) 4 by auto
      from start_rest_finished [OF this(1) D(1) this(2) st(3) M(1), of "llog s"] st(1)
      show ?thesis using life_step.start [OF 4] by blast
    qed
  next
    case 5
    then consider "lthread s = ToSetup" | "lthread s = ToLock" using d by (cases "lthread s") (auto simp: both_done_def)
    then show ?thesis
    proof cases
      case 1
      from life_setup_eq [of M h0 n "lreq s"] D(6) [OF 1] M show ?thesis using life_step.sync [OF 1] by fastforce
    next
      case 2
      then have "setup_ok (lreq s)" using D(7) by simp
      from catch_up_receiver [OF this D(1) M(1), of "llog s"] show ?thesis using life_step.catch [OF 2] by blast
    qed
  qed
qed

text \<open>Each thread takes three steps.\<close>

fun user_steps :: "user_pc \<Rightarrow> nat" where
  "user_steps InInit = 3"
| "user_steps Inited = 2"
| "user_steps (Starting st) = 1"
| "user_steps Started = 0"

fun thread_steps :: "thread_pc \<Rightarrow> nat" where
  "thread_steps ToSetup = 3"
| "thread_steps ToLock = 2"
| "thread_steps InLock = 1"
| "thread_steps Ended = 0"

lemma life_steps_left:
  "life_step M s s' \<Longrightarrow>
   user_steps (luser s) + thread_steps (lthread s) = Suc (user_steps (luser s') + thread_steps (lthread s'))"
  by (erule life_stepE) auto

definition in_life :: "mpi \<Rightarrow> hist \<Rightarrow> int \<Rightarrow> life \<Rightarrow> bool" where
  "in_life M h0 n s \<longleftrightarrow> life_inv M h0 n s \<and> mpi_succeeds M \<and> fresh_handles M"

interpretation life: measured_steps "life_step M" "in_life M h0 n" both_done
    "\<lambda>s. user_steps (luser s) + thread_steps (lthread s)" for M h0 n
proof
  fix s s' assume "life_step M s s'" "in_life M h0 n s"
  then show "in_life M h0 n s'" "user_steps (luser s') + thread_steps (lthread s') < user_steps (luser s) + thread_steps (lthread s)"
    using life_steps_left [of M s s'] by (auto simp: in_life_def intro: life_inv_step)
qed (auto simp: in_life_def intro: life_progress)

lemma life_inv_reaches:
  "lives M s s' \<Longrightarrow> life_inv M h n s \<Longrightarrow> mpi_succeeds M \<Longrightarrow> fresh_handles M \<Longrightarrow> life_inv M h n s'"
  using life.run_ok [of M s s' h n] by (simp add: in_life_def)

lemma life_completes:
  "life_inv M h0 n s \<Longrightarrow> mpi_succeeds M \<Longrightarrow> fresh_handles M \<Longrightarrow> \<exists>s'. lives M s s' \<and> both_done s'"
  using life.run_to_end [of M h0 n s] by (simp add: in_life_def)

text \<open>
  \<open>in_order\<close>: \<open>RUNNING\<close> was stored before \<open>FINISHED\<close>, or the latter has not been stored yet; \<open>lost\<close>: it
  was, or is going to be, stored after it.
\<close>

definition in_order :: "life \<Rightarrow> bool" where
  "in_order s \<longleftrightarrow> luser s \<noteq> InInit \<and> (lthread s = Ended \<longrightarrow> threaded (lreq s) = FINISHED)"

definition lost :: "life \<Rightarrow> bool" where
  "lost s \<longleftrightarrow> lthread s = Ended \<and> (luser s \<noteq> InInit \<longrightarrow> threaded (lreq s) = RUNNING)"

lemma order_step:
  assumes step: "life_step M s s'" and I: "life_inv M h0 n s" and M: "mpi_succeeds M"
  shows "in_order s \<Longrightarrow> in_order s'" "lost s \<Longrightarrow> lost s'"
proof -
  note D = life_invD [OF I]
  have "threaded r = threaded (lreq s)" if "luser s = Starting st" "start_rest M st (lreq s, llog s) = Inr (v, r, h)" for st v r h
  proof (cases "st = RUNNING")
    case False
    with D(5) that have st: "st = FINISHED" "lthread s = Ended" "threaded (lreq s) = FINISHED" by auto
    then have "setup_ok (lreq s)" "state (lreq s) = ACTIVE" using D(2,7) that by auto
    from start_rest_finished [OF this(1) D(1) this(2) st(3) M, of "llog s"] that st(1) show ?thesis by auto
  qed (use that in auto)
  with step show "in_order s \<Longrightarrow> in_order s'" "lost s \<Longrightarrow> lost s'"
    by (auto elim!: life_stepE simp: in_order_def lost_def set_running_def)
qed

lemma order_reaches:
  assumes "lives M s s'" "life_inv M h0 n s" "mpi_succeeds M" "fresh_handles M"
  shows "(in_order s \<longrightarrow> in_order s') \<and> (lost s \<longrightarrow> lost s')"
  using assms(1,2)
proof (induction rule: rtranclp_induct)
  case (step t u)
  have "life_inv M h0 n t" by (rule life_inv_reaches [OF step.hyps(1) step.prems assms(3,4)])
  with step order_step [OF step.hyps(2) _ assms(3)] show ?case by blast
qed simp

text \<open>When \<open>MPIP_Start\<close> has read \<open>RUNNING\<close>, nobody ever writes the ready flags.\<close>

definition flags_kept :: "bool block \<Rightarrow> life \<Rightarrow> bool" where
  "flags_kept b s \<longleftrightarrow> luser s \<in> {Starting RUNNING, Started} \<and> local_status (lreq s) = b"

lemma flags_before_start:
  assumes step: "life_step M s s'" and I: "life_inv M h0 n s" and M: "mpi_succeeds M" "fresh_handles M"
  shows "luser s' \<noteq> Started \<Longrightarrow> local_status (lreq s') = local_status (lreq s)"
    "flags_kept b s \<Longrightarrow> flags_kept b s'"
proof -
  note D = life_invD [OF I]
  have sync: "local_status r = local_status (lreq s)"
    if "lthread s = ToSetup" "bindE (sync_side M (not_side (side (lreq s))) (lreq s, llog s)) (internal_setup M) = Inr (r, h)" for r h
    using life_setup_eq [of M h0 n "lreq s"] D(6) that M by (auto simp: with_messages_def)
  have catch: "r = lreq s" if "lthread s = ToLock" "catch_up M (lreq s, llog s) = Inr (r, h)" for r h
    using catch_up_receiver [OF _ D(1) M(1), of "llog s"] D(7) that by auto
  show "luser s' \<noteq> Started \<Longrightarrow> local_status (lreq s') = local_status (lreq s)"
    using step sync catch by (auto elim!: life_stepE simp: set_running_def)
  show "flags_kept b s \<Longrightarrow> flags_kept b s'"
    using step sync catch by (auto elim!: life_stepE simp: set_running_def flags_kept_def)
qed

lemma flags_reaches:
  assumes "lives M s s'" "life_inv M h0 n s" "mpi_succeeds M" "fresh_handles M"
  shows "(luser s' \<noteq> Started \<longrightarrow> local_status (lreq s') = local_status (lreq s)) \<and> (flags_kept b s \<longrightarrow> flags_kept b s')"
  using assms(1,2)
proof (induction rule: rtranclp_induct)
  case (step t u)
  have I: "life_inv M h0 n t" by (rule life_inv_reaches [OF step.hyps(1) step.prems assms(3,4)])
  have "luser u \<noteq> Started \<Longrightarrow> luser t \<noteq> Started" using step.hyps(2) by (auto elim: life_stepE)
  with step flags_before_start [OF step.hyps(2) I assms(3,4)] show ?case by auto
qed simp

section \<open>Where it ends\<close>

lemma ended_in_order:
  assumes "life_inv M h n t" "both_done t" "in_order t"
  shows "threaded (lreq t) = FINISHED" "\<forall>x\<in>set (handles (lreq t)). starts (llog t) x = Suc (starts h x)"
  using assms by (auto simp: life_inv_def both_done_def in_order_def started_now_def)

lemma ended_lost:
  assumes "life_inv M h n t" "both_done t" "lost t"
  shows "\<forall>x\<in>set (handles (lreq t)). starts (llog t) x = starts h x"
    "MPIP_Parrived M p (lreq t, k) = Inr (0, lreq t, k)"
    "MPIP_Test M (Some (lreq t), k) = Inr (MPI_SUCCESS, 0, Some (lreq t), k)"
proof -
  have t: "setup_ok (lreq t)" "side (lreq t) = RECEIVER" "threaded (lreq t) = RUNNING" "state (lreq t) = ACTIVE"
    using assms by (auto simp: life_inv_def both_done_def lost_def)
  show "\<forall>x\<in>set (handles (lreq t)). starts (llog t) x = starts h x"
    using assms t(3) by (auto simp: life_inv_def both_done_def started_now_def)
  show "MPIP_Parrived M p (lreq t, k) = Inr (0, lreq t, k)"
    using t setup_okD(11) [OF t(1)] by (simp add: MPIP_Parrived_def)
  show "MPIP_Test M (Some (lreq t), k) = Inr (MPI_SUCCESS, 0, Some (lreq t), k)"
    using t setup_okD(11) [OF t(1)] by (intro MPIP_Test_running) auto
qed

lemma ended_uninit:
  assumes "life_inv M h n t" "both_done t" "in_order t" "local_status (lreq t) = blk_malloc l" "0 \<le> p" "p < l"
  shows "MPIP_Parrived M p (lreq t, k) = Inl (Undefined UninitRead)"
proof -
  have "setup_ok (lreq t)" "side (lreq t) = RECEIVER" "threaded (lreq t) = FINISHED"
    using assms(1-3) by (auto simp: life_inv_def both_done_def in_order_def)
  then show ?thesis
    using assms(4-6) setup_okD(11) [of "lreq t"]
    by (simp add: MPIP_Parrived_def map_recv_buffer_def blk_malloc_def nat_less_iff)
qed

end
