(* ===== verification/Round_Properties.thy ===== *)
theory Round_Properties
  imports Examples Unaligned Call_Safety Lifecycle
begin

text \<open>
  The properties of a round as the calls of one user thread: what the \<open>MPIP_Pready\<close> functions
  send, what the catch-up of the background thread sends, what \<open>MPIP_Parrived\<close>, \<open>MPIP_Test\<close>,
  \<open>MPIP_Wait\<close> and \<open>MPIP_Request_free\<close> do, and what goes wrong in the configurations and orders of
  calls the library does not handle.
\<close>

section \<open>Sending\<close>

lemma start_pready_list:
  assumes ok: "setup_ok r" "aligned (local_parts r) (parts r)" "side r = SENDER" "threaded r \<noteq> RUNNING"
    and ps: "distinct ps" "set ps \<subseteq> {0..<local_parts r}" and M: "mpi_succeeds M"
  shows "\<exists>r' h'. bindE (MPIP_Start M (r, h)) (\<lambda>(_, t). MPIP_Pready_list M (int (length ps)) ps t)
      = Inr (MPI_SUCCESS, r', h') \<and> sender_at h (set ps) (r', h') \<and> same_messages r r'"
proof -
  obtain r1 where r1: "MPIP_Start M (r, h) = Inr (MPI_SUCCESS, r1, h)" "sender_at h {} (r1, h)" "same_messages r r1"
    using start_sender [OF ok M] by blast
  then obtain r2 h2 where "MPIP_Pready_list M (int (length ps)) ps (r1, h) = Inr (MPI_SUCCESS, r2, h2)"
    "sender_at h (set ps) (r2, h2)" "same_messages r1 r2"
    using pready_list_sender [OF r1(2) ps(1) _ _ M] ps(2) by (auto simp: same_messages_def)
  with r1 show ?thesis by (auto intro: same_messages_trans)
qed

text \<open>
  C3: after a start, marking any partitions in any order starts exactly the messages all of
  whose partitions are marked, that is, whose every element belongs to a marked partition, each
  of them once; no message leaves with data that is not ready, and none that is ready waits.
\<close>

theorem ready_messages_started_once:
  assumes ok: "setup_ok r" "aligned (local_parts r) (parts r)" "side r = SENDER" "threaded r \<noteq> RUNNING"
    and sz: "parts r * psize r = local_parts r * local_size r" "0 < local_size r"
    and ps: "distinct ps" "set ps \<subseteq> {0..<local_parts r}" and M: "mpi_succeeds M"
    and i: "0 \<le> i" "i < parts r"
  shows "\<exists>r' h'. bindE (MPIP_Start M (r, h)) (\<lambda>(_, t). MPIP_Pready_list M (int (length ps)) ps t)
      = Inr (MPI_SUCCESS, r', h')
    \<and> starts h' (handles r ! nat i) = starts h (handles r ! nat i)
        + (if \<forall>p. 0 \<le> p \<and> p < local_parts r \<and> shares_data (local_size r) (psize r) p i \<longrightarrow> p \<in> set ps then 1 else 0)"
proof -
  obtain r' h' where r': "bindE (MPIP_Start M (r, h)) (\<lambda>(_, t). MPIP_Pready_list M (int (length ps)) ps t)
      = Inr (MPI_SUCCESS, r', h')" "sender_at h (set ps) (r', h')" "same_messages r r'"
    using start_pready_list [OF ok ps M] by blast
  have "deps (local_parts r) (parts r) i \<subseteq> set ps
      \<longleftrightarrow> (\<forall>p. 0 \<le> p \<and> p < local_parts r \<and> shares_data (local_size r) (psize r) p i \<longrightarrow> p \<in> set ps)"
    using deps_iff_shares_data [OF ok(2) sz _ _ i] by (auto simp: deps_def)
  with round_atD(2) [OF sender_atD(4) [OF r'(2)], of i] r'(3) i
  have "starts h' (handles r ! nat i) = starts h (handles r ! nat i)
        + (if \<forall>p. 0 \<le> p \<and> p < local_parts r \<and> shares_data (local_size r) (psize r) p i \<longrightarrow> p \<in> set ps then 1 else 0)"
    by (simp add: same_messages_def)
  with r'(1) show ?thesis by blast
qed

theorem ready_messages_started_once_witness:
  "\<exists>r' h'. bindE (MPIP_Start mpi_done (demo SENDER 4 2\<lparr>psize := 2\<rparr>, [])) (\<lambda>(_, t). MPIP_Pready_list mpi_done 3 [3, 1, 2] t)
      = Inr (MPI_SUCCESS, r', h') \<and> starts h' 1 = 1"
proof -
  let ?r = "demo SENDER 4 2\<lparr>psize := 2\<rparr>"
  have "setup_ok ?r" using demo_setup_ok [of 4 2 SENDER] by (simp add: setup_ok_def)
  moreover have "local_size ?r = 1" by (simp add: demo_def)
  moreover have "p \<in> set [3, 1, 2]" if "0 \<le> p" "p < 4" "shares_data 1 2 p 1" for p :: int
  proof -
    have "p \<noteq> 0" using that(3) by (auto simp: shares_data_def)
    then have "p = 1 \<or> p = 2 \<or> p = 3" using that by linarith
    then show ?thesis by auto
  qed
  ultimately show ?thesis
    using ready_messages_started_once [of ?r "[3, 1, 2]" mpi_done 1 "[]"] by (auto simp: aligned_def numeral_2_eq_2)
qed

text \<open>One whole round of a sender, and a sequence of rounds.\<close>

definition sender_round :: "mpi \<Rightarrow> int list \<Rightarrow> mpip \<times> hist \<Rightarrow> (mpip \<times> hist) res" where
  "sender_round M ps t =
     bindE (MPIP_Start M t) (\<lambda>(_, t).
     bindE (MPIP_Pready_list M (int (length ps)) ps t) (\<lambda>(_, t).
     bindE (MPIP_Wait M t) (\<lambda>(_, t). Inr t)))"

fun sender_rounds :: "mpi \<Rightarrow> int list list \<Rightarrow> mpip \<times> hist \<Rightarrow> (mpip \<times> hist) res" where
  "sender_rounds M [] t = Inr t"
| "sender_rounds M (ps # pss) t = bindE (sender_round M ps t) (sender_rounds M pss)"

lemma sender_round_all:
  assumes ok: "setup_ok r" "aligned (local_parts r) (parts r)" "side r = SENDER" "threaded r \<noteq> RUNNING"
    and ps: "distinct ps" "set ps = {0..<local_parts r}"
    and M: "mpi_succeeds M" "\<And>h xs. waitall_ret M h xs"
  shows "\<exists>r' h'. sender_round M ps (r, h) = Inr (r', h') \<and> setup_ok r' \<and> same_messages r r'
    \<and> side r' = SENDER \<and> threaded r' \<noteq> RUNNING \<and> state r' = INACTIVE
    \<and> (\<forall>i. 0 \<le> i \<and> i < parts r \<longrightarrow> starts h' (handles r ! nat i) = Suc (starts h (handles r ! nat i)))"
proof -
  obtain r1 h1 where r1: "bindE (MPIP_Start M (r, h)) (\<lambda>(_, t). MPIP_Pready_list M (int (length ps)) ps t)
      = Inr (MPI_SUCCESS, r1, h1)" "sender_at h (set ps) (r1, h1)" "same_messages r r1"
    using start_pready_list [OF ok ps(1) eq_refl [OF ps(2)] M(1)] by blast
  note S = sender_atD [OF r1(2)]
  have w: "MPIP_Wait M (r1, h1) = Inr (MPI_SUCCESS, r1\<lparr>state := INACTIVE\<rparr>, CWaitall (handles r1) # h1)"
    using MPIP_Wait_eq [OF S(1,7) M(1,2)] .
  have "deps (local_parts r) (parts r) i \<subseteq> set ps" for i unfolding ps(2) deps_def by force
  then have "starts h1 (handles r ! nat i) = Suc (starts h (handles r ! nat i))" if "0 \<le> i" "i < parts r" for i
    using round_atD(2) [OF S(4) that(1)] r1(3) that(2) by (simp add: same_messages_def)
  moreover have "setup_ok (r1\<lparr>state := INACTIVE\<rparr>)" using S(1) by (simp add: setup_ok_def)
  moreover have "sender_round M ps (r, h) = Inr (r1\<lparr>state := INACTIVE\<rparr>, CWaitall (handles r1) # h1)"
  proof -
    have "sender_round M ps (r, h)
        = bindE (bindE (MPIP_Start M (r, h)) (\<lambda>(_, t). MPIP_Pready_list M (int (length ps)) ps t))
            (\<lambda>(_, t). bindE (MPIP_Wait M t) (\<lambda>(_, t). Inr t))"
      by (simp add: sender_round_def bindE_assoc split_def)
    then show ?thesis by (simp add: r1(1) w)
  qed
  ultimately show ?thesis using r1(3) S by (simp add: same_messages_def)
qed

text \<open>
  A request can be used for any number of rounds: if each round marks every partition once,
  in an order of its own, and the waits return, then every message is started once per round.
\<close>

lemma rounds_send_once_each:
  assumes ok: "setup_ok r" "aligned (local_parts r) (parts r)" "side r = SENDER" "threaded r \<noteq> RUNNING"
    and pss: "\<forall>ps\<in>set pss. distinct ps \<and> set ps = {0..<local_parts r}"
    and M: "mpi_succeeds M" "\<And>h xs. waitall_ret M h xs"
  shows "\<exists>r' h'. sender_rounds M pss (r, h) = Inr (r', h') \<and> setup_ok r' \<and> same_messages r r'
    \<and> (\<forall>i. 0 \<le> i \<and> i < parts r \<longrightarrow> starts h' (handles r ! nat i) = starts h (handles r ! nat i) + length pss)"
  using ok pss
proof (induction pss arbitrary: r h)
  case (Cons ps pss)
  obtain r1 h1 where r1: "sender_round M ps (r, h) = Inr (r1, h1)" "setup_ok r1" "same_messages r r1"
    "side r1 = SENDER" "threaded r1 \<noteq> RUNNING"
    "\<forall>i. 0 \<le> i \<and> i < parts r \<longrightarrow> starts h1 (handles r ! nat i) = Suc (starts h (handles r ! nat i))"
    using sender_round_all [OF Cons.prems(1-4) _ _ M, of ps h] Cons.prems(5) by auto
  then obtain r2 h2 where "sender_rounds M pss (r1, h1) = Inr (r2, h2)" "setup_ok r2" "same_messages r1 r2"
    "\<forall>i. 0 \<le> i \<and> i < parts r \<longrightarrow> starts h2 (handles r ! nat i) = starts h1 (handles r ! nat i) + length pss"
    using Cons.IH [of r1 h1] Cons.prems by (auto simp: same_messages_def)
  with r1 show ?case by (auto intro: same_messages_trans)
qed (simp add: same_messages_def)

lemma rounds_send_once_each_witness:
  "\<exists>r' h'. sender_rounds mpi_done [[1, 0], [0, 1]] (demo SENDER 2 4, []) = Inr (r', h') \<and> starts h' 3 = 2"
proof -
  have "waitall_ret mpi_done h xs" for h xs by (simp add: mpi_run_def list_all_iff)
  moreover have "setup_ok (demo SENDER 2 4)" by (simp add: demo_setup_ok)
  moreover have "{0..<2} = {0, 1 :: int}" by auto
  ultimately obtain r' h' where "sender_rounds mpi_done [[1, 0], [0, 1]] (demo SENDER 2 4, []) = Inr (r', h')"
    "\<forall>i. 0 \<le> i \<and> i < 4 \<longrightarrow> starts h' ([0..<4] ! nat i) = starts [] ([0..<4] ! nat i) + 2"
    using rounds_send_once_each [of "demo SENDER 2 4" "[[1, 0], [0, 1]]" mpi_done "[]"]
    by (auto simp: aligned_def insert_commute simp del: sender_rounds.simps)
  then show ?thesis by (auto dest: spec [of _ 3] simp del: sender_rounds.simps)
qed

text \<open>
  C12: \<open>MPIP_Pready\<close> implements the abstract operation: the partition joins the ready ones, and
  the messages it completes, no others, leave.
\<close>

theorem pready_refines_spec:
  assumes "sender_at h0 R (r, h)" "0 \<le> p" "p < local_parts r" "p \<notin> R" "mpi_succeeds M"
  shows "\<exists>r' h'. MPIP_Pready M p (r, h) = Inr (MPI_SUCCESS, r', h') \<and> sender_at h0 (insert p R) (r', h')
    \<and> abs_sender h0 (r', h') = spec_pready (local_parts r) (parts r) p (abs_sender h0 (r, h))"
  using pready_sender [OF assms] abs_sender_pready [OF assms(1)] by metis

theorem pready_refines_spec_witness:
  "\<exists>r' h'. MPIP_Pready mpi_done 1 (demo SENDER 4 2, []) = Inr (MPI_SUCCESS, r', h')
    \<and> abs_sender [] (r', h') = spec_pready 4 2 1 (abs_sender [] (demo SENDER 4 2, []))"
  using pready_refines_spec [of "[]" "{}" "demo SENDER 4 2" "[]" 1 mpi_done] demo_sender_at [of 4 2 "[]"]
  by (auto simp: aligned_def)

text \<open>
  \<open>MPIP_Pready_range\<close> is \<open>MPIP_Pready_list\<close> of the partitions of the range, both bounds
  included, in every state: same results, same errors, same calls in the same order.
\<close>

lemma pready_range_is_list:
  assumes "INT_MIN \<le> low" "high < INT_MAX"
  shows "MPIP_Pready_range M low high t = MPIP_Pready_list M (int (length [low..high])) [low..high] t"
  by (simp only: MPIP_Pready_range_each [OF assms] MPIP_Pready_list_each)

lemma pready_range_is_list_witness:
  "MPIP_Pready_range mpi_done 1 3 (demo SENDER 4 2, []) = MPIP_Pready_list mpi_done 3 [1, 2, 3] (demo SENDER 4 2, [])"
proof -
  have l: "[1..3] = [1, 2, 3 :: int]" by (simp add: upto_rec1)
  from pready_range_is_list [of 1 3 mpi_done "(demo SENDER 4 2, [])"] show ?thesis unfolding l by simp
qed

text \<open>
  C24: the order in which partitions are marked does not matter: two lists of the same partitions
  leave the same request, and the same calls have been made, in whatever order.
\<close>

theorem ready_order_irrelevant:
  assumes at: "sender_at h0 R (r, h)" and ps: "distinct ps" "set ps \<subseteq> {0..<local_parts r}" "set ps \<inter> R = {}"
    and qs: "distinct qs" "set qs = set ps" and M: "mpi_succeeds M"
  shows "\<exists>r' h1 h2. MPIP_Pready_list M (int (length ps)) ps (r, h) = Inr (MPI_SUCCESS, r', h1)
    \<and> MPIP_Pready_list M (int (length qs)) qs (r, h) = Inr (MPI_SUCCESS, r', h2) \<and> mset h1 = mset h2"
proof -
  obtain r1 h1 where 1: "MPIP_Pready_list M (int (length ps)) ps (r, h) = Inr (MPI_SUCCESS, r1, h1)"
    "sender_at h0 (R \<union> set ps) (r1, h1)" "same_messages r r1" using pready_list_sender [OF at ps M] by blast
  obtain r2 h2 where 2: "MPIP_Pready_list M (int (length qs)) qs (r, h) = Inr (MPI_SUCCESS, r2, h2)"
    "sender_at h0 (R \<union> set ps) (r2, h2)" "same_messages r r2"
    using pready_list_sender [OF at qs(1) _ _ M] ps(2,3) qs(2) by auto
  have m: "marking (r, h) (r1, h1)" "marking (r, h) (r2, h2)"
    using 1(1) 2(1) by (auto simp: MPIP_Pready_list_each intro: pready_each_marking)
  have "r1 = r2 \<and> mset h1 = mset h2"
    using setup_okD(5,6) [OF sender_atD(1) [OF at]] by (intro same_end [OF 1(2) 2(2) 1(3) 2(3) m]) auto
  with 1(1) 2(1) show ?thesis by blast
qed

theorem ready_order_irrelevant_witness:
  "\<exists>r' h1 h2. MPIP_Pready_list mpi_done 3 [0, 1, 2] (demo SENDER 4 2, []) = Inr (MPI_SUCCESS, r', h1)
    \<and> MPIP_Pready_list mpi_done 3 [2, 0, 1] (demo SENDER 4 2, []) = Inr (MPI_SUCCESS, r', h2) \<and> mset h1 = mset h2"
proof -
  have "sender_at [] {} (demo SENDER 4 2, [])" by (rule demo_sender_at) (simp add: aligned_def)
  from ready_order_irrelevant [OF this, of "[0, 1, 2]" "[2, 0, 1]" mpi_done] show ?thesis by auto
qed

section \<open>Any calls\<close>

text \<open>
  C7: on a request that is set up, with counts of which one divides the other, any sequence of calls
  that begins with a start and names existing partitions, fewer than \<open>2 ^ 31\<close> of them in all, has
  no undefined behaviour, on either side and whatever flags MPI answers with: it returns a
  well-formed request with the same messages, or it stops in an assertion or in a blocking wait.
\<close>

theorem calls_are_safe:
  assumes r: "setup_ok r" "aligned (local_parts r) (parts r)" "threaded r \<noteq> RUNNING"
    and cs: "\<forall>c\<in>set cs. in_range (local_parts r) c" "int (weight cs) \<le> INT_MAX" and M: "mpi_succeeds M"
  shows "case calls M (DoStart # cs) (r, h) of
      Inl e \<Rightarrow> e = AssertFailed \<or> e = Blocked
    | Inr (r', h') \<Rightarrow> setup_ok r' \<and> flags_set r' \<and> same_messages r r' \<and> side r' = side r \<and> threaded r' \<noteq> RUNNING"
proof -
  have "meets (keeps r (weight cs)) (bindE (api M DoStart (r, h)) (calls M cs))"
  proof (rule meets_bindE [OF start_keeps [OF r M]])
    fix q g assume q: "keeps r 0 q"
    then have "meets (keeps q (0 + weight cs)) (calls M cs (q, g))"
      using cs M by (intro calls_keep) (auto simp: keeps_def same_messages_def)
    then show "meets (keeps r (weight cs)) (calls M cs (q, g))" using meets_keeps [OF q] by simp
  qed
  then show ?thesis
    by (auto simp: calls_def meets_def keeps_def usable_def split: sum.splits)
qed

theorem calls_are_safe_witness:
  "case calls mpi_pending [DoStart, DoPready 3, DoPready 3, DoTest, DoRange 0 2, DoParrived 1, DoWait] (demo SENDER 4 2, []) of
      Inl e \<Rightarrow> e = AssertFailed \<or> e = Blocked
    | Inr (r', h') \<Rightarrow> setup_ok r'"
proof -
  have "setup_ok (demo SENDER 4 2)" by (simp add: demo_setup_ok)
  moreover have "weight [DoPready 3, DoPready 3, DoTest, DoRange 0 2, DoParrived 1, DoWait] = 5"
    by (simp add: weight_def upto_rec1)
  ultimately show ?thesis
    using calls_are_safe [of "demo SENDER 4 2" "[DoPready 3, DoPready 3, DoTest, DoRange 0 2, DoParrived 1, DoWait]" mpi_pending "[]"]
    by (auto simp: aligned_def split: sum.splits)
qed

section \<open>Marking before and after the setup\<close>

text \<open>
  Partitions marked while the setup is still going on are sent by the catch-up of the
  background thread, those marked afterwards by their own \<open>MPIP_Pready\<close>: together exactly the
  messages all of whose partitions are marked start, once each. The ready flags have to be
  initialised: \<open>catch_up_reads_uninitialised\<close> is about the case where they are not.
\<close>

lemma ready_before_or_after_setup:
  assumes w: "waiting_sender M h r n" "flags_set r" and m: "marked r = {}" and M: "mpi_succeeds M" "fresh_handles M"
    and ps: "distinct (ps @ qs)" "set (ps @ qs) \<subseteq> {0..<local_parts r}"
  shows "\<exists>r1 r2 h2 r3 h3. MPIP_Pready_list M (int (length ps)) ps (r, h) = Inr (MPI_SUCCESS, r1, h)
    \<and> run_thread M (r1, h) = Inr (r2, h2)
    \<and> MPIP_Pready_list M (int (length qs)) qs (r2, h2) = Inr (MPI_SUCCESS, r3, h3) \<and> parts r3 = n
    \<and> (\<forall>i. 0 \<le> i \<and> i < n \<longrightarrow> starts h3 (handles r3 ! nat i) = starts h (handles r3 ! nat i)
          + (if deps (local_parts r) n i \<subseteq> set (ps @ qs) then 1 else 0))"
proof -
  obtain sz where r: "held r" "sync_thread r = Spawned" "flags_set r" "aligned (local_parts r) n"
    "fits M (the_meta r) n sz" "recv_data M h (partner (the_meta r)) sync_tag (comm (the_meta r)) = Some (n, sz)"
    using w by (auto simp: waiting_sender_def delayed_def)
  obtain st where st: "MPIP_Pready_list M (int (length ps)) ps (r, h) = Inr (MPI_SUCCESS, r\<lparr>local_status := st\<rparr>, h)"
    "held (r\<lparr>local_status := st\<rparr>)" "marked (r\<lparr>local_status := st\<rparr>) = set ps" "flags_set (r\<lparr>local_status := st\<rparr>)"
    using pready_list_held [OF r(1), of ps M h] ps(2) r(3) m by auto
  obtain r2 h2 where r2: "run_thread M (r\<lparr>local_status := st\<rparr>, h) = Inr (r2, h2)" "sender_at h (set ps) (r2, h2)"
    "parts r2 = n" "local_parts r2 = local_parts r"
    using run_thread_sender [of "r\<lparr>local_status := st\<rparr>" n M sz h] st r M by (auto simp: delayed_def)
  obtain r3 h3 where r3: "MPIP_Pready_list M (int (length qs)) qs (r2, h2) = Inr (MPI_SUCCESS, r3, h3)"
    "sender_at h (set ps \<union> set qs) (r3, h3)" "same_messages r2 r3"
  proof -
    have "distinct qs" "set qs \<subseteq> {0..<local_parts r2}" "set qs \<inter> set ps = {}" using ps r2(4) by auto
    from pready_list_sender [OF r2(2) this M(1)] show thesis using that by blast
  qed
  have "starts h3 (handles r3 ! nat i) = starts h (handles r3 ! nat i)
      + (if deps (local_parts r) n i \<subseteq> set (ps @ qs) then 1 else 0)" if "0 \<le> i" "i < n" for i
    using round_atD(2) [OF sender_atD(4) [OF r3(2)] that(1)] r3(3) r2(3,4) that(2) by (simp add: same_messages_def)
  with st(1) r2(1,3) r3(1,3) show ?thesis
    by (intro exI [of _ "r\<lparr>local_status := st\<rparr>"] exI [of _ r2] exI [of _ h2] exI [of _ r3] exI [of _ h3])
      (auto simp: same_messages_def)
qed

lemma ready_before_or_after_setup_witness:
  "\<exists>r1 r2 h2 r3 h3. MPIP_Pready_list (mpi_answers 2 1) 2 [3, 0] (demo_waiting SENDER 4, []) = Inr (MPI_SUCCESS, r1, [])
    \<and> run_thread (mpi_answers 2 1) (r1, []) = Inr (r2, h2)
    \<and> MPIP_Pready_list (mpi_answers 2 1) 1 [1] (r2, h2) = Inr (MPI_SUCCESS, r3, h3) \<and> parts r3 = 2
    \<and> (\<forall>i. 0 \<le> i \<and> i < 2 \<longrightarrow> starts h3 (handles r3 ! nat i) = (if deps 4 2 i \<subseteq> {3, 0, 1} then 1 else 0))"
proof -
  have "waiting_sender (mpi_answers 2 1) [] (demo_waiting SENDER 4) 2"
    by (rule demo_waiting_sender) (simp_all add: aligned_def)
  from ready_before_or_after_setup [OF this _ _ mpi_run_succeeds mpi_run_fresh, of "[3, 0]" "[1]"]
  show ?thesis using demo_waiting_delayed(2,3,5) [of 4] by simp
qed

text \<open>
  The init functions leave the ready flags uninitialised, and a start while the background
  thread runs does not reset them. Unless every partition has been marked before the thread
  scans the flags, the scan reads an uninitialised one: the thread's run has no defined outcome.
\<close>

lemma catch_up_reads_uninitialised:
  assumes n: "0 < n" "n \<le> INT_MAX" and i: "info_get M i ''PMODE'' 20 = Some ''RECEIVER''"
    and ft: "fits M \<lparr>buff = buf, partner = peer, tag = tg, comm = cm, mtype = ty\<rparr> k sz"
    and M: "mpi_succeeds M" "fresh_handles M"
    and rd: "recv_data M (CInfoGet i ''PMODE'' # h) peer sync_tag cm = Some (k, sz)"
    and ps: "set ps \<subseteq> {0..<n}" "set ps \<noteq> {0..<n}"
  shows "\<exists>q. bindE (MPIP_Psend_init M buf n cnt ty peer tg cm (Info i) (r, h)) (\<lambda>t.
        bindE (MPIP_Start M t) (\<lambda>(_, t). MPIP_Pready_list M (int (length ps)) ps t))
      = Inr (MPI_SUCCESS, q, CInfoGet i ''PMODE'' # h)
    \<and> delayed q \<and> (\<forall>t. run_thread M (q, CInfoGet i ''PMODE'' # h) \<noteq> Inr t)"
proof -
  let ?h = "CInfoGet i ''PMODE'' # h" and ?p = "prepped SENDER buf n cnt ty peer tg cm r"
  let ?q = "(set_running (pthread_create ?p))\<lparr>state := ACTIVE\<rparr>"
  have "MPIP_Psend_init M buf n cnt ty peer tg cm (Info i) (r, h) = Inr (set_running (pthread_create ?p), ?h)"
    using init_request_eq [of SENDER M buf n cnt ty peer tg cm "Info i" r h]
      sync_driver_side [where d = RECEIVER, of M i ?p h] i by (simp add: init_request_def mode_of_def)
  moreover have "MPIP_Start M (set_running (pthread_create ?p), ?h) = Inr (MPI_SUCCESS, ?q, ?h)"
    by (intro MPIP_Start_running) (simp_all add: set_running_def pthread_create_def)
  moreover have q: "held ?q" "sync_thread ?q = Spawned" "local_parts ?q = n"
    "the_meta ?q = \<lparr>buff = buf, partner = peer, tag = tg, comm = cm, mtype = ty\<rparr>"
    using prepped_prepared [OF n, of SENDER buf cnt ty peer tg cm r]
    by (simp_all add: held_def prepared_def set_running_def pthread_create_def)
  moreover obtain st where st: "MPIP_Pready_list M (int (length ps)) ps (?q, ?h)
      = Inr (MPI_SUCCESS, ?q\<lparr>local_status := st\<rparr>, ?h)" "held (?q\<lparr>local_status := st\<rparr>)"
    "\<forall>p. p \<notin> set ps \<longrightarrow> blk_get st p = blk_get (local_status ?q) p"
    using pready_list_held [OF q(1), of ps M ?h] ps(1) q(3) by auto
  moreover from ps obtain p where "p \<in> {0..<n}" "p \<notin> set ps" by blast
  then have p: "p \<notin> set ps" "0 \<le> p" "p < n" by auto
  have "blk_get (local_status ?q) p = Inl (Undefined UninitRead)"
    using p n by (simp add: set_running_def pthread_create_def prepped_def prep_def blk_malloc_def nat_less_iff)
  then have "blk_get st p = Inl (Undefined UninitRead)" using st(3) p(1) by metis
  then have "run_thread M (?q\<lparr>local_status := st\<rparr>, ?h) \<noteq> Inr t" for t
    using run_thread_uninit [of "?q\<lparr>local_status := st\<rparr>" M k sz ?h p] st(2) q ft M rd p by (simp add: delayed_def)
  ultimately show ?thesis by (simp add: delayed_def)
qed

lemma catch_up_reads_uninitialised_witness:
  "\<exists>q. \<forall>t. run_thread (mpi_run (\<lambda>j k. Some ''RECEIVER'') (Some (2, 10)) (\<lambda>h x. True)) (q, [CInfoGet 0 ''PMODE'']) \<noteq> Inr t"
proof -
  let ?M = "mpi_run (\<lambda>j k. Some ''RECEIVER'') (Some (2, 10)) (\<lambda>h x. True)"
  have "fits ?M \<lparr>buff = 0, partner = 1, tag = 7, comm = 0, mtype = 0\<rparr> 2 10" by (simp add: fits_def)
  moreover have "set [0 :: int] \<subseteq> {0..<4}" "set [0 :: int] \<noteq> {0..<4}"
  proof -
    have "(1 :: int) \<in> {0..<4}" "(1 :: int) \<notin> set [0]" by simp_all
    then show "set [0 :: int] \<noteq> {0..<4}" by metis
  qed simp
  ultimately show ?thesis
    using catch_up_reads_uninitialised [of 4 ?M 0 0 1 7 0 0 2 10 "[]" "[0]" 5 blank] by auto
qed

section \<open>Receiving\<close>

text \<open>
  C19: the first start of a receiver whose background thread has just been created, in every
  interleaving of the two threads. No order gets stuck. If \<open>RUNNING\<close> is stored before \<open>FINISHED\<close>,
  then in the end every message has been started once, by the user or by the thread; if not, none
  has, and \<open>MPIP_Parrived\<close> and \<open>MPIP_Test\<close> answer 0 for ever. If \<open>MPIP_Start\<close> came before the
  end of the setup, no partition's ready flag was ever written: every \<open>MPIP_Parrived\<close> reads
  uninitialised memory.
\<close>

theorem receiver_start_in_any_order:
  assumes r: "awaits M h n r" "side r = RECEIVER" "state r = INACTIVE" "local_status r = blk_malloc (local_parts r)"
    and M: "mpi_succeeds M" "fresh_handles M" and run: "lives M (spawned r h) s"
  shows "(\<exists>t. lives M s t \<and> both_done t)
    \<and> (\<forall>t. lives M s t \<longrightarrow> both_done t \<longrightarrow>
        (in_order s \<longrightarrow> threaded (lreq t) = FINISHED
           \<and> (\<forall>x\<in>set (handles (lreq t)). starts (llog t) x = Suc (starts h x)))
      \<and> (lost s \<longrightarrow> (\<forall>x\<in>set (handles (lreq t)). starts (llog t) x = starts h x)
           \<and> (\<forall>p k. MPIP_Parrived M p (lreq t, k) = Inr (0, lreq t, k)
                  \<and> MPIP_Test M (Some (lreq t), k) = Inr (MPI_SUCCESS, 0, Some (lreq t), k)))
      \<and> (luser s = Starting RUNNING \<longrightarrow> lthread s \<noteq> Ended \<longrightarrow>
           (\<forall>p k. 0 \<le> p \<and> p < local_parts r \<longrightarrow> MPIP_Parrived M p (lreq t, k) = Inl (Undefined UninitRead))))"
proof -
  have I0: "life_inv M h n (spawned r h)" by (rule life_inv_start [OF r(1-3)])
  have I: "life_inv M h n s" by (rule life_inv_reaches [OF run I0 M])
  show ?thesis
  proof (intro conjI allI impI)
    show "\<exists>t. lives M s t \<and> both_done t" by (rule life_completes [OF I M])
  next
    fix t assume t: "lives M s t" "both_done t" and o: "in_order s"
    from ended_in_order [OF life_inv_reaches [OF t(1) I M] t(2)] order_reaches [OF t(1) I M] o
    show "threaded (lreq t) = FINISHED"
      "\<forall>x\<in>set (handles (lreq t)). starts (llog t) x = Suc (starts h x)" by auto
  next
    fix t assume t: "lives M s t" "both_done t" and o: "lost s"
    from ended_lost [OF life_inv_reaches [OF t(1) I M] t(2)] order_reaches [OF t(1) I M] o
    show "\<forall>x\<in>set (handles (lreq t)). starts (llog t) x = starts h x"
      "MPIP_Parrived M p (lreq t, k) = Inr (0, lreq t, k)"
      "MPIP_Test M (Some (lreq t), k) = Inr (MPI_SUCCESS, 0, Some (lreq t), k)" for p k by auto
  next
    fix t p k assume t: "lives M s t" "both_done t" and o: "luser s = Starting RUNNING" "lthread s \<noteq> Ended"
      and p: "0 \<le> p \<and> p < local_parts r"
    have "local_status (lreq s) = local_status r"
      using flags_reaches [OF run I0 M] o(1) by (simp add: spawned_def pthread_create_def)
    then have "flags_kept (local_status r) s" using o by (simp add: flags_kept_def)
    then have "local_status (lreq t) = local_status r" using flags_reaches [OF t(1) I M] by (auto simp: flags_kept_def)
    moreover have "in_order s" using o by (simp add: in_order_def)
    then have "in_order t" using order_reaches [OF t(1) I M] by blast
    ultimately show "MPIP_Parrived M p (lreq t, k) = Inl (Undefined UninitRead)"
      using ended_uninit [OF life_inv_reaches [OF t(1) I M] t(2)] p r(4) by simp
  qed
qed

theorem receiver_start_in_any_order_witness:
  "\<exists>t. lives (mpi_answers 2 1) (spawned ((demo_plan RECEIVER 4 1 4 7)\<lparr>state := INACTIVE, local_status := blk_malloc 4\<rparr>) []) t
     \<and> both_done t"
proof -
  let ?r = "(demo_plan RECEIVER 4 1 4 7)\<lparr>state := INACTIVE, local_status := blk_malloc 4\<rparr>" and ?M = "mpi_answers 2 1"
  have m: "the_meta ?r = demo_meta\<lparr>tag := 7\<rparr>" by (simp add: demo_plan_def)
  have "prepared ?r" by (simp add: demo_plan_def demo_def prepared_def blk_malloc_def)
  moreover have "fits ?M (the_meta ?r) 2 1" unfolding m by (rule demo_plan_fits) simp_all
  ultimately have a: "awaits ?M [] 2 ?r" unfolding awaits_def by fastforce
  have l: "local_status ?r = blk_malloc (local_parts ?r)" "side ?r = RECEIVER" "state ?r = INACTIVE"
    by (simp_all add: demo_plan_def)
  from receiver_start_in_any_order [OF a l(2,3,1) mpi_run_succeeds mpi_run_fresh rtranclp.rtrancl_refl]
  show ?thesis by blast
qed

text \<open>
  C20: \<open>MPIP_Parrived\<close> on a started receiver stores 1 only when every message that shares data with
  the partition is complete, stores 1 when they all are, remembers it, and then answers 1 from
  memory without calling MPI.
\<close>

theorem parrived_exact:
  assumes at: "receiver_at (r, h)" and p: "0 \<le> p" "p < local_parts r"
    and sz: "parts r * psize r = local_parts r * local_size r" "0 < local_size r"
    and M: "mpi_succeeds M" "flags_boolean M" "inactive_tests_true M"
  shows "\<exists>f r' h'. MPIP_Parrived M p (r, h) = Inr (f, r', h') \<and> receiver_at (r', h') \<and> same_messages r r'
    \<and> (f = 1 \<longleftrightarrow> (\<forall>i. 0 \<le> i \<and> i < parts r \<and> shares_data (local_size r) (psize r) p i \<longrightarrow> \<not> active h' (handles r ! nat i)))
    \<and> (f = 1 \<longrightarrow> MPIP_Parrived M p (r', h') = Inr (1, r', h'))"
proof -
  note R = receiver_atD [OF at]
  have hd: "(\<forall>x\<in>set (part_handles r p). \<not> active k x)
      \<longleftrightarrow> (\<forall>i. 0 \<le> i \<and> i < parts r \<and> shares_data (local_size r) (psize r) p i \<longrightarrow> \<not> active k (handles r ! nat i))" for k
    using set_part_handles [OF R(1,2) p] deps_iff_shares_data [OF R(2) sz p] by auto
  show ?thesis
  proof (cases "p \<in> marked r")
    case True
    then show ?thesis using parrived_known [OF at True, of M] R(6) [OF True] hd [of h] at by simp
  next
    case False
    let ?f = "testall_flag M h (part_handles r p)"
    let ?h = "CTestall (part_handles r p) ?f # h"
    obtain st where e: "MPIP_Parrived M p (r, h) = Inr (?f, r\<lparr>local_status := st\<rparr>, ?h)"
      and st: "blk_set (local_status r) p (?f \<noteq> 0) = Inr st" using parrived_eq [OF at p False M(1)] by blast
    note Q = parrived_receiver_at [OF at p False st]
    have f: "?f = 0 \<or> ?f = 1" using M(2) by (simp add: flags_boolean_def)
    have "?f = 1 \<longleftrightarrow> (\<forall>x\<in>set (part_handles r p). \<not> active ?h x)"
    proof
      assume "?f = 1" then show "\<forall>x\<in>set (part_handles r p). \<not> active ?h x" by simp
    next
      assume inactive: "\<forall>x\<in>set (part_handles r p). \<not> active ?h x"
      show "?f = 1"
      proof (rule ccontr)
        assume "?f \<noteq> 1"
        with f inactive have "\<forall>x\<in>set (part_handles r p). \<not> active h x" by simp
        with M(3) \<open>?f \<noteq> 1\<close> show False by (simp add: inactive_tests_true_def)
      qed
    qed
    moreover have "?f = 1 \<longrightarrow> MPIP_Parrived M p (r\<lparr>local_status := st\<rparr>, ?h) = Inr (1, r\<lparr>local_status := st\<rparr>, ?h)"
      using Q parrived_known [of "r\<lparr>local_status := st\<rparr>" ?h p M] by auto
    moreover have "same_messages r (r\<lparr>local_status := st\<rparr>)" by (simp add: same_messages_def)
    ultimately show ?thesis using e Q hd [of ?h] by blast
  qed
qed

theorem parrived_exact_witness:
  "\<exists>f r' h'. MPIP_Parrived mpi_done 1 (demo RECEIVER 2 2, [CStartall [0, 1]]) = Inr (f, r', h')
    \<and> (f = 1 \<longrightarrow> MPIP_Parrived mpi_done 1 (r', h') = Inr (1, r', h'))"
proof -
  have "local_size (demo RECEIVER 2 2) = 1" "psize (demo RECEIVER 2 2) = 1" by (simp_all add: demo_def)
  moreover have "receiver_at (demo RECEIVER 2 2, [CStartall [0, 1]])"
    using demo_setup_ok [of 2 2 RECEIVER] demo_flags [of 2 RECEIVER 2] by (simp add: receiver_at_def aligned_def)
  ultimately show ?thesis
    using parrived_exact [of "demo RECEIVER 2 2" "[CStartall [0, 1]]" 1 mpi_done] by auto
qed

section \<open>Completion\<close>

text \<open>
  \<open>MPIP_Test\<close> on an active request whose setup is over stores 1 exactly when none of its
  messages is active any more, and makes the request inactive exactly then; it starts nothing
  and changes nothing else.
\<close>

lemma test_exact:
  assumes r: "setup_ok r" "state r = ACTIVE" "threaded r \<noteq> RUNNING"
    and M: "mpi_succeeds M" "flags_boolean M" "inactive_tests_true M"
  shows "\<exists>f h'. MPIP_Test M (Some r, h) = Inr (MPI_SUCCESS, f, Some (if f = 1 then r\<lparr>state := INACTIVE\<rparr> else r), h')
    \<and> (f = 1 \<longleftrightarrow> (\<forall>x\<in>set (handles r). \<not> active h' x)) \<and> (\<forall>x. starts h' x = starts h x)"
proof -
  let ?f = "testall_flag M h (handles r)"
  have f: "?f = 0 \<or> ?f = 1" using M(2) by (simp add: flags_boolean_def)
  have "?f = 1 \<longleftrightarrow> (\<forall>x\<in>set (handles r). \<not> active (CTestall (handles r) ?f # h) x)"
  proof
    assume "\<forall>x\<in>set (handles r). \<not> active (CTestall (handles r) ?f # h) x"
    then have "?f \<noteq> 1 \<Longrightarrow> \<forall>x\<in>set (handles r). \<not> active h x" using f by simp
    then show "?f = 1" using M(3) by (auto simp: inactive_tests_true_def)
  qed simp
  with MPIP_Test_eq [OF r M(1), of h] show ?thesis by simp
qed

lemma test_exact_witness:
  "\<exists>f h'. MPIP_Test mpi_pending (Some (demo RECEIVER 2 2), [CStart 0])
      = Inr (MPI_SUCCESS, f, Some (if f = 1 then (demo RECEIVER 2 2)\<lparr>state := INACTIVE\<rparr> else demo RECEIVER 2 2), h')
    \<and> (f = 1 \<longleftrightarrow> (\<forall>x\<in>set (handles (demo RECEIVER 2 2)). \<not> active h' x)) \<and> (\<forall>x. starts h' x = starts [CStart 0] x)"
proof -
  have "setup_ok (demo RECEIVER 2 2)" "state (demo RECEIVER 2 2) = ACTIVE" "threaded (demo RECEIVER 2 2) \<noteq> RUNNING"
    by (simp_all add: demo_setup_ok)
  from test_exact [OF this mpi_run_succeeds mpi_run_flags mpi_run_inactive(1)] show ?thesis .
qed

text \<open>
  C23: right after a sender's start none of its messages is active, so \<open>MPIP_Test\<close> and \<open>MPIP_Wait\<close>
  report completion although no partition has been marked and nothing has been sent; the request
  is then inactive, and a later \<open>MPIP_Pready\<close> of the round fails its assertion.
\<close>

theorem completes_before_sending:
  assumes r: "setup_ok r" "aligned (local_parts r) (parts r)" "side r = SENDER" "threaded r \<noteq> RUNNING"
    and idle: "\<forall>x\<in>set (handles r). \<not> active h x"
    and M: "mpi_succeeds M" "inactive_tests_true M" "inactive_waits_return M"
  shows "\<exists>r1 rt ht rw hw. MPIP_Start M (r, h) = Inr (MPI_SUCCESS, r1, h)
    \<and> MPIP_Test M (Some r1, h) = Inr (MPI_SUCCESS, 1, Some rt, ht) \<and> MPIP_Wait M (r1, h) = Inr (MPI_SUCCESS, rw, hw)
    \<and> (\<forall>x. starts ht x = starts h x \<and> starts hw x = starts h x)
    \<and> MPIP_Pready M p (rt, ht) = Inl AssertFailed \<and> MPIP_Pready M p (rw, hw) = Inl AssertFailed"
proof -
  obtain r1 where r1: "MPIP_Start M (r, h) = Inr (MPI_SUCCESS, r1, h)" "sender_at h {} (r1, h)" "same_messages r r1"
    using start_sender [OF r M(1)] by blast
  note S = sender_atD [OF r1(2)]
  have idle1: "\<forall>x\<in>set (handles r1). \<not> active h x" using idle r1(3) by (simp add: same_messages_def)
  then have "testall_flag M h (handles r1) = 1" "waitall_ret M h (handles r1)"
    using M(2,3) by (auto simp: inactive_tests_true_def inactive_waits_return_def)
  then show ?thesis
    using r1(1) MPIP_Test_eq [OF S(1,6,7) M(1), of h] MPIP_Wait_eq [OF S(1,7) M(1), of h]
    by (simp add: MPIP_Pready_def)
qed

theorem completes_before_sending_witness:
  "\<exists>r1 rt ht. MPIP_Start mpi_done (demo SENDER 4 2, []) = Inr (MPI_SUCCESS, r1, [])
    \<and> MPIP_Test mpi_done (Some r1, []) = Inr (MPI_SUCCESS, 1, Some rt, ht) \<and> starts ht 0 = 0
    \<and> MPIP_Pready mpi_done 0 (rt, ht) = Inl AssertFailed"
proof -
  have "setup_ok (demo SENDER 4 2)" by (simp add: demo_setup_ok)
  then show ?thesis
    using completes_before_sending [of "demo SENDER 4 2" "[]" mpi_done 0] by (auto simp: aligned_def)
qed

text \<open>
  C32: \<open>MPIP_Wait\<close> on a sender whose setup has not begun joins the background thread, which sets the
  messages up and starts them; when all partitions had been marked before the call, every message
  has been started once and completed when it returns.
\<close>

theorem wait_joins_and_completes:
  assumes w: "waiting_sender M h r n" "flags_set r" and m: "marked r = {0..<local_parts r}"
    and M: "mpi_succeeds M" "fresh_handles M" "\<And>h xs. waitall_ret M h xs"
  shows "\<exists>r' h'. MPIP_Wait M (r, h) = Inr (MPI_SUCCESS, r', h') \<and> state r' = INACTIVE \<and> threaded r' \<noteq> RUNNING
    \<and> parts r' = n \<and> (\<forall>x\<in>set (handles r'). starts h' x = Suc (starts h x) \<and> \<not> active h' x)"
proof -
  obtain sz where r: "delayed r" "flags_set r" "aligned (local_parts r) n"
    "fits M (the_meta r) n sz" "recv_data M h (partner (the_meta r)) sync_tag (comm (the_meta r)) = Some (n, sz)"
    using w by (auto simp: waiting_sender_def)
  obtain r2 h2 where r2: "run_thread M (r, h) = Inr (r2, h2)" "sender_at h (marked r) (r2, h2)"
    "parts r2 = n" "local_parts r2 = local_parts r"
    using run_thread_sender [OF r(1-4) M(1,2) r(5)] by blast
  note S = sender_atD [OF r2(2)]
  have rr: "lock r = MReady" "threaded r = RUNNING" "sync_thread r = Spawned"
    using r(1) by (auto simp: delayed_def held_def prepared_def)
  have "MPIP_Wait M (r, h) = Inr (MPI_SUCCESS, r2\<lparr>state := INACTIVE\<rparr>, CWaitall (handles r2) # h2)"
    using MPIP_Wait_joins [OF rr r2(1) S(1,7)] MPIP_Wait_eq [OF S(1,7) M(1,3)] by simp
  moreover have "starts h2 x = Suc (starts h x)" if x: "x \<in> set (handles r2)" for x
  proof -
    obtain k where k: "k < length (handles r2)" "x = handles r2 ! k" using x by (auto simp: in_set_conv_nth)
    have "0 \<le> int k" "int k < parts r2" using k(1) setup_okD(6) [OF S(1)] by auto
    moreover have "deps (local_parts r2) (parts r2) i \<subseteq> marked r" for i
      unfolding m deps_def r2(4) by force
    ultimately show ?thesis using round_atD(2) [OF S(4), of "int k"] k(2) by simp
  qed
  ultimately show ?thesis using S(7) r2(3) by simp
qed

theorem wait_joins_and_completes_witness:
  "\<exists>r' h'. MPIP_Wait (mpi_answers 2 1) ((demo_waiting SENDER 2)\<lparr>local_status := filled [True, True]\<rparr>, [])
      = Inr (MPI_SUCCESS, r', h') \<and> (\<forall>x\<in>set (handles r'). starts h' x = 1)"
proof -
  let ?r = "(demo_waiting SENDER 2)\<lparr>local_status := filled [True, True]\<rparr>"
  have l: "local_parts ?r = 2" "blk_len (local_status ?r) = 2" by (simp_all add: demo_waiting_def demo_def)
  have m: "marked ?r = {0..<2}"
  proof (intro set_eqI)
    fix p :: int
    have "p \<in> marked ?r \<longleftrightarrow> 0 \<le> p \<and> p < 2 \<and> [True, True] ! nat p"
      by (simp add: marked_def blk_get_filled_iff)
    moreover have "0 \<le> p \<and> p < 2 \<Longrightarrow> nat p = 0 \<or> nat p = 1" by linarith
    ultimately show "p \<in> marked ?r \<longleftrightarrow> p \<in> {0..<2}" by auto
  qed
  have "delayed (demo_waiting SENDER 2)" by (simp add: demo_waiting_delayed)
  then have "delayed ?r" using l(2) by (simp add: delayed_def held_def prepared_def demo_waiting_def demo_def)
  moreover have fl: "flags_set ?r" using marked_all_flags_set [of ?r] l m by simp
  moreover have "the_meta ?r = demo_meta" by (simp add: demo_waiting_def demo_def)
  ultimately have "waiting_sender (mpi_answers 2 1) [] ?r 2"
    using l(1) demo_fits [of 2 1 "\<lambda>j k. None" "Some (2, 1)" "\<lambda>h x. True"]
    by (auto simp: waiting_sender_def aligned_def)
  moreover have "waitall_ret (mpi_answers 2 1) h xs" for h xs by (simp add: mpi_run_def list_all_iff)
  ultimately show ?thesis
    using wait_joins_and_completes [of "mpi_answers 2 1" "[]" ?r 2] l m fl by auto
qed

section \<open>Freeing\<close>

text \<open>
  C31: \<open>MPIP_Request_free\<close> on a request whose messages exist frees each message once, and the memory
  behind all four pointers of the request, and destroys the mutex. Afterwards a start, a wait and a
  second free are undefined behaviour, and so are a test and a ready mark if the request was
  active, and an arrival test of a receiver.
\<close>

theorem free_releases_everything:
  assumes ok: "setup_ok r" and M: "mpi_succeeds M"
  shows "\<exists>r'. MPIP_Request_free M (r, h) = Inr (MPI_SUCCESS, r', rev (map CFree (handles r)) @ h)
    \<and> distinct (handles r) \<and> issued (rev (map CFree (handles r)) @ h) = issued h - set (handles r)
    \<and> request r' = Freed \<and> local_status r' = Freed \<and> internal_status r' = Freed \<and> comm_data r' = Freed
    \<and> lock r' = MDestroyed
    \<and> (\<forall>k. (\<exists>e. MPIP_Start M (r', k) = Inl (Undefined e)) \<and> (\<exists>e. MPIP_Wait M (r', k) = Inl (Undefined e))
         \<and> (\<exists>e. MPIP_Request_free M (r', k) = Inl (Undefined e))
         \<and> (state r = ACTIVE \<longrightarrow> (\<exists>e. MPIP_Test M (Some r', k) = Inl (Undefined e)))
         \<and> (side r = SENDER \<and> state r = ACTIVE \<longrightarrow> (\<exists>e. MPIP_Pready M p (r', k) = Inl (Undefined e)))
         \<and> (side r = RECEIVER \<longrightarrow> (\<exists>e. MPIP_Parrived M p (r', k) = Inl (Undefined e))))"
proof -
  obtain r' where r': "MPIP_Request_free M (r, h) = Inr (MPI_SUCCESS, r', rev (map CFree (handles r)) @ h)"
    "request r' = Freed" "local_status r' = Freed" "internal_status r' = Freed" "comm_data r' = Freed" "lock r' = MDestroyed"
    using MPIP_Request_free_eq [OF ok M, of h] by blast
  then have same: "parts r' = parts r" "side r' = side r" "state r' = state r" by (auto simp: MPIP_Request_free_def)
  have n: "0 < parts r'" using same setup_okD(3) [OF ok] by simp
  have "issued (rev (map CFree xs) @ h) = issued h - set xs" for xs
    by (induction xs rule: rev_induct) auto
  moreover have "MPIP_Request_free M (r', k) = Inl (Undefined BadPointer)" for k
    using n r'(2) by (simp add: MPIP_Request_free_def for_up_step)
  ultimately show ?thesis
    using r' same setup_okD(7) [OF ok]
    by (intro exI [of _ r']) (auto simp: MPIP_Start_def MPIP_Wait_def MPIP_Test_def MPIP_Pready_def MPIP_Parrived_def lock_pair_def)
qed

theorem free_releases_everything_witness:
  "\<exists>r'. MPIP_Request_free mpi_done (demo SENDER 4 3, [CStart 1]) = Inr (MPI_SUCCESS, r', [CFree 2, CFree 1, CFree 0, CStart 1])
    \<and> (\<exists>e. MPIP_Pready mpi_done 0 (r', []) = Inl (Undefined e))"
proof -
  have "setup_ok (demo SENDER 4 3)" by (simp add: demo_setup_ok)
  from free_releases_everything [OF this, of mpi_done "[CStart 1]" 0] show ?thesis
    by (auto simp: numeral_3_eq_3)
qed

end
