(* ===== verification/Info_Values.thy ===== *)
theory Info_Values
  imports Init
begin

text \<open>
  The values of an info object: a number printed in decimal is what \<open>atoi\<close> reads back, and what
  the keys settle for the number of messages.
\<close>

section \<open>Decimal numbers\<close>

text \<open>What a user stores under \<open>SET\<close>: the digits \<open>sprintf\<close> prints for \<open>%d\<close>.\<close>

definition digit :: "nat \<Rightarrow> char" where
  "digit d = char_of (48 + d)"

fun decimal :: "nat \<Rightarrow> string" where
  "decimal n = (if n < 10 then [digit n] else decimal (n div 10) @ [digit (n mod 10)])"

declare decimal.simps [simp del]

definition is_digit :: "char \<Rightarrow> bool" where
  "is_digit c \<longleftrightarrow> 48 \<le> (of_char c :: nat) \<and> (of_char c :: nat) \<le> 57"

lemma of_char_digit: "d < 10 \<Longrightarrow> (of_char (digit d) :: nat) = 48 + d"
  by (simp add: digit_def)

lemma is_digit_digit [simp]: "d < 10 \<Longrightarrow> is_digit (digit d)"
  by (simp add: is_digit_def of_char_digit)

lemma decimal_digits: "list_all is_digit (decimal n) \<and> decimal n \<noteq> []"
proof (induction n rule: decimal.induct)
  case (1 n)
  then show ?case by (simp add: decimal.simps [of n])
qed

lemma digits_value_append:
  "list_all is_digit s \<Longrightarrow> digits_value acc (s @ t) = digits_value (digits_value acc s) t"
  by (induction acc s rule: digits_value.induct) (auto simp: is_digit_def)

lemma digits_value_digit: "d < 10 \<Longrightarrow> digits_value acc [digit d] = 10 * acc + int d"
proof -
  assume d: "d < 10"
  have "int (of_char (digit d)) = 48 + int d" using of_char_digit [OF d] by simp
  then have "(of_char (digit d) :: int) = 48 + int d" by (simp add: of_nat_of_char)
  with d show ?thesis by (simp add: of_char_digit)
qed

lemma digits_value_decimal: "digits_value 0 (decimal n) = int n"
proof (induction n rule: decimal.induct)
  case (1 n)
  show ?case
  proof (cases "n < 10")
    case True
    then show ?thesis using digits_value_digit [of n 0] by (simp add: decimal.simps [of n] del: digits_value.simps)
  next
    case False
    have "digits_value 0 (decimal n) = 10 * digits_value 0 (decimal (n div 10)) + int (n mod 10)"
      using False decimal_digits [of "n div 10"]
      by (simp add: decimal.simps [of n] digits_value_append digits_value_digit del: digits_value.simps)
    also have "\<dots> = 10 * int (n div 10) + int (n mod 10)" using 1 [OF False] by simp
    also have "\<dots> = int n" by presburger
    finally show ?thesis .
  qed
qed

text \<open>The first character is no white space and no sign.\<close>

lemma atoi_digits:
  assumes "list_all is_digit (c # cs)"
  shows "atoi (c # cs) = chk_int (digits_value 0 (c # cs))"
proof -
  have c: "48 \<le> (of_char c :: nat)" "(of_char c :: nat) \<le> 57" using assms by (auto simp: is_digit_def)
  have "\<not> is_space c" using c by (auto simp: is_space_def)
  moreover have "c \<noteq> CHR ''-''" "c \<noteq> CHR ''+''" using c by auto
  ultimately show ?thesis by (simp add: atoi_def del: digits_value.simps)
qed

lemma atoi_decimal: "int n \<le> INT_MAX \<Longrightarrow> atoi (decimal n) = Inr (int n)"
proof -
  assume n: "int n \<le> INT_MAX"
  obtain c cs where d: "decimal n = c # cs" using decimal_digits [of n] by (cases "decimal n") auto
  have "list_all is_digit (c # cs)" using decimal_digits [of n] unfolding d by blast
  from atoi_digits [OF this] have "atoi (decimal n) = chk_int (digits_value 0 (decimal n))" unfolding d .
  then show ?thesis using n by (simp add: digits_value_decimal)
qed

lemma length_decimal: "n < 10 ^ Suc k \<Longrightarrow> length (decimal n) \<le> Suc k"
proof (induction k arbitrary: n)
  case 0
  then show ?case by (simp add: decimal.simps [of n])
next
  case (Suc k)
  have "length (decimal (n div 10)) \<le> Suc k" using Suc.prems by (intro Suc.IH) (simp add: less_mult_imp_div_less)
  then show ?case by (simp add: decimal.simps [of n])
qed

text \<open>A string of at most nine characters never makes \<open>atoi\<close> overflow.\<close>

lemma digits_value_bounds: "0 \<le> acc \<Longrightarrow> 0 \<le> digits_value acc s \<and> digits_value acc s < (acc + 1) * 10 ^ length s"
proof (induction acc s rule: digits_value.induct)
  case (2 acc c cs)
  show ?case
  proof (cases "48 \<le> (of_char c :: nat) \<and> (of_char c :: nat) \<le> 57")
    case True
    let ?d = "(of_char c :: int) - 48"
    have "(of_char c :: int) = int (of_char c)" by (simp add: of_nat_of_char)
    with True have d: "0 \<le> ?d" "?d \<le> 9" by linarith+
    then have "0 \<le> 10 * acc + ?d" using 2(2) by simp
    note IH = 2(1) [OF True this]
    have "(10 * acc + ?d + 1) * 10 ^ length cs \<le> (10 * (acc + 1)) * (10 :: int) ^ length cs"
      using d by (intro mult_right_mono) simp_all
    also have "\<dots> = (acc + 1) * 10 ^ length (c # cs)" by simp
    finally show ?thesis using IH unfolding digits_value.simps(2) if_P [OF True] by linarith
  next
    case False
    have "1 \<le> (10 :: int) ^ length (c # cs)" by (rule one_le_power) simp
    then have "(acc + 1) * 1 \<le> (acc + 1) * 10 ^ length (c # cs)" using 2(2) by (intro mult_left_mono) simp_all
    moreover have "acc < (acc + 1) * 1" by simp
    ultimately have "acc < (acc + 1) * 10 ^ length (c # cs)" by (rule order.strict_trans2 [rotated])
    with 2(2) show ?thesis unfolding digits_value.simps(2) if_not_P [OF False] by (rule conjI)
  qed
qed simp

lemma digits_value_short:
  assumes "length s \<le> 9"
  shows "0 \<le> digits_value 0 s \<and> digits_value 0 s < 10 ^ 9"
proof -
  have "(10 :: int) ^ length s \<le> 10 ^ 9" using assms by (intro power_increasing) simp_all
  with digits_value_bounds [of 0 s] show ?thesis by simp
qed

lemma atoi_short:
  assumes "length v < 10"
  shows "\<exists>k. atoi v = Inr k \<and> k < 10 ^ 9"
proof (cases "dropWhile is_space v")
  case Nil
  then show ?thesis unfolding atoi_def by (simp del: dropWhile_eq_Nil_conv)
next
  case (Cons c cs)
  have "length (c # cs) < 10" using assms length_dropWhile_le [of is_space v] unfolding Cons by simp
  then have "0 \<le> digits_value 0 cs \<and> digits_value 0 cs < 10 ^ 9"
    "0 \<le> digits_value 0 (c # cs) \<and> digits_value 0 (c # cs) < 10 ^ 9"
    using digits_value_short [of cs] digits_value_short [of "c # cs"] by (simp_all del: digits_value.simps)
  then show ?thesis by (simp add: atoi_def Cons chk_int_def del: digits_value.simps)
qed

section \<open>The number of messages\<close>

text \<open>The number of messages a \<open>SET\<close> value asks for.\<close>

definition clamp_set :: "int \<Rightarrow> int" where
  "clamp_set k = (if k \<le> 0 then 1 else k)"

lemma clamp_set_pos: "0 < clamp_set k"
  by (simp add: clamp_set_def)

text \<open>
  The number an info object settles without the other side, if it does, and the calls that read it.
\<close>

definition settled :: "mpi \<Rightarrow> info \<Rightarrow> int option" where
  "settled M info = (case info of
      MPI_INFO_NULL \<Rightarrow> Some 1
    | Info i \<Rightarrow> (case info_get M i ''PMODE'' 20 of
          None \<Rightarrow> None
        | Some v \<Rightarrow>
            if 10 \<le> length v \<or> v = ''SENDER'' \<or> v = ''RECEIVER'' then None
            else if v = ''HARD''
            then (case info_get M i ''SET'' 20 of
                    None \<Rightarrow> None
                  | Some w \<Rightarrow> if 10 \<le> length w then None
                              else (case atoi w of Inl e \<Rightarrow> None | Inr k \<Rightarrow> Some (clamp_set k)))
            else Some 1))"

definition lookups :: "mpi \<Rightarrow> info \<Rightarrow> hist" where
  "lookups M info = (case info of
      MPI_INFO_NULL \<Rightarrow> []
    | Info i \<Rightarrow> (if info_get M i ''PMODE'' 20 = Some ''HARD'' then [CInfoGet i ''SET''] else []) @ [CInfoGet i ''PMODE''])"

lemma settled_pos: "settled M info = Some k \<Longrightarrow> 0 < k"
  by (auto simp: settled_def clamp_set_pos split: info.splits option.splits if_splits sum.splits)

lemma sync_driver_settled:
  assumes "settled M info = Some k"
  shows "sync_driver M info (r, h) = bindE (sync_hard k r) (\<lambda>r. internal_setup M (r, lookups M info @ h))"
proof (cases info)
  case MPI_INFO_NULL
  with assms show ?thesis by (simp add: settled_def lookups_def sync_driver_null)
next
  case (Info i)
  with assms obtain v where v: "info_get M i ''PMODE'' 20 = Some v" "length v < 10" "v \<notin> {''SENDER'', ''RECEIVER''}"
    by (auto simp: settled_def split: option.splits if_splits)
  show ?thesis
  proof (cases "v = ''HARD''")
    case True
    with assms Info v obtain w j where "info_get M i ''SET'' 20 = Some w" "length w < 10" "atoi w = Inr j" "k = clamp_set j"
      by (auto simp: settled_def split: option.splits if_splits sum.splits)
    with True v Info show ?thesis
      by (simp add: sync_driver_hard lookups_def clamp_set_def)
  next
    case False
    with assms Info v have "k = 1" by (auto simp: settled_def)
    with False v Info show ?thesis by (simp add: sync_driver_unknown lookups_def)
  qed
qed

end
