(* ===== verification/Setup_Properties.thy ===== *)
theory Setup_Properties
  imports Examples Info_Values
begin

text \<open>
  The properties of the construction of a request: the sizes of the messages, the modes of the
  init functions, the agreement of the two sides, and the messages they create.
\<close>

section \<open>The modes\<close>

lemma count_bounds:
  fixes n count :: int
  assumes "0 < n" "0 \<le> count" "n * count \<le> INT_MAX"
  shows "int32_of count = count" "count \<le> INT_MAX"
proof -
  have "1 * count \<le> n * count" using assms by (intro mult_right_mono) auto
  then show "count \<le> INT_MAX" using assms by simp
  then show "int32_of count = count" using assms by (simp add: int32_of_id)
qed

lemma init_settled:
  assumes n: "0 < n" "n \<le> INT_MAX" "0 \<le> count" "n * count \<le> INT_MAX" and k: "settled M info = Some k"
    and ft: "fits M \<lparr>buff = buf, partner = peer, tag = tg, comm = cm, mtype = ty\<rparr> k (n * count div k)"
    and M: "mpi_succeeds M" "fresh_handles M"
  shows "\<exists>q h'. init_request s M buf n count ty peer tg cm info (r, h) = Inr (q, h')
    \<and> set_up M (lookups M info @ h) (prepped s buf n count ty peer tg cm r) q h'
    \<and> parts q = k \<and> parts q * psize q + (n * count) mod k = n * count
    \<and> state q = INACTIVE \<and> threaded q = NONE \<and> (\<forall>x. starts h' x = starts h x)"
proof -
  let ?r = "prepped s buf n count ty peer tg cm r"
  have r: "prepared ?r" "local_size ?r = count" using prepped_prepared n count_bounds [of n count] by auto
  obtain q h' where q: "bindE (sync_hard k ?r) (\<lambda>r. internal_setup M (r, lookups M info @ h)) = Inr (q, h')"
    "set_up M (lookups M info @ h) ?r q h'" "parts q = k" "psize q = n * count div k"
    using hard_setup [OF r(1) settled_pos [OF k], of M "lookups M info @ h"] r(2) n ft M by auto
  have "starts (lookups M info) x = 0" for x by (cases info) (simp_all add: lookups_def)
  with q show ?thesis by (auto simp: init_request_eq sync_driver_settled [OF k] set_up_def)
qed

text \<open>
  C25: without an info object, with a mode that is none of the three, and with \<open>PMODE = HARD\<close>, the
  init functions settle the number of messages themselves: 1, 1, and the value of \<open>SET\<close> or 1 when
  that is not positive. They read the keys, create the messages in index order and start nothing;
  the messages have equal sizes, and what does not divide evenly is left out of all of them.
\<close>

theorem init_settles_count:
  assumes n: "0 < n" "n \<le> INT_MAX" "0 \<le> count" "n * count \<le> INT_MAX" and k: "settled M info = Some k"
    and ft: "fits M \<lparr>buff = buf, partner = peer, tag = tg, comm = cm, mtype = ty\<rparr> k (n * count div k)"
    and M: "mpi_succeeds M" "fresh_handles M"
  shows "\<exists>q h'. init_request s M buf n count ty peer tg cm info (r, h) = Inr (q, h')
    \<and> set_up M (lookups M info @ h) (prepped s buf n count ty peer tg cm r) q h'
    \<and> parts q = k \<and> parts q * psize q + (n * count) mod k = n * count
    \<and> state q = INACTIVE \<and> threaded q = NONE \<and> (\<forall>x. starts h' x = starts h x)"
  using init_settled [OF assms] .

theorem init_settles_count_witness:
  "\<exists>q h'. MPIP_Psend_init (mpi_run (\<lambda>j k. if k = ''PMODE'' then Some ''HARD'' else Some ''3'') None (\<lambda>h x. True))
      0 4 5 0 1 7 0 (Info 0) (blank, []) = Inr (q, h') \<and> parts q = 3 \<and> parts q * psize q + 2 = 20"
proof -
  let ?i = "\<lambda>(j :: nat) k. if k = ''PMODE'' then Some ''HARD'' else Some ''3''"
  let ?M = "mpi_run ?i None (\<lambda>h x. True)"
  have k: "settled ?M (Info 0) = Some 3" by (simp add: settled_def clamp_set_def atoi_def is_space_def)
  have "fits ?M \<lparr>buff = 0, partner = 1, tag = 7, comm = 0, mtype = 0\<rparr> 3 (4 * 5 div 3)" by (simp add: fits_def)
  from init_settles_count [OF _ _ _ _ k this, of SENDER blank "[]"]
  show ?thesis by (auto simp: init_request_def)
qed

text \<open>
  A number of up to nine digits printed in decimal and stored under \<open>SET\<close> is read back, and the
  request gets that many messages.
\<close>

lemma set_value_roundtrip:
  assumes n: "0 < n" "n \<le> INT_MAX" "0 \<le> count" "n * count \<le> INT_MAX" and k: "0 < k" "k < 10 ^ 9"
    and i: "info_get M i ''PMODE'' 20 = Some ''HARD''" "info_get M i ''SET'' 20 = Some (decimal k)"
    and ft: "fits M \<lparr>buff = buf, partner = peer, tag = tg, comm = cm, mtype = ty\<rparr> (int k) (n * count div int k)"
    and M: "mpi_succeeds M" "fresh_handles M"
  shows "atoi (decimal k) = Inr (int k)
    \<and> (\<exists>q h'. init_request s M buf n count ty peer tg cm (Info i) (r, h) = Inr (q, h') \<and> parts q = int k)"
proof -
  let ?r = "prepped s buf n count ty peer tg cm r" and ?h = "lookups M (Info i) @ h"
  have r: "prepared ?r" "local_size ?r = count" using prepped_prepared n count_bounds [of n count] by auto
  have a: "atoi (decimal k) = Inr (int k)" using k(2) by (intro atoi_decimal) simp
  have "length (decimal k) < 10" using length_decimal [of k 8] k(2) by simp
  with i a k(1) have s: "settled M (Info i) = Some (int k)" by (simp add: settled_def clamp_set_def)
  have "\<exists>q h'. bindE (sync_hard (int k) ?r) (\<lambda>r. internal_setup M (r, ?h)) = Inr (q, h') \<and> parts q = int k"
    using hard_setup [OF r(1), of "int k" M ?h] r(2) n ft M k(1) by auto
  with a show ?thesis by (simp add: init_request_eq sync_driver_settled [OF s])
qed

text \<open>
  C26: \<open>internal_setup\<close> creates the messages exactly when the last one's index times size fits in
  \<open>int\<close>, its offset in bytes in \<open>MPI_Aint\<close>, and its tag in \<open>int\<close>; otherwise a signed operation
  overflows. The first bound is the narrow one: it excludes buffers of more than \<open>INT_MAX\<close> elements
  whose offsets in bytes would all be representable.
\<close>

theorem setup_bounds:
  assumes r: "comm_data r = filled [mes]" "0 < parts r" "parts r \<le> INT_MAX" "0 \<le> psize r"
    "0 \<le> type_extent M (mtype mes)" "0 \<le> tag mes" and M: "mpi_succeeds M" "fresh_handles M"
  shows "if (parts r - 1) * psize r \<le> INT_MAX \<and> (parts r - 1) * psize r * type_extent M (mtype mes) < 2 ^ 63
       \<and> tag mes + (parts r - 1) \<le> INT_MAX
    then \<exists>q h'. internal_setup M (r, h) = Inr (q, h') \<and> int (length (handles q)) = parts r
    else internal_setup M (r, h) = Inl (Undefined SignedOverflow)"
proof (cases "fits M mes (parts r) (psize r)")
  case True
  with internal_setup_eq [OF r(1) True M, of h] show ?thesis by (auto simp: fits_def)
next
  case False
  with internal_setup_overflows [OF r(1) M(1) r(2-6) False, of h] r show ?thesis by (auto simp: fits_def)
qed

theorem setup_bounds_witness:
  "internal_setup mpi_done (demo_plan SENDER 4 4 1073741824 7, []) = Inl (Undefined SignedOverflow)
    \<and> (\<exists>q h'. internal_setup mpi_done (demo_plan SENDER 4 2 1073741824 7, []) = Inr (q, h'))"
proof -
  have cd: "comm_data (demo_plan SENDER 4 n 1073741824 7) = filled [demo_meta\<lparr>tag := 7\<rparr>]" for n
    by (simp add: demo_plan_def)
  have "internal_setup mpi_done (demo_plan SENDER 4 4 1073741824 7, []) = Inl (Undefined SignedOverflow)"
    using setup_bounds [OF cd [of 4] _ _ _ _ _ mpi_run_succeeds mpi_run_fresh, where h = "[]"]
    by (simp add: demo_meta_def)
  moreover have "\<exists>q h'. internal_setup mpi_done (demo_plan SENDER 4 2 1073741824 7, []) = Inr (q, h') \<and> int (length (handles q)) = 2"
    using setup_bounds [OF cd [of 2] _ _ _ _ _ mpi_run_succeeds [of _ _ "\<lambda>h x. True"] mpi_run_fresh, where h = "[]"]
    by (simp add: demo_meta_def)
  ultimately show ?thesis by blast
qed

section \<open>The two sides agree\<close>

lemma prepped_finished:
  assumes n: "0 < n" "n \<le> INT_MAX" and i: "info_get M i ''PMODE'' 20 = Some (mode_of d)" and s: "s \<noteq> d"
    and ft: "fits M \<lparr>buff = buf, partner = peer, tag = tg, comm = cm, mtype = ty\<rparr> k sz"
    and M: "mpi_succeeds M" "fresh_handles M"
    and rd: "recv_data M (CInfoGet i ''PMODE'' # h) peer sync_tag cm = Some (k, sz)"
  shows "\<exists>q q' h'. init_request s M buf n count ty peer tg cm (Info i) (r, h) = Inr (q, CInfoGet i ''PMODE'' # h)
    \<and> threaded q = RUNNING \<and> sync_thread q = Spawned \<and> state q = INACTIVE
    \<and> run_thread M (q, CInfoGet i ''PMODE'' # h) = Inr (q', h') \<and> setup_ok q' \<and> threaded q' = FINISHED
    \<and> side q' = s \<and> state q' = INACTIVE \<and> parts q' = k \<and> psize q' = sz \<and> local_parts q' = n
    \<and> (\<forall>x. starts h' x = starts h x)"
proof -
  let ?p = "prepped s buf n count ty peer tg cm r" and ?h = "CInfoGet i ''PMODE'' # h"
  let ?q = "set_running (pthread_create ?p)"
  have q: "prepared ?q" "the_meta ?q = \<lparr>buff = buf, partner = peer, tag = tg, comm = cm, mtype = ty\<rparr>"
    "side ?q = s" "state ?q = INACTIVE" "threaded ?q = RUNNING" "sync_thread ?q = Spawned" "local_parts ?q = n"
    using prepped_prepared [OF n, of s buf count ty peer tg cm r]
    by (simp_all add: set_running_def pthread_create_def prepared_def)
  obtain xs where xs: "threaded_sync_driver M (?q, ?h)
        = thread_catch_up M (with_messages k sz xs ?q, thread_setup_log M ?q k sz xs ?h)"
    "setup_ok (with_messages k sz xs ?q)"
    using threaded_sync_driver_eq [OF q(1) _ M, of k sz ?h] q(2) ft rd by auto
  have "thread_catch_up M (with_messages k sz xs ?q, thread_setup_log M ?q k sz xs ?h)
      = Inr ((with_messages k sz xs ?q)\<lparr>threaded := FINISHED\<rparr>, thread_setup_log M ?q k sz xs ?h)"
    using setup_okD(11) [OF xs(2)] q(4) by (intro thread_catch_up_inactive) (simp_all add: with_messages_def)
  with xs q(6) have run: "run_thread M (?q, ?h)
      = Inr ((with_messages k sz xs ?q)\<lparr>threaded := FINISHED, sync_thread := Exited\<rparr>, thread_setup_log M ?q k sz xs ?h)"
    by (simp add: run_thread_def)
  have init: "init_request s M buf n count ty peer tg cm (Info i) (r, h) = Inr (?q, ?h)"
    using s by (simp add: init_request_eq sync_driver_side [OF i])
  show ?thesis
    by (rule exI [of _ ?q], rule exI, rule exI, intro conjI, rule init, rule q(5), rule q(6), rule q(4), rule run)
      (use xs(2) q in \<open>simp_all add: setup_ok_def with_messages_def\<close>)
qed

text \<open>
  C13: with the same \<open>PMODE\<close> on both sides, the side it names sends its partitioning and creates
  its messages, the other side's init returns at once with the thread running, and once the
  thread has received what was sent both requests have the same number and size of messages.
  The last hypothesis is the delivery of the synchronisation message.
\<close>

theorem sides_agree:
  assumes n: "0 < n" "n \<le> INT_MAX" "0 \<le> count" "count \<le> INT_MAX" and n': "0 < n'" "n' \<le> INT_MAX"
    and i: "info_get M i ''PMODE'' 20 = Some (mode_of d)" "info_get M' j ''PMODE'' 20 = Some (mode_of d)"
    and ft: "fits M \<lparr>buff = buf, partner = peer, tag = tg, comm = cm, mtype = ty\<rparr> n count"
      "fits M' \<lparr>buff = buf', partner = peer', tag = tg, comm = cm, mtype = ty\<rparr> n count"
    and M: "mpi_succeeds M" "fresh_handles M" "mpi_succeeds M'" "fresh_handles M'"
    and snd: "send_ret M [CInfoGet i ''PMODE''] peer sync_tag cm"
    and drv: "init_request d M buf n count ty peer tg cm (Info i) (r, []) = Inr (q, h)"
    and delivery: "\<And>a b p. CSend [a, b] p sync_tag cm \<in> set h \<Longrightarrow>
          recv_data M' [CInfoGet j ''PMODE''] peer' sync_tag cm = Some (a, b)"
  shows "\<exists>q0 q' h'. init_request (not_side d) M' buf' n' count' ty peer' tg cm (Info j) (r', [])
        = Inr (q0, [CInfoGet j ''PMODE''])
    \<and> threaded q0 = RUNNING \<and> run_thread M' (q0, [CInfoGet j ''PMODE'']) = Inr (q', h')
    \<and> setup_ok q \<and> setup_ok q' \<and> threaded q' = FINISHED
    \<and> parts q = n \<and> parts q' = n \<and> psize q = count \<and> psize q' = count"
proof -
  let ?p = "prepped d buf n count ty peer tg cm r"
  have p: "prepared ?p" "local_size ?p = count" "local_parts ?p = n" using prepped_prepared n by (auto simp: int32_of_id)
  have "bindE (sync_side M d (?p, [CInfoGet i ''PMODE''])) (internal_setup M) = Inr (q, h)"
    using drv by (simp add: init_request_eq sync_driver_side [OF i(1)])
  with driver_setup [OF p(1), of d M "[CInfoGet i ''PMODE'']"] p ft(1) snd M(1,2)
  have q: "set_up M (CSend [n, count] peer sync_tag cm # [CInfoGet i ''PMODE'']) ?p q h" "parts q = n" "psize q = count"
    by auto
  then have "CSend [n, count] peer sync_tag cm \<in> set h" by (simp add: set_up_def)
  from delivery [OF this] have rd: "recv_data M' [CInfoGet j ''PMODE''] peer' sync_tag cm = Some (n, count)" .
  with prepped_finished [OF n' i(2) not_side_neq(1) ft(2) M(3,4), of "[]" count' r'] q
  show ?thesis by (auto simp: set_up_def)
qed

theorem sides_agree_witness:
  "\<exists>q h q0 q' h'.
     MPIP_Psend_init (mpi_run (\<lambda>j k. Some ''SENDER'') None (\<lambda>h x. True)) 0 4 5 0 1 7 0 (Info 0) (blank, []) = Inr (q, h)
   \<and> MPIP_Precv_init (mpi_run (\<lambda>j k. Some ''SENDER'') (Some (4, 5)) (\<lambda>h x. True)) 0 2 10 0 0 7 0 (Info 0) (blank, [])
       = Inr (q0, [CInfoGet 0 ''PMODE''])
   \<and> run_thread (mpi_run (\<lambda>j k. Some ''SENDER'') (Some (4, 5)) (\<lambda>h x. True)) (q0, [CInfoGet 0 ''PMODE'']) = Inr (q', h')
   \<and> parts q = 4 \<and> parts q' = 4 \<and> psize q' = 5"
proof -
  let ?i = "\<lambda>(j :: nat) (k :: string). Some ''SENDER''"
  let ?M = "mpi_run ?i None (\<lambda>h x. True)" and ?N = "mpi_run ?i (Some (4, 5)) (\<lambda>h x. True)"
  let ?p = "prepped SENDER 0 4 5 0 1 7 0 blank"
  have ft: "fits ?M \<lparr>buff = 0, partner = 1, tag = 7, comm = 0, mtype = 0\<rparr> 4 5"
    "fits ?N \<lparr>buff = 0, partner = 0, tag = 7, comm = 0, mtype = 0\<rparr> 4 5" by (simp_all add: fits_def)
  have p: "prepared ?p" "local_size ?p = 5" using prepped_prepared [of 4] by (auto simp: int32_of_id)
  obtain q h where q: "bindE (sync_side ?M SENDER (?p, [CInfoGet 0 ''PMODE''])) (internal_setup ?M) = Inr (q, h)"
    "set_up ?M [CSend [4, 5] 1 990 0, CInfoGet 0 ''PMODE''] ?p q h"
    using driver_setup [OF p(1), of SENDER ?M "[CInfoGet 0 ''PMODE'']"] p(2) ft(1) by auto
  then have d: "init_request SENDER ?M 0 4 5 0 1 7 0 (Info 0) (blank, []) = Inr (q, h)"
    by (simp add: init_request_eq sync_driver_side [where d = SENDER] mode_of_def)
  have "CSend [a, b] p' 990 0 \<in> set h \<Longrightarrow> (a, b) = (4, 5)" for a b p'
    using q(2) by (auto simp: set_up_def init_calls_def init_call_def)
  then show ?thesis
    using sides_agree [of 4 5 2 ?M 0 SENDER ?N 0 0 1 7 0 0 0 0 blank q h 10 blank, OF _ _ _ _ _ _ _ _ ft _ _ _ _ _ d] d
    by (fastforce simp: mode_of_def init_request_def)
qed

section \<open>The messages\<close>

lemma internal_setup_log:
  assumes r: "prepared r" "fits M (the_meta r) (parts r) (psize r)" and M: "mpi_succeeds M" "fresh_handles M"
    and e: "internal_setup M (r, []) = Inr (q, h)"
  shows "int (length (handles q)) = parts r" "parts q = parts r"
    "\<And>m x. init_call (side r) m x \<in> set h \<longleftrightarrow>
       (\<exists>i<length (handles q). m = message M (the_meta r) (psize r) (int i) \<and> x = handles q ! i)"
proof -
  obtain q2 h2 where u: "internal_setup M (r, []) = Inr (q2, h2)" "set_up M [] r q2 h2" "parts q2 = parts r" "psize q2 = psize r"
    using internal_setup_set_up [OF r M, of "[]"] by blast
  with e have s: "set_up M [] r q h" "parts q = parts r" "psize q = psize r" by auto
  then show "int (length (handles q)) = parts r" "parts q = parts r" using set_up_handles by auto
  have h: "set h = insert (CTypeExtent (mtype (the_meta r))) (set (init_calls M (side r) (the_meta r) (psize r) (handles q)))"
    using s by (auto simp: set_up_def)
  show "init_call (side r) m x \<in> set h \<longleftrightarrow>
       (\<exists>i<length (handles q). m = message M (the_meta r) (psize r) (int i) \<and> x = handles q ! i)" for m x
    unfolding h by (auto simp: init_calls_def init_call_def image_iff split: if_splits)
qed

text \<open>
  C17: the messages cover the buffer: every byte of the \<open>parts * size\<close> elements lies in exactly one
  of the messages that \<open>internal_setup\<close> creates.
\<close>

theorem messages_cover_once:
  assumes r: "prepared r" "fits M (the_meta r) (parts r) (psize r)" "0 < psize r" "0 < type_extent M (mtype (the_meta r))"
    and M: "mpi_succeeds M" "fresh_handles M" and e: "internal_setup M (r, []) = Inr (q, h)"
    and b: "0 \<le> b" "b < parts r * psize r * type_extent M (mtype (the_meta r))"
  shows "\<exists>!m. (\<exists>x. init_call (side r) m x \<in> set h) \<and> covers M m (buff (the_meta r)) b"
proof -
  note L = internal_setup_log [OF r(1,2) M e]
  let ?w = "psize r * type_extent M (mtype (the_meta r))"
  let ?i = "nat (b div ?w)"
  have w: "0 < ?w" using r(3,4) by simp
  have "b div ?w < parts r" using w b(2) by (intro div_less_factor) (simp_all add: ac_simps)
  moreover have ge: "0 \<le> b div ?w" using w b(1) by (simp add: pos_imp_zdiv_nonneg_iff)
  ultimately have i: "?i < length (handles q)" using L(1) by linarith
  have cov: "covers M (message M (the_meta r) (psize r) j) (buff (the_meta r)) b \<longleftrightarrow> j = b div ?w" for j
    using messages_tile [OF r(4,3) b(1)] .
  show ?thesis
  proof (rule ex1I [of _ "message M (the_meta r) (psize r) (int ?i)"])
    show "(\<exists>x. init_call (side r) (message M (the_meta r) (psize r) (int ?i)) x \<in> set h)
        \<and> covers M (message M (the_meta r) (psize r) (int ?i)) (buff (the_meta r)) b"
      using i ge cov L(3) by auto
  next
    fix m assume "(\<exists>x. init_call (side r) m x \<in> set h) \<and> covers M m (buff (the_meta r)) b"
    then obtain j where "m = message M (the_meta r) (psize r) (int j)" "covers M m (buff (the_meta r)) b"
      using L(3) by auto
    then show "m = message M (the_meta r) (psize r) (int ?i)" using cov [of "int j"] ge by simp
  qed
qed

theorem messages_cover_once_witness:
  "\<exists>q h. internal_setup mpi_done (demo_plan SENDER 4 2 10 7, []) = Inr (q, h)
     \<and> (\<exists>!m. (\<exists>x. CSendInit m x \<in> set h) \<and> covers mpi_done m 0 159)"
proof -
  have r: "prepared (demo_plan SENDER 4 2 10 7)" "fits mpi_done (the_meta (demo_plan SENDER 4 2 10 7)) 2 10"
    using demo_plan_fits [of 2 10 7] by simp_all
  then obtain q h where q: "internal_setup mpi_done (demo_plan SENDER 4 2 10 7, []) = Inr (q, h)"
    using internal_setup_set_up [of "demo_plan SENDER 4 2 10 7" mpi_done "[]"] by auto
  with messages_cover_once [OF r(1) _ _ _ _ _ q, of 159] r(2) show ?thesis
    by (auto simp: demo_meta_def init_call_def)
qed

text \<open>
  C18: when the two sides have the same number and size of messages, the same type, tag and
  communicator, then message \<open>i\<close> of the sender and message \<open>j\<close> of the receiver match exactly when
  \<open>i = j\<close>, and then they carry the same elements of the two buffers.
\<close>

theorem messages_pair_up:
  assumes r: "prepared r" "side r = SENDER" "fits M (the_meta r) (parts r) (psize r)"
    and r': "prepared r'" "side r' = RECEIVER" "fits M' (the_meta r') (parts r') (psize r')"
    and M: "mpi_succeeds M" "fresh_handles M" "mpi_succeeds M'" "fresh_handles M'"
    and same: "parts r' = parts r" "psize r' = psize r" "tag (the_meta r') = tag (the_meta r)"
      "comm (the_meta r') = comm (the_meta r)" "mtype (the_meta r') = mtype (the_meta r)"
      "type_extent M' (mtype (the_meta r)) = type_extent M (mtype (the_meta r))"
    and e: "internal_setup M (r, []) = Inr (q, h)" "internal_setup M' (r', []) = Inr (q', h')"
    and ij: "0 \<le> i" "i < parts q" "0 \<le> j" "j < parts q'"
  shows "\<exists>ms mr. CSendInit ms (handles q ! nat i) \<in> set h \<and> CRecvInit mr (handles q' ! nat j) \<in> set h'
    \<and> (matches ms mr \<longleftrightarrow> i = j) \<and> m_count ms = m_count mr \<and> m_type ms = m_type mr
    \<and> (i = j \<longrightarrow> m_buf ms - buff (the_meta r) = m_buf mr - buff (the_meta r'))"
proof -
  note L = internal_setup_log [OF r(1,3) M(1,2) e(1)] and L' = internal_setup_log [OF r'(1,3) M(3,4) e(2)]
  let ?ms = "message M (the_meta r) (psize r) i" and ?mr = "message M' (the_meta r') (psize r') j"
  have "CSendInit ?ms (handles q ! nat i) \<in> set h"
    using L(3) [of ?ms "handles q ! nat i"] L(1,2) r(2) ij by (auto simp: init_call_def intro!: exI [of _ "nat i"])
  moreover have "CRecvInit ?mr (handles q' ! nat j) \<in> set h'"
    using L'(3) [of ?mr "handles q' ! nat j"] L'(1,2) r'(2) ij by (auto simp: init_call_def intro!: exI [of _ "nat j"])
  ultimately show ?thesis
    using same by (intro exI [of _ ?ms] exI [of _ ?mr]) (auto simp: matches_def message_def)
qed

theorem messages_pair_up_witness:
  "\<exists>q h q' h' ms mr. internal_setup mpi_done (demo_plan SENDER 4 2 10 7, []) = Inr (q, h)
     \<and> internal_setup mpi_done (demo_plan RECEIVER 1 2 10 7, []) = Inr (q', h')
     \<and> CSendInit ms (handles q ! 1) \<in> set h \<and> CRecvInit mr (handles q' ! 1) \<in> set h' \<and> matches ms mr"
proof -
  let ?r = "demo_plan SENDER 4 2 10 7" and ?r' = "demo_plan RECEIVER 1 2 10 7"
  have f: "fits mpi_done (the_meta ?r) 2 10" "fits mpi_done (the_meta ?r') 2 10"
    using demo_plan_fits [of 2 10 7] by simp_all
  obtain q h where q: "internal_setup mpi_done (?r, []) = Inr (q, h)" "parts q = 2"
    using internal_setup_set_up [of ?r mpi_done "[]"] f by auto
  obtain q' h' where q': "internal_setup mpi_done (?r', []) = Inr (q', h')" "parts q' = 2"
    using internal_setup_set_up [of ?r' mpi_done "[]"] f by auto
  show ?thesis
    using messages_pair_up [of ?r mpi_done ?r' mpi_done q h q' h' 1 1] f q q' by auto
qed

text \<open>
  C29: the messages of a request use the tags from its own tag on, one each. A second request
  on the same communicator whose tag lies in that range has a message with the tag of one of
  the first request's messages.
\<close>

theorem tags_collide:
  assumes r: "prepared r" "side r = SENDER" "fits M (the_meta r) (parts r) (psize r)"
    and r': "prepared r'" "side r' = SENDER" "fits M (the_meta r') (parts r') (psize r')"
    and M: "mpi_succeeds M" "fresh_handles M"
    and t: "comm (the_meta r') = comm (the_meta r)" "tag (the_meta r) \<le> tag (the_meta r')"
      "tag (the_meta r') < tag (the_meta r) + parts r"
    and e: "internal_setup M (r, []) = Inr (q, h)" "internal_setup M (r', []) = Inr (q', h')"
  shows "\<exists>m x m' x'. CSendInit m x \<in> set h \<and> CSendInit m' x' \<in> set h' \<and> matches m m'"
proof -
  note L = internal_setup_log [OF r(1,3) M e(1)] and L' = internal_setup_log [OF r'(1,3) M e(2)]
  let ?i = "tag (the_meta r') - tag (the_meta r)"
  let ?m = "message M (the_meta r) (psize r) ?i" and ?m' = "message M (the_meta r') (psize r') 0"
  have "CSendInit ?m (handles q ! nat ?i) \<in> set h"
    using L(3) [of ?m "handles q ! nat ?i"] L(1,2) r(2) t by (auto simp: init_call_def intro!: exI [of _ "nat ?i"])
  moreover have "0 < length (handles q')" using L'(1) r'(3) by (auto simp: fits_def)
  then have "CSendInit ?m' (handles q' ! 0) \<in> set h'"
    using L'(3) [of ?m' "handles q' ! 0"] r'(2) by (auto simp: init_call_def intro!: exI [of _ 0])
  moreover have "matches ?m ?m'" using t by (simp add: matches_def message_def)
  ultimately show ?thesis by blast
qed

theorem tags_collide_witness:
  "\<exists>q h q' h' m x m' x'. internal_setup mpi_done (demo_plan SENDER 4 2 10 7, []) = Inr (q, h)
     \<and> internal_setup mpi_done (demo_plan SENDER 4 2 10 8, []) = Inr (q', h')
     \<and> CSendInit m x \<in> set h \<and> CSendInit m' x' \<in> set h' \<and> matches m m'"
proof -
  let ?r = "demo_plan SENDER 4 2 10 7" and ?r' = "demo_plan SENDER 4 2 10 8"
  have f: "fits mpi_done (the_meta ?r) 2 10" "fits mpi_done (the_meta ?r') 2 10"
    using demo_plan_fits [of 2 10 7] demo_plan_fits [of 2 10 8] by simp_all
  obtain q h where q: "internal_setup mpi_done (?r, []) = Inr (q, h)"
    using internal_setup_set_up [of ?r mpi_done "[]"] f by auto
  obtain q' h' where q': "internal_setup mpi_done (?r', []) = Inr (q', h')"
    using internal_setup_set_up [of ?r' mpi_done "[]"] f by auto
  show ?thesis
    using tags_collide [OF _ _ _ _ _ _ _ _ _ _ _ q q'] f q q' by (auto simp: demo_meta_def)
qed

section \<open>Partitions and messages\<close>

text \<open>
  C16: for partition and message counts of which one divides the other, the range that
  \<open>general_send\<close> computes for a partition holds exactly the messages that share an element with
  it, and the threshold is the number of partitions that share an element with a message.
\<close>

theorem send_range_exact:
  assumes al: "aligned (local_parts r) (parts r)" and p: "0 \<le> p" "p < local_parts r"
    and sz: "parts r * psize r = local_parts r * local_size r" "0 < local_size r"
  shows "\<exists>s e t. send_range p r = Inr (s, e, t) \<and> 0 \<le> s \<and> s < e \<and> e \<le> parts r
    \<and> (\<forall>i. 0 \<le> i \<and> i < parts r \<longrightarrow>
        (s \<le> i \<and> i < e \<longleftrightarrow> shares_data (local_size r) (psize r) p i)
        \<and> t = int (card {q. 0 \<le> q \<and> q < local_parts r \<and> shares_data (local_size r) (psize r) q i}))"
proof -
  have D: "deps (local_parts r) (parts r) i
      = {q. 0 \<le> q \<and> q < local_parts r \<and> shares_data (local_size r) (psize r) q i}"
    if "0 \<le> i" "i < parts r" for i
    using deps_iff_shares_data [OF al sz _ _ that] by (auto simp: deps_def)
  have "s \<le> i \<and> i < e \<longleftrightarrow> shares_data (local_size r) (psize r) p i"
    if "0 \<le> i" "i < parts r" "net_range (local_parts r) (parts r) p = (s, e)" for i s e
    using deps_iff_shares_data [OF al sz p that(1,2)] p that(3) by (auto simp: deps_def)
  moreover have "net_threshold (local_parts r) (parts r)
      = int (card {q. 0 \<le> q \<and> q < local_parts r \<and> shares_data (local_size r) (psize r) q i})"
    if "0 \<le> i" "i < parts r" for i
    using net.fan_in [OF al that] D [OF that] by simp
  ultimately show ?thesis
    using send_range_eq [OF al p] net.rng_in [OF al p] by auto
qed

theorem send_range_exact_witness:
  "\<exists>s e t. send_range 5 (demo SENDER 6 2\<lparr>psize := 3\<rparr>) = Inr (s, e, t)
     \<and> (s \<le> 1 \<and> 1 < e \<longleftrightarrow> shares_data 1 3 5 1)"
proof -
  let ?r = "demo SENDER 6 2\<lparr>psize := 3\<rparr>"
  have ls: "local_size ?r = 1" by (simp add: demo_def)
  then obtain s e t where "send_range 5 ?r = Inr (s, e, t)"
    "\<forall>i. 0 \<le> i \<and> i < 2 \<longrightarrow> (s \<le> i \<and> i < e \<longleftrightarrow> shares_data 1 3 5 i) \<and> t = int (card {q. 0 \<le> q \<and> q < 6 \<and> shares_data 1 3 q i})"
    using send_range_exact [of ?r 5] by (auto simp: aligned_def)
  then show ?thesis by (intro exI [of _ s] exI [of _ e] exI [of _ t]) simp
qed

end
