(* ===== verification/Sessions.thy ===== *)
theory Sessions
  imports Round_Properties Setup_Properties
begin

text \<open>
  The life of a request as the README orders the calls: an init function, any number of rounds, each
  from \<open>MPIP_Start\<close> to \<open>MPIP_Wait\<close> with the partitions marked in between on the sending side, and
  \<open>MPIP_Request_free\<close>. A session returns, and leaves nothing behind.
\<close>

section \<open>Sessions\<close>

definition user_round :: "mpi \<Rightarrow> p2p_side \<Rightarrow> int list \<Rightarrow> mpip \<times> hist \<Rightarrow> (mpip \<times> hist) res" where
  "user_round M s ps t =
     bindE (MPIP_Start M t) (\<lambda>(_, t).
     bindE (if s = SENDER then pready_each M ps t else Inr t) (\<lambda>t.
     bindE (MPIP_Wait M t) (\<lambda>(_, t). Inr t)))"

definition session :: "p2p_side \<Rightarrow> mpi \<Rightarrow> int \<Rightarrow> int \<Rightarrow> int \<Rightarrow> nat \<Rightarrow> int \<Rightarrow> int \<Rightarrow> nat \<Rightarrow> info \<Rightarrow> int list list
    \<Rightarrow> mpip \<times> hist \<Rightarrow> (mpip \<times> hist) res" where
  "session s M buf n cnt ty peer tg cm info pss t =
     bindE (init_request s M buf n cnt ty peer tg cm info t) (\<lambda>t.
     bindE (each (user_round M s) pss t) (\<lambda>t.
     bindE (MPIP_Request_free M t) (\<lambda>(_, t). Inr t)))"

text \<open>All start operations of a history.\<close>

fun begun_by :: "mcall \<Rightarrow> nat" where
  "begun_by (CStart y) = 1"
| "begun_by (CStartall ys) = length ys"
| "begun_by _ = 0"

definition begun :: "hist \<Rightarrow> nat" where
  "begun h = sum_list (map begun_by h)"

lemma begun_simps [simp]: "begun [] = 0" "begun (c # h) = begun_by c + begun h" "begun (g @ h) = begun g + begun h"
  by (simp_all add: begun_def)

lemma begun_quiet [simp]: "begun (map CStart xs) = length xs" "begun (map CFree xs) = 0" "begun (rev g) = begun g"
  by (induction xs) (simp_all add: begun_def flip: rev_map)

lemma begun_init_calls [simp]: "begun (init_calls M s mes sz xs) = 0"
proof -
  have "begun_by (init_call s m x) = 0" for m x by (simp add: init_call_def)
  then show ?thesis by (simp add: begun_def init_calls_def comp_def)
qed

lemma issued_starts [simp]: "issued (map CStart xs @ h) = issued h"
  by (induction xs) auto

lemma issued_frees: "issued (rev (map CFree xs) @ h) = issued h - set xs"
  by (induction xs rule: rev_induct) auto

lemma issued_init_calls:
  "issued (rev (init_calls M s mes sz xs) @ CTypeExtent ty # h) = set xs \<union> issued h"
proof -
  have "issued (rev (map (\<lambda>i. init_call s (f i) (xs ! i)) ks) @ CTypeExtent ty # h) = (\<lambda>i. xs ! i) ` set ks \<union> issued h"
    for f and ks :: "nat list"
    by (induction ks rule: rev_induct) (auto simp: init_call_def)
  moreover have "(\<lambda>i. xs ! i) ` set [0..<length xs] = set xs" by (simp only: map_nth flip: set_map)
  ultimately show ?thesis by (simp add: init_calls_def)
qed

section \<open>One round\<close>

definition rested :: "p2p_side \<Rightarrow> mpip \<Rightarrow> bool" where
  "rested s r \<longleftrightarrow> setup_ok r \<and> aligned (local_parts r) (parts r) \<and> side r = s \<and> threaded r \<noteq> RUNNING"

text \<open>The partitions marked in a round: all of them, each once.\<close>

definition marks_all :: "p2p_side \<Rightarrow> int \<Rightarrow> int list \<Rightarrow> bool" where
  "marks_all s n ps \<longleftrightarrow> (s = SENDER \<longrightarrow> distinct ps \<and> set ps = {0..<n})"

text \<open>What a round adds to a history.\<close>

definition round_done :: "mpip \<Rightarrow> hist \<Rightarrow> nat \<Rightarrow> hist \<Rightarrow> bool" where
  "round_done r h k h' \<longleftrightarrow> issued h' = issued h \<and> begun h' = begun h + k * length (handles r)
     \<and> (\<forall>x\<in>set (handles r). starts h' x = starts h x + k)"

lemma length_once:
  assumes "distinct ys" "set xs \<subseteq> set ys" "\<And>y. y \<in> set ys \<Longrightarrow> count_list xs y = 1"
  shows "length xs = length ys"
proof -
  have "length xs = (\<Sum>y\<in>set ys. count_list xs y)" using sum_count_set [OF assms(2)] by simp
  also have "\<dots> = length ys" using assms(1,3) by (simp add: distinct_card)
  finally show ?thesis .
qed

text \<open>When all partitions have been marked, each message has been started once, and nothing else.\<close>

lemma round_all_once:
  assumes "round_at h {0..<local_parts r} (r, g)" "setup_ok r" "x \<in> set (handles r)"
  shows "starts g x = Suc (starts h x)"
proof -
  obtain k where k: "k < length (handles r)" "x = handles r ! k" using assms(3) by (auto simp: in_set_conv_nth)
  have "int k < parts r" using k(1) setup_okD(6) [OF assms(2)] by simp
  moreover have "deps (local_parts r) (parts r) i \<subseteq> {0..<local_parts r}" for i unfolding deps_def by force
  ultimately show ?thesis using round_atD(2) [OF assms(1), of "int k"] k(2) by simp
qed

lemma marking_all_done:
  assumes ok: "setup_ok r" "request q = request r" and m: "marking (q, h) (q', h')"
    and once: "\<And>x. x \<in> set (handles r) \<Longrightarrow> starts h' x = Suc (starts h x)"
  shows "round_done r h 1 h'"
proof -
  obtain xs where xs: "h' = map CStart xs @ h" "set xs \<subseteq> {x. \<exists>i. blk_get (request q) i = Inr x}"
    using m by (auto simp: marking_def)
  have sub: "set xs \<subseteq> set (handles r)"
  proof
    fix x assume "x \<in> set xs"
    then obtain i where "blk_get (filled (handles r)) i = Inr x"
      using xs(2) ok(2) setup_okD(5) [OF ok(1)] by auto
    then show "x \<in> set (handles r)" by (auto simp: blk_get_filled_iff)
  qed
  have "length xs = length (handles r)"
    using once unfolding xs(1) by (intro length_once [OF setup_okD(7) [OF ok(1)] sub]) (simp add: starts_map_CStart)
  then show ?thesis using once by (simp add: round_done_def xs(1))
qed

lemma sender_marks:
  assumes r: "rested SENDER r" and ps: "marks_all SENDER (local_parts r) ps" and M: "mpi_succeeds M"
  shows "\<exists>r1 h1. bindE (MPIP_Start M (r, h)) (\<lambda>(_, t). pready_each M ps t) = Inr (r1, h1)
    \<and> rested SENDER r1 \<and> same_messages r r1 \<and> round_done r h 1 h1"
proof -
  have ok: "setup_ok r" "aligned (local_parts r) (parts r)" "side r = SENDER" "threaded r \<noteq> RUNNING"
    and p: "distinct ps" "set ps = {0..<local_parts r}" using r ps by (auto simp: rested_def marks_all_def)
  obtain r0 where r0: "MPIP_Start M (r, h) = Inr (MPI_SUCCESS, r0, h)" "sender_at h {} (r0, h)" "same_messages r r0"
    using start_sender [OF ok M] by blast
  obtain r1 h1 where r1: "MPIP_Pready_list M (int (length ps)) ps (r0, h) = Inr (MPI_SUCCESS, r1, h1)"
    "sender_at h ({} \<union> set ps) (r1, h1)" "same_messages r0 r1"
    using pready_list_sender [OF r0(2) p(1) _ _ M] p(2) r0(3) by (auto simp: same_messages_def)
  then have e: "pready_each M ps (r0, h) = Inr (r1, h1)" by (auto simp: MPIP_Pready_list_each)
  note S = sender_atD [OF r1(2)]
  have sm: "same_messages r r1" using same_messages_trans [OF r0(3) r1(3)] .
  have "starts h1 x = Suc (starts h x)" if x: "x \<in> set (handles r)" for x
    using S x p(2) sm by (intro round_all_once [where r = r1]) (simp_all add: same_messages_def)
  then have "round_done r h 1 h1"
    using r0(3) by (intro marking_all_done [OF ok(1) _ pready_each_marking [OF e]]) (simp_all add: same_messages_def)
  with r0(1) e S sm show ?thesis by (auto simp: rested_def)
qed

lemma user_round_done:
  assumes r: "rested s r" and ps: "marks_all s (local_parts r) ps"
    and M: "mpi_succeeds M" "\<And>h xs. waitall_ret M h xs"
  shows "\<exists>r' h'. user_round M s ps (r, h) = Inr (r', h') \<and> rested s r' \<and> same_messages r r' \<and> round_done r h 1 h'"
proof -
  obtain r1 h1 where r1: "bindE (MPIP_Start M (r, h)) (\<lambda>(_, t). if s = SENDER then pready_each M ps t else Inr t) = Inr (r1, h1)"
    "rested s r1" "same_messages r r1" "round_done r h 1 h1"
  proof (cases s)
    case SENDER
    with sender_marks [of r ps M h] r ps M(1) that show thesis by auto
  next
    case RECEIVER
    have ok: "setup_ok r" "aligned (local_parts r) (parts r)" "side r = RECEIVER" "threaded r \<noteq> RUNNING"
      using r RECEIVER by (auto simp: rested_def)
    obtain q where q: "MPIP_Start M (r, h) = Inr (MPI_SUCCESS, q, CStartall (handles r) # h)"
      "receiver_at (q, CStartall (handles r) # h)" "same_messages r q"
      using start_receiver [OF ok M(1)] by blast
    have "round_done r h 1 (CStartall (handles r) # h)"
      using setup_okD(7) [OF ok(1)] by (simp add: round_done_def count_list_distinct)
    with q that [of q] receiver_atD [OF q(2)] RECEIVER show thesis by (simp add: rested_def)
  qed
  have W: "MPIP_Wait M (r1, h1) = Inr (MPI_SUCCESS, r1\<lparr>state := INACTIVE\<rparr>, CWaitall (handles r1) # h1)"
    using r1(2) MPIP_Wait_eq [OF _ _ M] by (simp add: rested_def)
  have "user_round M s ps (r, h) = Inr (r1\<lparr>state := INACTIVE\<rparr>, CWaitall (handles r1) # h1)"
  proof -
    have "user_round M s ps (r, h)
        = bindE (bindE (MPIP_Start M (r, h)) (\<lambda>(_, t). if s = SENDER then pready_each M ps t else Inr t))
            (\<lambda>t. bindE (MPIP_Wait M t) (\<lambda>(_, t). Inr t))"
      by (simp add: user_round_def bindE_assoc split_def)
    then show ?thesis by (simp add: r1(1) W)
  qed
  moreover have "rested s (r1\<lparr>state := INACTIVE\<rparr>)" using r1(2) by (simp add: rested_def setup_ok_def)
  ultimately show ?thesis using r1(3,4) by (auto simp: same_messages_def round_done_def)
qed

lemma user_rounds_done:
  assumes "rested s r" "\<forall>ps\<in>set pss. marks_all s (local_parts r) ps" "mpi_succeeds M" "\<And>h xs. waitall_ret M h xs"
  shows "\<exists>r' h'. each (user_round M s) pss (r, h) = Inr (r', h') \<and> rested s r' \<and> same_messages r r'
    \<and> round_done r h (length pss) h'"
  using assms(1,2)
proof (induction pss arbitrary: r h)
  case (Cons ps pss)
  obtain r1 h1 where r1: "user_round M s ps (r, h) = Inr (r1, h1)" "rested s r1" "same_messages r r1" "round_done r h 1 h1"
    using user_round_done [OF Cons.prems(1) _ assms(3,4), of ps h] Cons.prems(2) by (metis list.set_intros(1))
  obtain r2 h2 where r2: "each (user_round M s) pss (r1, h1) = Inr (r2, h2)" "rested s r2" "same_messages r1 r2"
    "round_done r1 h1 (length pss) h2"
    using Cons.IH [OF r1(2), of h1] Cons.prems(2) r1(3) unfolding same_messages_def by (metis list.set_intros(2))
  have "round_done r h (Suc (length pss)) h2"
    using r1(3,4) r2(4) by (simp add: round_done_def same_messages_def)
  with r1 r2 show ?case by (auto intro: same_messages_trans)
qed (simp add: round_done_def)

section \<open>Whole sessions\<close>

lemma issued_lookups [simp]: "issued (lookups M info @ h) = issued h" "begun (lookups M info) = 0"
  by (auto simp: lookups_def begun_def split: info.splits)

lemma set_up_session:
  assumes "set_up M h r q h'" "aligned (local_parts r) (parts q)" "threaded r \<noteq> RUNNING"
  shows "rested (side r) q" "issued h' = set (handles q) \<union> issued h" "begun h' = begun h"
    "starts h' x = starts h x" "local_parts q = local_parts r" "set (handles q) \<inter> issued h = {}"
    "int (length (handles q)) = parts q" "distinct (handles q)"
  using assms set_up_handles [OF assms(1)] setup_okD(7) [of q]
  by (simp_all add: set_up_def rested_def issued_init_calls)

text \<open>
  \<open>made s h j q g\<close>: since the history \<open>h\<close> the messages of \<open>q\<close> have been created and then started \<open>j\<close>
  times each, and nothing else has been.
\<close>

definition made :: "p2p_side \<Rightarrow> hist \<Rightarrow> nat \<Rightarrow> mpip \<Rightarrow> hist \<Rightarrow> bool" where
  "made s h j q g \<longleftrightarrow> rested s q \<and> issued g = set (handles q) \<union> issued h \<and> set (handles q) \<inter> issued h = {}
     \<and> begun g = begun h + j * length (handles q) \<and> (\<forall>x\<in>set (handles q). starts g x = starts h x + j)"

text \<open>The outcome of a session in which the messages \<open>xs\<close> have been started \<open>j\<close> times.\<close>

definition all_released :: "hist \<Rightarrow> nat list \<Rightarrow> nat \<Rightarrow> hist \<Rightarrow> bool" where
  "all_released h xs j h' \<longleftrightarrow> distinct xs \<and> set xs \<inter> issued h = {} \<and> issued h' = issued h
     \<and> begun h' = begun h + j * length xs \<and> (\<forall>x\<in>set xs. starts h' x = starts h x + j)"

lemma starts_frees [simp]: "starts (map CFree ys) x = 0"
  by (induction ys) simp_all

lemma rounds_then_free:
  assumes q: "made s h j q g" and pss: "\<forall>ps\<in>set pss. marks_all s (local_parts q) ps"
    and M: "mpi_succeeds M" "\<And>h xs. waitall_ret M h xs"
  shows "\<exists>f h'. bindE (each (user_round M s) pss (q, g)) (\<lambda>t. bindE (MPIP_Request_free M t) (\<lambda>(_, t). Inr t)) = Inr (f, h')
    \<and> all_released h (handles q) (j + length pss) h'"
proof -
  have q': "rested s q" "issued g = set (handles q) \<union> issued h" "set (handles q) \<inter> issued h = {}"
    "begun g = begun h + j * length (handles q)" "\<forall>x\<in>set (handles q). starts g x = starts h x + j"
    using q by (auto simp: made_def)
  obtain r2 h2 where r2: "each (user_round M s) pss (q, g) = Inr (r2, h2)" "rested s r2" "same_messages q r2"
    "round_done q g (length pss) h2"
    using user_rounds_done [OF q'(1) pss M] by blast
  have ok: "setup_ok q" "setup_ok r2" and hd: "handles r2 = handles q"
    using q'(1) r2(2,3) by (auto simp: rested_def same_messages_def)
  obtain f where f: "MPIP_Request_free M (r2, h2) = Inr (MPI_SUCCESS, f, rev (map CFree (handles q)) @ h2)"
    using MPIP_Request_free_eq [OF ok(2) M(1)] hd by metis
  have "issued (rev (map CFree (handles q)) @ h2) = issued h"
    using r2(4) q'(2,3) unfolding issued_frees by (auto simp: round_done_def)
  moreover have "begun h2 = begun h + (j + length pss) * length (handles q)"
    using r2(4) q'(4) by (simp add: round_done_def algebra_simps)
  ultimately have "all_released h (handles q) (j + length pss) (rev (map CFree (handles q)) @ h2)"
    using r2(4) q'(3,5) setup_okD(7) [OF ok(1)] by (simp add: all_released_def round_done_def)
  with r2(1) f show ?thesis by simp
qed

lemma session_fact:
  assumes n: "0 < n" "n \<le> INT_MAX" "0 \<le> cnt" "n * cnt \<le> INT_MAX" and k: "settled M info = Some k" "aligned n k"
    and ft: "fits M \<lparr>buff = buf, partner = peer, tag = tg, comm = cm, mtype = ty\<rparr> k (n * cnt div k)"
    and M: "mpi_succeeds M" "fresh_handles M" "\<And>h xs. waitall_ret M h xs"
    and pss: "\<forall>ps\<in>set pss. marks_all s n ps"
  shows "\<exists>q h' xs. session s M buf n cnt ty peer tg cm info pss (r, h) = Inr (q, h')
    \<and> int (length xs) = k \<and> all_released h xs (length pss) h'"
proof -
  let ?p = "prepped s buf n cnt ty peer tg cm r"
  obtain q h1 where q: "init_request s M buf n cnt ty peer tg cm info (r, h) = Inr (q, h1)"
    "set_up M (lookups M info @ h) ?p q h1" "parts q = k" "\<forall>x. starts h1 x = starts h x"
    using init_settled [OF n k(1) ft M(1,2), of s r h] by blast
  have p: "local_parts ?p = n" "threaded ?p = NONE" "side ?p = s" by (simp_all add: prepped_def prep_def)
  have al: "aligned (local_parts ?p) (parts q)" "threaded ?p \<noteq> RUNNING" using k(2) q(3) p by simp_all
  note S = set_up_session [OF q(2) al, unfolded p]
  have "made s h 0 q h1" using S q(4) by (simp add: made_def)
  moreover have "\<forall>ps\<in>set pss. marks_all s (local_parts q) ps" using pss S(5) by simp
  ultimately obtain f h' where f:
    "bindE (each (user_round M s) pss (q, h1)) (\<lambda>t. bindE (MPIP_Request_free M t) (\<lambda>(_, t). Inr t)) = Inr (f, h')"
    "all_released h (handles q) (length pss) h'" using rounds_then_free [where j = 0, OF _ _ M(1,3), unfolded add_0] by blast
  then show ?thesis using q(1,3) S(7) unfolding session_def by (intro exI [of _ f] exI [of _ h'] exI [of _ "handles q"]) simp
qed

end
