(* ===== verification/Session_Modes.thy ===== *)
theory Session_Modes
  imports Sessions
begin

text \<open>
  Sessions in every mode, those with a background thread among them. The thread runs between two
  calls of the user: right after the init function, or in the join of the first \<open>MPIP_Wait\<close>.
\<close>

section \<open>What the thread leaves\<close>

lemma send_ready_marking: "send_ready M (r, h) = Inr t' \<Longrightarrow> marking (r, h) t'"
proof -
  assume e: "send_ready M (r, h) = Inr t'"
  have "marking t u" if "(\<lambda>i (r, h). bindE (blk_get (local_status r) i) (\<lambda>b. if b then general_send M i (r, h) else Inr (r, h))) i t = Inr u"
    for i t u
    using that by (cases t) (auto split: if_splits intro: general_send_marking marking_refl)
  with e show ?thesis unfolding send_ready_def by (auto elim!: for_up_marking split: if_splits)
qed

lemma catch_up_done:
  assumes r: "setup_ok r" "aligned (local_parts r) (parts r)" "internal_status r = filled (replicate (nat (parts r)) 0)"
    and m: "side r = SENDER \<and> state r = ACTIVE \<longrightarrow> flags_set r \<and> marked r = {0..<local_parts r}" and M: "mpi_succeeds M"
  shows "\<exists>c g. thread_catch_up M (r, h) = Inr (c, g) \<and> rested (side r) c \<and> same_messages r c
    \<and> round_done r h (if state r = ACTIVE then 1 else 0) g"
proof (cases "state r")
  case INACTIVE
  have "setup_ok (r\<lparr>threaded := FINISHED\<rparr>)" using r(1) by (simp add: setup_ok_def)
  with INACTIVE r(2) thread_catch_up_inactive [OF setup_okD(11) [OF r(1)], of M h] show ?thesis
    by (simp add: rested_def same_messages_def round_done_def)
next
  case act: ACTIVE
  show ?thesis
  proof (cases "side r")
    case RECEIVER
    have "setup_ok (r\<lparr>threaded := FINISHED\<rparr>)" using r(1) by (simp add: setup_ok_def)
    with RECEIVER act r(2) thread_catch_up_receiver [OF r(1) RECEIVER act M, of h] setup_okD(7) [OF r(1)] show ?thesis
      by (simp add: rested_def same_messages_def round_done_def count_list_distinct)
  next
    case SENDER
    with m act have fl: "flags_set r" "marked r = {0..<local_parts r}" by simp_all
    obtain cs g where cs: "send_ready M (r, h) = Inr (r\<lparr>internal_status := filled cs\<rparr>, g)" "int (length cs) = parts r"
      "round_at h (marked r) (r\<lparr>internal_status := filled cs\<rparr>, g)"
      using send_ready_round [OF r(1,2) fl(1) M round_at_start [OF r(2,3)]] by blast
    let ?q = "r\<lparr>internal_status := filled cs\<rparr>"
    have q: "setup_ok ?q" "setup_ok (?q\<lparr>threaded := FINISHED\<rparr>)" using r(1) cs(2) by (simp_all add: setup_ok_def)
    have "round_done r h 1 g"
      using cs(3) fl(2) by (intro marking_all_done [OF r(1) refl send_ready_marking [OF cs(1)]] round_all_once [OF _ q(1)]) simp_all
    with SENDER act r(2) cs(1) q(2) setup_okD(11) [OF r(1)] show ?thesis
      by (simp add: thread_catch_up_def rested_def same_messages_def)
  qed
qed

lemma thread_leaves:
  assumes r: "prepared r" "sync_thread r = Spawned" and ft: "fits M (the_meta r) k sz" and al: "aligned (local_parts r) k"
    and m: "side r = SENDER \<and> state r = ACTIVE \<longrightarrow> flags_set r \<and> marked r = {0..<local_parts r}"
    and M: "mpi_succeeds M" "fresh_handles M"
    and rd: "recv_data M h (partner (the_meta r)) sync_tag (comm (the_meta r)) = Some (k, sz)"
  shows "\<exists>q g. run_thread M (r, h) = Inr (q, g) \<and> made (side r) h (if state r = ACTIVE then 1 else 0) q g
    \<and> local_parts q = local_parts r \<and> parts q = k"
proof -
  obtain xs where xs: "threaded_sync_driver M (r, h) = thread_catch_up M (with_messages k sz xs r, thread_setup_log M r k sz xs h)"
    "setup_ok (with_messages k sz xs r)" "set xs \<inter> issued h = {}"
    using threaded_sync_driver_eq [OF r(1) ft M rd] by blast
  let ?r = "with_messages k sz xs r" and ?g = "thread_setup_log M r k sz xs h" and ?j = "if state r = ACTIVE then 1 else 0 :: nat"
  have w: "side ?r = side r" "state ?r = state r" "local_parts ?r = local_parts r" "parts ?r = k" "handles ?r = xs"
    "internal_status ?r = filled (replicate (nat k) 0)" "flags_set ?r = flags_set r" "marked ?r = marked r"
    by (simp_all add: with_messages_def flags_set_def marked_def)
  have g: "issued ?g = set xs \<union> issued h" "begun ?g = begun h"
    by (simp_all add: thread_setup_log_def issued_init_calls)
  obtain c g' where c: "thread_catch_up M (?r, ?g) = Inr (c, g')" "rested (side r) c" "same_messages ?r c" "round_done ?r ?g ?j g'"
    using catch_up_done [OF xs(2) _ _ _ M(1), of ?g] al m w by auto
  let ?c = "c\<lparr>sync_thread := Exited\<rparr>"
  have h: "handles ?c = xs" "local_parts ?c = local_parts r" "parts ?c = k" using c(3) w by (simp_all add: same_messages_def)
  have "rested (side r) ?c" using c(2) by (simp add: rested_def setup_ok_def)
  then have "made (side r) h ?j ?c g'"
    using c(4) g xs(3) unfolding made_def h(1) by (simp add: round_done_def w(5))
  moreover have "run_thread M (r, h) = Inr (?c, g')" using r(2) xs(1) c(1) by (simp add: run_thread_def)
  ultimately show ?thesis using h by blast
qed

section \<open>The first round with the thread\<close>

text \<open>A request whose thread has not run yet.\<close>

definition unsynced :: "p2p_side \<Rightarrow> mpip \<Rightarrow> bool" where
  "unsynced s r \<longleftrightarrow> prepared r \<and> side r = s \<and> threaded r = RUNNING \<and> sync_thread r = Spawned"

lemma unsynced_round:
  assumes r: "unsynced s r" and ft: "fits M (the_meta r) k sz" and al: "aligned (local_parts r) k"
    and M: "mpi_succeeds M" "fresh_handles M" "\<And>h xs. waitall_ret M h xs"
    and rd: "recv_data M h (partner (the_meta r)) sync_tag (comm (the_meta r)) = Some (k, sz)"
    and ps: "marks_all s (local_parts r) ps" and fresh: "marked r = {}"
  shows "\<exists>q g. user_round M s ps (r, h) = Inr (q, g) \<and> made s h 1 q g \<and> local_parts q = local_parts r \<and> parts q = k"
proof -
  have r': "prepared r" "side r = s" "threaded r = RUNNING" "sync_thread r = Spawned" "lock r = MReady"
    using r by (auto simp: unsynced_def prepared_def)
  let ?r = "r\<lparr>state := ACTIVE\<rparr>"
  obtain t where t: "(if s = SENDER then pready_each M ps (?r, h) else Inr (?r, h)) = Inr (t, h)"
    "unsynced s t" "state t = ACTIVE" "the_meta t = the_meta r" "local_parts t = local_parts r" "s = SENDER \<longrightarrow> flags_set t \<and> marked t = {0..<local_parts r}"
  proof (cases s)
    case SENDER
    then have d: "held ?r" and p: "set ps = {0..<local_parts r}" using r' ps by (auto simp: held_def prepared_def marks_all_def)
    obtain ls where ls: "MPIP_Pready_list M (int (length ps)) ps (?r, h) = Inr (MPI_SUCCESS, ?r\<lparr>local_status := ls\<rparr>, h)"
      "held (?r\<lparr>local_status := ls\<rparr>)" "marked (?r\<lparr>local_status := ls\<rparr>) = marked ?r \<union> set ps"
      using pready_list_held [OF d, of ps M h] p by auto
    then have m: "marked (?r\<lparr>local_status := ls\<rparr>) = {0..<local_parts r}" "blk_len ls = local_parts r"
      using p fresh by (auto simp: marked_def held_def prepared_def)
    moreover have "flags_set (?r\<lparr>local_status := ls\<rparr>)" using m preparedD(1) [OF r'(1)] by (intro marked_all_flags_set) simp_all
    moreover have "pready_each M ps (?r, h) = Inr (?r\<lparr>local_status := ls\<rparr>, h)" using ls(1) by (auto simp: MPIP_Pready_list_each)
    moreover have "unsynced s (?r\<lparr>local_status := ls\<rparr>)" using r m(2) by (simp add: unsynced_def prepared_def)
    ultimately show thesis using that [of "?r\<lparr>local_status := ls\<rparr>"] SENDER by simp
  next
    case RECEIVER
    moreover have "unsynced s ?r" using r by (simp add: unsynced_def prepared_def)
    ultimately show thesis using that [of ?r] by simp
  qed
  then have T: "prepared t" "side t = s" "state t = ACTIVE" "threaded t = RUNNING" "sync_thread t = Spawned" "lock t = MReady"
    "the_meta t = the_meta r" "local_parts t = local_parts r"
    by (auto simp: unsynced_def prepared_def)
  obtain q g where q: "run_thread M (t, h) = Inr (q, g)" "made s h 1 q g" "local_parts q = local_parts r" "parts q = k"
    using thread_leaves [OF T(1,5) _ _ _ M(1,2), of k sz h] ft al t(6) rd T by auto
  have ok: "setup_ok q" "threaded q \<noteq> RUNNING" using q(2) by (auto simp: made_def rested_def)
  have "MPIP_Wait M (t, h) = Inr (MPI_SUCCESS, q\<lparr>state := INACTIVE\<rparr>, CWaitall (handles q) # g)"
    using MPIP_Wait_joins [OF T(6,4,5) q(1) ok] MPIP_Wait_eq [OF ok M(1,3)] by simp
  then have "user_round M s ps (r, h) = Inr (q\<lparr>state := INACTIVE\<rparr>, CWaitall (handles q) # g)"
    using t(1) by (simp add: user_round_def MPIP_Start_running [OF r'(5,3)])
  moreover have "made s h 1 (q\<lparr>state := INACTIVE\<rparr>) (CWaitall (handles q) # g)"
    using q(2) by (simp add: made_def rested_def setup_ok_def)
  ultimately show ?thesis using q(3,4) by auto
qed

section \<open>Sessions\<close>

text \<open>A session in which the thread, if there is one, runs right after the init function if \<open>early\<close> says so.\<close>

definition session_with ::
    "bool \<Rightarrow> p2p_side \<Rightarrow> mpi \<Rightarrow> int \<Rightarrow> int \<Rightarrow> int \<Rightarrow> nat \<Rightarrow> int \<Rightarrow> int \<Rightarrow> nat \<Rightarrow> info \<Rightarrow> int list list
      \<Rightarrow> mpip \<times> hist \<Rightarrow> (mpip \<times> hist) res" where
  "session_with early s M buf n cnt ty peer tg cm info pss t =
     bindE (init_request s M buf n cnt ty peer tg cm info t) (\<lambda>t.
     bindE (if early \<and> threaded (fst t) = RUNNING then run_thread M t else Inr t) (\<lambda>t.
     bindE (each (user_round M s) pss t) (\<lambda>t.
     bindE (MPIP_Request_free M t) (\<lambda>(_, t). Inr t))))"

lemma session_with_late: "session_with False = session"
  by (intro ext) (simp add: session_with_def session_def)

text \<open>The side an info object names under \<open>PMODE\<close>, and the number and size of messages that come of it.\<close>

definition names :: "mpi \<Rightarrow> info \<Rightarrow> p2p_side \<Rightarrow> bool" where
  "names M info d \<longleftrightarrow> (\<exists>i. info = Info i \<and> info_get M i ''PMODE'' 20 = Some (mode_of d))"

definition agreed :: "p2p_side \<Rightarrow> mpi \<Rightarrow> int \<Rightarrow> int \<Rightarrow> int \<Rightarrow> nat \<Rightarrow> info \<Rightarrow> int \<Rightarrow> int \<Rightarrow> bool" where
  "agreed s M n cnt peer cm info k sz \<longleftrightarrow>
     (settled M info = Some k \<and> n * cnt \<le> INT_MAX \<and> sz = n * cnt div k)
   \<or> (names M info s \<and> k = n \<and> sz = cnt \<and> (\<forall>h. send_ret M h peer sync_tag cm))
   \<or> (names M info (not_side s) \<and> (\<forall>h. recv_data M h peer sync_tag cm = Some (k, sz)))"

text \<open>What each mode leaves after the init function and, if it runs now, the thread.\<close>

lemma driver_made:
  assumes n: "0 < n" "n \<le> INT_MAX" "0 \<le> cnt" "cnt \<le> INT_MAX" and a: "names M info s" "\<forall>h. send_ret M h peer sync_tag cm"
    and ft: "fits M \<lparr>buff = buf, partner = peer, tag = tg, comm = cm, mtype = ty\<rparr> n cnt"
    and M: "mpi_succeeds M" "fresh_handles M"
  shows "\<exists>q g. init_request s M buf n cnt ty peer tg cm info (r, h) = Inr (q, g)
    \<and> threaded q \<noteq> RUNNING \<and> made s h 0 q g \<and> local_parts q = n \<and> parts q = n"
proof -
  let ?p = "prepped s buf n cnt ty peer tg cm r"
  obtain i where i: "info = Info i" "info_get M i ''PMODE'' 20 = Some (mode_of s)" using a(1) by (auto simp: names_def)
  let ?h = "CInfoGet i ''PMODE'' # h"
  have p: "prepared ?p" "local_size ?p = cnt" using prepped_prepared n by (auto simp: int32_of_id)
  obtain q g where q: "bindE (sync_side M s (?p, ?h)) (internal_setup M) = Inr (q, g)"
    "set_up M (CSend [n, cnt] peer sync_tag cm # ?h) ?p q g" "parts q = n"
    using driver_setup [OF p(1), of s M ?h] p ft a(2) M by auto
  have al: "aligned (local_parts ?p) (parts q)" "threaded ?p \<noteq> RUNNING" using q(3) n by (simp_all add: aligned_def)
  note S = set_up_session [OF q(2) al]
  have "made s h 0 q g" using S by (simp add: made_def)
  moreover have "threaded q \<noteq> RUNNING" using S(1) by (simp add: rested_def)
  moreover have "init_request s M buf n cnt ty peer tg cm info (r, h) = Inr (q, g)"
    using q(1) by (simp add: i(1) init_request_eq sync_driver_side [OF i(2)])
  ultimately show ?thesis using S(5) q(3) by auto
qed

lemma settled_made:
  assumes n: "0 < n" "n \<le> INT_MAX" "0 \<le> cnt" "n * cnt \<le> INT_MAX" and k: "settled M info = Some k" "aligned n k"
    and ft: "fits M \<lparr>buff = buf, partner = peer, tag = tg, comm = cm, mtype = ty\<rparr> k (n * cnt div k)"
    and M: "mpi_succeeds M" "fresh_handles M"
  shows "\<exists>q g. init_request s M buf n cnt ty peer tg cm info (r, h) = Inr (q, g)
    \<and> threaded q \<noteq> RUNNING \<and> made s h 0 q g \<and> local_parts q = n \<and> parts q = k"
proof -
  let ?p = "prepped s buf n cnt ty peer tg cm r"
  obtain q g where q: "init_request s M buf n cnt ty peer tg cm info (r, h) = Inr (q, g)"
    "set_up M (lookups M info @ h) ?p q g" "parts q = k" "threaded q = NONE" "\<forall>x. starts g x = starts h x"
    using init_settled [OF n k(1) ft M, of s r h] by blast
  have al: "aligned (local_parts ?p) (parts q)" "threaded ?p \<noteq> RUNNING" using k(2) q(3) by simp_all
  note S = set_up_session [OF q(2) al]
  have "made s h 0 q g" using S q(5) by (simp add: made_def)
  with q S(5) show ?thesis by auto
qed

lemma waiting_init:
  assumes "0 < n" "n \<le> INT_MAX" "names M info (not_side s)"
  shows "\<exists>q g. init_request s M buf n cnt ty peer tg cm info (r, h) = Inr (q, g) \<and> unsynced s q \<and> state q = INACTIVE
    \<and> the_meta q = \<lparr>buff = buf, partner = peer, tag = tg, comm = cm, mtype = ty\<rparr>
    \<and> local_parts q = n \<and> marked q = {} \<and> request q = request r \<and> parts q = 1
    \<and> issued g = issued h \<and> begun g = begun h \<and> (\<forall>x. starts g x = starts h x)"
proof -
  let ?p = "prepped s buf n cnt ty peer tg cm r"
  let ?q = "set_running (pthread_create ?p)"
  obtain i where i: "info = Info i" "info_get M i ''PMODE'' 20 = Some (mode_of (not_side s))" using assms(3) by (auto simp: names_def)
  have "init_request s M buf n cnt ty peer tg cm info (r, h) = Inr (?q, CInfoGet i ''PMODE'' # h)"
    by (simp add: i(1) init_request_eq sync_driver_side [OF i(2)])
  moreover have "unsynced s ?q"
    using prepped_prepared [OF assms(1,2)] by (simp add: unsynced_def prepared_def set_running_def pthread_create_def)
  moreover have "marked ?q = {}" "request ?q = request r" "parts ?q = 1" using assms(1)
    by (auto simp: marked_def set_running_def pthread_create_def prepped_def prep_def blk_malloc_def split: if_splits)
  ultimately show ?thesis by (simp add: set_running_def pthread_create_def)
qed

lemma mode_of_inject: "mode_of s = mode_of d \<longleftrightarrow> s = d"
  by (cases s; cases d) (simp_all add: mode_of_def)

lemma names_exclusive:
  "settled M info = Some k \<Longrightarrow> \<not> names M info d"
  "names M info s \<Longrightarrow> names M info d \<longleftrightarrow> d = s"
  by (cases d; auto simp: names_def settled_def mode_of_def) (auto simp: names_def mode_of_inject)

lemma made_since: "made s g0 j q g \<Longrightarrow> issued g0 = issued h \<Longrightarrow> begun g0 = begun h \<Longrightarrow> \<forall>x. starts g0 x = starts h x \<Longrightarrow> made s h j q g"
  by (simp add: made_def)

lemma rest_of_session:
  assumes q: "made s h j q g" "parts q = k" "local_parts q = n" and pss: "\<forall>ps\<in>set pss. marks_all s n ps"
    and M: "mpi_succeeds M" "\<And>h xs. waitall_ret M h xs"
  shows "\<exists>f h' xs. bindE (each (user_round M s) pss (q, g)) (\<lambda>t. bindE (MPIP_Request_free M t) (\<lambda>(_, t). Inr t)) = Inr (f, h')
    \<and> int (length xs) = k \<and> all_released h xs (j + length pss) h'"
proof -
  have "int (length (handles q)) = k" using q(1,2) setup_okD(6) [of q] by (simp add: made_def rested_def)
  moreover have "\<forall>ps\<in>set pss. marks_all s (local_parts q) ps" using pss q(3) by simp
  ultimately show ?thesis using rounds_then_free [OF q(1) _ M] by blast
qed

lemma free_before_setup:
  "request q = Indet \<Longrightarrow> parts q = 1 \<Longrightarrow> MPIP_Request_free M (q, h) = Inl (Undefined BadPointer)"
  by (simp add: MPIP_Request_free_def for_up_step)

text \<open>
  C6: the whole life of a request in every mode that the two sides have agreed on: the init function,
  any rounds in which the sending side marks all its partitions, and \<open>MPIP_Request_free\<close>. The \<open>k\<close>
  messages are the number settled alone, the partitions of this side, or what the partner sent, which a
  background thread receives right after the init function or in the join of the first
  \<open>MPIP_Wait\<close>. The session returns, each message it created has been started once per round, nothing
  else has been started, and all have been freed. Only if the request is freed before the thread has
  run, \<open>MPIP_Request_free\<close> reads through a pointer that was never set.
\<close>

theorem session_in_every_mode:
  assumes n: "0 < n" "n \<le> INT_MAX" "0 \<le> cnt" "cnt \<le> INT_MAX"
    and a: "agreed s M n cnt peer cm info k sz" "aligned n k"
    and ft: "fits M \<lparr>buff = buf, partner = peer, tag = tg, comm = cm, mtype = ty\<rparr> k sz"
    and M: "mpi_succeeds M" "fresh_handles M" "\<And>h xs. waitall_ret M h xs"
    and pss: "\<forall>ps\<in>set pss. marks_all s n ps" and fresh: "request r = Indet"
  shows "if names M info (not_side s) \<and> \<not> early \<and> pss = []
    then session_with early s M buf n cnt ty peer tg cm info pss (r, h) = Inl (Undefined BadPointer)
    else \<exists>q h' xs. session_with early s M buf n cnt ty peer tg cm info pss (r, h) = Inr (q, h')
      \<and> int (length xs) = k \<and> all_released h xs (length pss) h'"
proof (cases "names M info (not_side s)")
  case False
  obtain q g where q: "init_request s M buf n cnt ty peer tg cm info (r, h) = Inr (q, g)"
    "threaded q \<noteq> RUNNING" "made s h 0 q g" "local_parts q = n" "parts q = k"
    using a(1) False settled_made [of n cnt M info k buf peer tg cm ty s r h] driver_made [of n cnt M info s peer cm buf tg ty r h] n a(2) ft M
    unfolding agreed_def by blast
  show ?thesis
    using rest_of_session [OF q(3,5,4) pss M(1,3)] q(1,2) False by (simp add: session_with_def)
next
  case True
  obtain q g where q: "init_request s M buf n cnt ty peer tg cm info (r, h) = Inr (q, g)" "unsynced s q" "state q = INACTIVE"
    "the_meta q = \<lparr>buff = buf, partner = peer, tag = tg, comm = cm, mtype = ty\<rparr>" "local_parts q = n" "marked q = {}"
    "request q = request r" "parts q = 1" "issued g = issued h" "begun g = begun h" "\<forall>x. starts g x = starts h x"
    using waiting_init [OF n(1,2) True] by blast
  have u: "prepared q" "side q = s" "threaded q = RUNNING" "sync_thread q = Spawned" using q(2) by (auto simp: unsynced_def)
  have rd: "recv_data M g (partner (the_meta q)) sync_tag (comm (the_meta q)) = Some (k, sz)"
    using a(1) True names_exclusive unfolding agreed_def q(4) by fastforce
  have f: "fits M (the_meta q) k sz" "aligned (local_parts q) k" using ft a(2) q(4,5) by simp_all
  show ?thesis
  proof (cases early)
    case True
    obtain q1 g1 where q1: "run_thread M (q, g) = Inr (q1, g1)" "made s g 0 q1 g1" "local_parts q1 = n" "parts q1 = k"
      using thread_leaves [OF u(1,4) f _ M(1,2) rd] q(3,5) u(2) by auto
    show ?thesis
      using rest_of_session [OF made_since [OF q1(2) q(9-11)] q1(4,3) pss M(1,3)] q(1) u(3) q1(1) True
      by (simp add: session_with_def)
  next
    case False
    show ?thesis
    proof (cases pss)
      case Nil
      with False \<open>names M info (not_side s)\<close> q(1) free_before_setup [of q M g] q(7,8) fresh show ?thesis
        by (simp add: session_with_def)
    next
      case (Cons ps pss')
      then have m: "marks_all s (local_parts q) ps" "\<forall>ps\<in>set pss'. marks_all s n ps" using pss q(5) by simp_all
      obtain q1 g1 where q1: "user_round M s ps (q, g) = Inr (q1, g1)" "made s g 1 q1 g1" "local_parts q1 = n" "parts q1 = k"
        using unsynced_round [OF q(2) f M rd m(1) q(6)] q(5) by auto
      show ?thesis
        using rest_of_session [OF made_since [OF q1(2) q(9-11)] q1(4,3) m(2) M(1,3)] q(1) q1(1) False Cons
        by (simp add: session_with_def)
    qed
  qed
qed

text \<open>Two rounds of a sender whose partner decides, with the thread in the join; and a free without a round.\<close>

theorem session_in_every_mode_witness:
  "(\<exists>q h'. session_with False SENDER (mpi_run (\<lambda>j k. Some ''RECEIVER'') (Some (2, 10)) (\<lambda>h x. True))
      0 4 5 0 1 7 0 (Info 0) [[0, 1, 2, 3], [3, 2, 1, 0]] (blank, []) = Inr (q, h') \<and> issued h' = {} \<and> begun h' = 4)
   \<and> session_with False SENDER (mpi_run (\<lambda>j k. Some ''RECEIVER'') (Some (2, 10)) (\<lambda>h x. True))
      0 4 5 0 1 7 0 (Info 0) [] (blank, []) = Inl (Undefined BadPointer)"
proof -
  let ?i = "\<lambda>(j :: nat) (k :: string). Some ''RECEIVER''"
  let ?M = "mpi_run ?i (Some (2, 10)) (\<lambda>h x. True)"
  have nm: "names ?M (Info 0) (not_side SENDER)" by (simp add: names_def mode_of_def)
  have ag: "agreed SENDER ?M 4 5 1 0 (Info 0) 2 10" unfolding agreed_def using nm by (intro disjI2) simp
  have f: "fits ?M \<lparr>buff = 0, partner = 1, tag = 7, comm = 0, mtype = 0\<rparr> 2 10" by (simp add: fits_def)
  have w: "waitall_ret ?M h xs" for h xs by (simp add: mpi_run_def list_all_iff)
  have al: "aligned 4 2" by (simp add: aligned_def)
  have b: "request blank = Indet" by (simp add: blank_def)
  note T = session_in_every_mode [OF _ _ _ _ ag al f mpi_run_succeeds mpi_run_fresh w _ b, of _ False "[]"]
  have "\<forall>ps\<in>set [[0, 1, 2, 3], [3, 2, 1, 0 :: int]]. marks_all SENDER 4 ps" by (auto simp: marks_all_def)
  from T [OF _ _ _ _ this] obtain q h' xs where
    "session_with False SENDER ?M 0 4 5 0 1 7 0 (Info 0) [[0, 1, 2, 3], [3, 2, 1, 0]] (blank, []) = Inr (q, h')"
    "int (length xs) = 2" "all_released [] xs 2 h'" by (auto simp: numeral_2_eq_2)
  moreover from this have "issued h' = {}" "begun h' = 4" by (auto simp: all_released_def)
  moreover have "session_with False SENDER ?M 0 4 5 0 1 7 0 (Info 0) [] (blank, []) = Inl (Undefined BadPointer)"
    using T [of "[]"] nm by simp
  ultimately show ?thesis by blast
qed

end
