(* ===== verification/Delivery.thy ===== *)
theory Delivery
  imports Races
begin

text \<open>
  The two sides of a transfer together. The library of the sender and that of the receiver only
  meet through MPI: what MPI promises about the histories of the two processes is \<open>delivers\<close>. The
  lemmas say that the messages of two requests set up alike are \<open>paired\<close>, and that a partition
  that has arrived consists of data the sender had marked ready.
\<close>

section \<open>Matched messages\<close>

text \<open>
  \<open>x\<close> is the only send request of history \<open>hs\<close> that matches the receive request \<open>y\<close> of \<open>hr\<close>, and
  the other way round.
\<close>

definition only_match :: "hist \<Rightarrow> hist \<Rightarrow> nat \<Rightarrow> nat \<Rightarrow> bool" where
  "only_match hs hr x y \<longleftrightarrow> (\<exists>ms mr. CSendInit ms x \<in> set hs \<and> CRecvInit mr y \<in> set hr \<and> matches ms mr
     \<and> (\<forall>m z. CSendInit m z \<in> set hs \<longrightarrow> matches m mr \<longrightarrow> z = x)
     \<and> (\<forall>m z. CRecvInit m z \<in> set hr \<longrightarrow> matches ms m \<longrightarrow> z = y))"

text \<open>The receives on a handle that have completed: all that were started, except an active one.\<close>

definition completions :: "hist \<Rightarrow> nat \<Rightarrow> nat" where
  "completions h x = starts h x - (if active h x then 1 else 0)"

text \<open>
  The promise of MPI: a receive completes only with the data of a matching send that has been
  started, one send for each receive.
\<close>

definition delivers :: "hist \<Rightarrow> hist \<Rightarrow> bool" where
  "delivers hs hr \<longleftrightarrow> (\<forall>x y. only_match hs hr x y \<longrightarrow> completions hr y \<le> starts hs x)"

text \<open>Message \<open>i\<close> of one request is matched with message \<open>i\<close> of the other.\<close>

definition paired :: "hist \<Rightarrow> nat list \<Rightarrow> hist \<Rightarrow> nat list \<Rightarrow> bool" where
  "paired hs xs hr ys \<longleftrightarrow> length ys = length xs \<and> (\<forall>i<length xs. only_match hs hr (xs ! i) (ys ! i))"

lemma only_match_cong:
  assumes "\<And>m z. CSendInit m z \<in> set hs' \<longleftrightarrow> CSendInit m z \<in> set hs"
    and "\<And>m z. CRecvInit m z \<in> set hr' \<longleftrightarrow> CRecvInit m z \<in> set hr"
  shows "only_match hs' hr' x y = only_match hs hr x y"
  by (simp add: only_match_def assms)

text \<open>Requests with the same number of messages, tag and communicator are paired by their setup.\<close>

lemma set_up_send_init:
  assumes "set_up M g r q h" "side r = SENDER" "\<And>m z. CSendInit m z \<notin> set g"
  shows "CSendInit m z \<in> set h \<longleftrightarrow> (\<exists>i<length (handles q). m = message M (the_meta r) (psize q) (int i) \<and> z = handles q ! i)"
  using assms by (auto simp: set_up_def init_calls_def init_call_def image_iff)

lemma set_up_recv_init:
  assumes "set_up M g r q h" "side r = RECEIVER" "\<And>m z. CRecvInit m z \<notin> set g"
  shows "CRecvInit m z \<in> set h \<longleftrightarrow> (\<exists>i<length (handles q). m = message M (the_meta r) (psize q) (int i) \<and> z = handles q ! i)"
  using assms by (auto simp: set_up_def init_calls_def init_call_def image_iff)

lemma set_up_paired:
  assumes s: "set_up M g r q h" "side r = SENDER" "\<And>m z. CSendInit m z \<notin> set g"
    and t: "set_up M' g' r' q' h'" "side r' = RECEIVER" "\<And>m z. CRecvInit m z \<notin> set g'"
    and same: "parts q' = parts q" "tag (the_meta r') = tag (the_meta r)" "comm (the_meta r') = comm (the_meta r)"
  shows "paired h (handles q) h' (handles q')"
proof -
  note S = set_up_send_init [OF s] and T = set_up_recv_init [OF t]
  have len: "length (handles q') = length (handles q)"
    using set_up_handles [OF s(1)] set_up_handles [OF t(1)] same(1) by simp
  have match: "matches (message M (the_meta r) (psize q) (int i)) (message M' (the_meta r') (psize q') (int j)) \<longleftrightarrow> i = j" for i j
    using message_matches_iff [of "the_meta r" "the_meta r'" M "psize q" "int i" M' "psize q'" "int j"] same by simp
  have "only_match h h' (handles q ! i) (handles q' ! i)" if "i < length (handles q)" for i
    unfolding only_match_def S T using that len match
    by (intro exI [of _ "message M (the_meta r) (psize q) (int i)"] exI [of _ "message M' (the_meta r') (psize q') (int i)"]) auto
  then show ?thesis using len by (simp add: paired_def)
qed

section \<open>What has arrived was ready\<close>

text \<open>The message that carries an element.\<close>

lemma element_message:
  assumes n: "n * sz = lp * ls" "0 < ls" "0 < n" and q: "0 \<le> q" "q < lp" and e: "q * ls \<le> e" "e < (q + 1) * ls"
  shows "0 \<le> e div sz" "e div sz < n" "shares_data ls sz q (e div sz)"
proof -
  have "0 < n * sz" unfolding n(1) using q n(2) by simp
  with n(3) have sz: "0 < sz" by (simp add: zero_less_mult_iff)
  have e0: "0 \<le> e" using q e(1) n(2) by (meson mult_nonneg_nonneg order_trans less_imp_le)
  then show "0 \<le> e div sz" using sz by (simp add: pos_imp_zdiv_nonneg_iff)
  have "(q + 1) * ls \<le> lp * ls" using q n(2) by (intro mult_right_mono) auto
  with e(2) n(1) have "e < sz * n" by (simp add: mult.commute)
  then show "e div sz < n" by (rule div_less_factor [OF sz])
  have "sz * (e div sz) \<le> e" "e < sz * (e div sz + 1)" using div_eq_iff_interval [OF sz, of e "e div sz"] by auto
  with e show "shares_data ls sz q (e div sz)" by (auto simp: shares_data_def mult.commute)
qed

text \<open>An arrived partition has all its messages complete.\<close>

lemma arrived_complete:
  assumes at: "receiver_at (r, h)" and p: "0 \<le> p" "p < local_parts r" and M: "mpi_succeeds M"
    and a: "MPIP_Parrived M p (r, h) = Inr (1, r', h')" and i: "0 \<le> i" "i < parts r" "p \<in> deps (local_parts r) (parts r) i"
  shows "\<not> active h' (handles r ! nat i) \<and> starts h' (handles r ! nat i) = starts h (handles r ! nat i)
    \<and> (\<forall>m z. CRecvInit m z \<in> set h' \<longleftrightarrow> CRecvInit m z \<in> set h)"
proof -
  note R = receiver_atD [OF at]
  have x: "handles r ! nat i \<in> set (part_handles r p)" using set_part_handles [OF R(1,2) p] i by auto
  show ?thesis
  proof (cases "p \<in> marked r")
    case True
    with parrived_known [OF at True, of M] a R(6) [OF True x] show ?thesis by simp
  next
    case False
    with parrived_eq [OF at p False M] a
    have "h' = CTestall (part_handles r p) 1 # h" by auto
    with x show ?thesis by simp
  qed
qed

lemma arrival_implies_start:
  assumes at: "receiver_at (rr, hr)" and p: "0 \<le> p" "p < local_parts rr" and M: "mpi_succeeds M"
    and a: "MPIP_Parrived M p (rr, hr) = Inr (1, rr', hr')"
    and pair: "paired hs xs hr (handles rr)" and del: "delivers hs hr'"
    and i: "0 \<le> i" "i < parts rr" "p \<in> deps (local_parts rr) (parts rr) i"
    and round: "starts hr (handles rr ! nat i) = Suc k"
  shows "k < starts hs (xs ! nat i)"
proof -
  note A = arrived_complete [OF at p M a i]
  have "nat i < length (handles rr)" using i setup_okD(6) [OF receiver_atD(1) [OF at]] by linarith
  then have "only_match hs hr (xs ! nat i) (handles rr ! nat i)" using pair by (simp add: paired_def)
  then have "only_match hs hr' (xs ! nat i) (handles rr ! nat i)"
    using only_match_cong [of hs hs hr' hr] A by auto
  then have "completions hr' (handles rr ! nat i) \<le> starts hs (xs ! nat i)" using del by (simp add: delivers_def)
  with A round show ?thesis by (simp add: completions_def)
qed

section \<open>What was sent arrives\<close>

text \<open>
  A client that asks for a partition until it has arrived, at most \<open>k\<close> times.
\<close>

fun ask :: "mpi \<Rightarrow> int \<Rightarrow> nat \<Rightarrow> mpip \<times> hist \<Rightarrow> (int \<times> mpip \<times> hist) res" where
  "ask M p 0 t = Inr (0, t)"
| "ask M p (Suc k) t = bindE (MPIP_Parrived M p t) (\<lambda>(f, t). if f \<noteq> 0 then Inr (f, t) else ask M p k t)"

text \<open>
  The progress MPI promises: receives whose matching sends have been started, as often as the
  receives, are complete after at most \<open>k\<close> unsuccessful tests.
\<close>

definition progress_within :: "nat \<Rightarrow> mpi \<Rightarrow> hist \<Rightarrow> bool" where
  "progress_within k M hs \<longleftrightarrow> (\<forall>h ys. (\<forall>y\<in>set ys. \<exists>x. only_match hs h x y \<and> starts h y \<le> starts hs x)
     \<longrightarrow> k \<le> count_list h (CTestall ys 0) \<longrightarrow> testall_flag M h ys = 1)"

text \<open>
  The same promise from a moment on: of the tests made after history \<open>h\<close>, at most \<open>k\<close> of the same
  receives are unsuccessful when their matching sends have been started before.
\<close>

definition only_tests :: "hist \<Rightarrow> bool" where
  "only_tests ts \<longleftrightarrow> (\<forall>c\<in>set ts. \<exists>ys f. c = CTestall ys f)"

lemma only_tests_Nil: "only_tests []"
  by (simp add: only_tests_def)

lemma only_tests_append: "only_tests ts \<Longrightarrow> only_tests us \<Longrightarrow> only_tests (us @ ts)"
  by (auto simp: only_tests_def)

definition progress_from :: "nat \<Rightarrow> mpi \<Rightarrow> hist \<Rightarrow> hist \<Rightarrow> bool" where
  "progress_from k M hs h \<longleftrightarrow> (\<forall>ts ys. only_tests ts \<longrightarrow>
     (\<forall>y\<in>set ys. \<exists>x. only_match hs h x y \<and> starts h y \<le> starts hs x) \<longrightarrow>
     k \<le> count_list ts (CTestall ys 0) \<longrightarrow> testall_flag M (ts @ h) ys = 1)"

lemma only_tests_same:
  assumes "only_tests ts"
  shows "starts (ts @ h) y = starts h y" "only_match hs (ts @ h) x y = only_match hs h x y"
proof -
  have "starts ts y = 0" using assms by (induction ts) (auto simp: only_tests_def)
  then show "starts (ts @ h) y = starts h y" by simp
  show "only_match hs (ts @ h) x y = only_match hs h x y"
    using assms by (intro only_match_cong) (auto simp: only_tests_def)
qed

lemma progress_within_from: "progress_within k M hs \<Longrightarrow> progress_from k M hs h"
  unfolding progress_from_def
proof (intro allI impI)
  fix ts ys assume p: "progress_within k M hs" and t: "only_tests ts"
    and y: "\<forall>y\<in>set ys. \<exists>x. only_match hs h x y \<and> starts h y \<le> starts hs x" and k: "k \<le> count_list ts (CTestall ys 0)"
  have "\<forall>y\<in>set ys. \<exists>x. only_match hs (ts @ h) x y \<and> starts (ts @ h) y \<le> starts hs x" using y by (simp only: only_tests_same [OF t])
  moreover have "k \<le> count_list (ts @ h) (CTestall ys 0)" using k by (simp add: count_list_append)
  ultimately show "testall_flag M (ts @ h) ys = 1" using p unfolding progress_within_def by blast
qed

lemma ask_arrives:
  assumes "receiver_at (r, h)" and p: "0 \<le> p" "p < local_parts r" and M: "mpi_succeeds M" "flags_boolean M"
    and "\<And>m. k \<le> m \<Longrightarrow> testall_flag M (replicate m (CTestall (part_handles r p) 0) @ h) (part_handles r p) = 1"
  shows "\<exists>r' h'. ask M p (Suc k) (r, h) = Inr (1, r', h')"
  using assms(1,6) p
proof (induction k arbitrary: r h)
  case (0 r h)
  then show ?case
  proof (cases "p \<in> marked r")
    case True
    with parrived_known [OF 0(1) True, of M] show ?thesis by simp
  next
    case False
    then obtain u where "MPIP_Parrived M p (r, h) = Inr (1, u)"
      using parrived_eq [OF 0(1,3,4) False M(1)] 0(2) [of 0] by auto
    then show ?thesis by (cases u) simp
  qed
next
  case (Suc k r h)
  let ?xs = "part_handles r p" and ?f = "testall_flag M h (part_handles r p)"
  consider "p \<in> marked r" | "p \<notin> marked r" "?f = 1" | "p \<notin> marked r" "?f = 0"
    using M(2) by (auto simp: flags_boolean_def)
  then show ?case
  proof cases
    case 1
    with parrived_known [OF Suc.prems(1) 1, of M] show ?thesis by simp
  next
    case 2
    then obtain u where "MPIP_Parrived M p (r, h) = Inr (1, u)"
      using parrived_eq [OF Suc.prems(1,3,4) 2(1) M(1)] by auto
    then show ?thesis by (cases u) simp
  next
    case 3
    obtain st where st: "MPIP_Parrived M p (r, h) = Inr (0, r\<lparr>local_status := st\<rparr>, CTestall ?xs 0 # h)"
      "blk_set (local_status r) p False = Inr st"
      using parrived_eq [OF Suc.prems(1,3,4) 3(1) M(1)] 3(2) by auto
    have "receiver_at (r\<lparr>local_status := st\<rparr>, CTestall ?xs 0 # h)"
      using parrived_receiver_at [OF Suc.prems(1,3,4) 3(1), of 0 st] st(2) by simp
    moreover have "testall_flag M (replicate m (CTestall ?xs 0) @ CTestall ?xs 0 # h) ?xs = 1" if "k \<le> m" for m
      using Suc.prems(2) [of "Suc m"] that by (simp add: replicate_app_Cons_same)
    ultimately have "\<exists>r' h'. ask M p (Suc k) (r\<lparr>local_status := st\<rparr>, CTestall ?xs 0 # h) = Inr (1, r', h')"
      using Suc.prems(3,4) by (intro Suc.IH) (auto simp: part_handles_def)
    with st(1) show ?thesis by (simp only: ask.simps(2) [of M p "Suc k"]) simp
  qed
qed

lemma started_data_arrives:
  assumes at: "receiver_at (r, h)" and p: "0 \<le> p" "p < local_parts r" and M: "mpi_succeeds M" "flags_boolean M"
    and pr: "progress_within k M hs" and pair: "paired hs xs h (handles r)"
    and st: "\<And>i. 0 \<le> i \<Longrightarrow> i < parts r \<Longrightarrow> p \<in> deps (local_parts r) (parts r) i \<Longrightarrow>
      starts h (handles r ! nat i) \<le> starts hs (xs ! nat i)"
  shows "\<exists>r' h'. ask M p (Suc k) (r, h) = Inr (1, r', h')"
proof (rule ask_arrives [OF at p M])
  fix m assume k: "k \<le> m"
  note R = receiver_atD [OF at]
  let ?c = "CTestall (part_handles r p) 0" and ?h = "replicate m (CTestall (part_handles r p) 0) @ h"
  have same: "starts ?h y = starts h y" "only_match hs ?h x y = only_match hs h x y" for x y
    by (induction m) (auto intro!: only_match_cong)
  have "\<exists>x. only_match hs ?h x y \<and> starts ?h y \<le> starts hs x" if "y \<in> set (part_handles r p)" for y
  proof -
    have "\<exists>i. y = handles r ! nat i \<and> 0 \<le> i \<and> i < parts r \<and> p \<in> deps (local_parts r) (parts r) i"
      using that unfolding set_part_handles [OF R(1,2) p] by (rule CollectD)
    then obtain i where i: "0 \<le> i" "i < parts r" "p \<in> deps (local_parts r) (parts r) i" "y = handles r ! nat i"
      by (elim exE conjE)
    have "nat i < length (handles r)" using i(1,2) setup_okD(6) [OF R(1)] by linarith
    with pair have "only_match hs h (xs ! nat i) (handles r ! nat i)" unfolding paired_def by metis
    with st [OF i(1-3)] show ?thesis unfolding same i(4) by blast
  qed
  moreover have "count_list (replicate m c @ h) c = m + count_list h c" for c by (induction m) simp_all
  then have "k \<le> count_list ?h ?c" using k by simp
  ultimately show "testall_flag M ?h (part_handles r p) = 1" using pr by (simp add: progress_within_def)
qed

end
