(* ===== verification/Array_Loops.thy ===== *)
theory Array_Loops
  imports Completion
begin

text \<open>
  The bindings on arrays of requests are loops that apply one operation to each element in
  order. This theory has the element access, the reference definition \<open>poll_all\<close> (one pass of
  an operation over a list), the lemma that equates an indexed loop with it, and the locale
  \<open>pollable\<close>: what the array functions rely on in the test of one element.
\<close>

definition on_elem ::
    "int \<Rightarrow> ('r \<times> hist \<Rightarrow> ('a \<times> 'r \<times> hist) res) \<Rightarrow> 'r list \<times> hist \<Rightarrow> ('a \<times> 'r list \<times> hist) res" where
  "on_elem i f = (\<lambda>(rs, h).
     if 0 \<le> i \<and> i < int (length rs)
     then bindE (f (rs ! nat i, h)) (\<lambda>(a, r, h). Inr (a, rs[nat i := r], h))
     else Inl (Undefined OutOfBounds))"

fun poll_all ::
    "('r \<times> hist \<Rightarrow> ('a \<times> 'r \<times> hist) res) \<Rightarrow> 'r list \<Rightarrow> hist \<Rightarrow> ('a list \<times> 'r list \<times> hist) res" where
  "poll_all f [] h = Inr ([], [], h)"
| "poll_all f (r # rs) h =
     bindE (f (r, h)) (\<lambda>(a, r, h).
     bindE (poll_all f rs h) (\<lambda>(as, rs, h). Inr (a # as, r # rs, h)))"

text \<open>What a loop that folds the results computes from the list of the results.\<close>

fun fold_from :: "(int \<Rightarrow> 'a \<Rightarrow> 'c \<Rightarrow> 'c) \<Rightarrow> int \<Rightarrow> 'a list \<Rightarrow> 'c \<Rightarrow> 'c" where
  "fold_from g k [] c = c"
| "fold_from g k (a # as) c = fold_from g (k + 1) as (g k a c)"

lemma array_loop:
  "for_up (int (length pre)) (int (length pre + length rs)) (\<lambda>i (c, rs, h).
      bindE (on_elem i f (rs, h)) (\<lambda>(a, rs, h). Inr (g i a c, rs, h))) (c, pre @ rs, h)
   = bindE (poll_all f rs h) (\<lambda>(as, rs', h').
      Inr (fold_from g (int (length pre)) as c, pre @ rs', h'))"
proof (induction rs arbitrary: pre c h)
  case Nil
  then show ?case by simp
next
  case (Cons r rs)
  show ?case
  proof (cases "f (r, h)")
    case (Inl e)
    then show ?thesis by (simp add: for_up_step on_elem_def nth_append)
  next
    case (Inr x)
    obtain a r' h' where x: "x = (a, r', h')" by (cases x) auto
    have "for_up (int (length pre)) (int (length pre + length (r # rs))) (\<lambda>i (c, rs, h).
          bindE (on_elem i f (rs, h)) (\<lambda>(a, rs, h). Inr (g i a c, rs, h))) (c, pre @ r # rs, h)
        = for_up (int (length (pre @ [r']))) (int (length (pre @ [r']) + length rs)) (\<lambda>i (c, rs, h).
          bindE (on_elem i f (rs, h)) (\<lambda>(a, rs, h). Inr (g i a c, rs, h)))
            (g (int (length pre)) a c, (pre @ [r']) @ rs, h')"
      using Inr x by (simp add: for_up_step on_elem_def nth_append list_update_append add.commute)
    also have "\<dots> = bindE (poll_all f rs h') (\<lambda>(as, rs', h'').
        Inr (fold_from g (int (length (pre @ [r']))) as (g (int (length pre)) a c), (pre @ [r']) @ rs', h''))"
      by (rule Cons.IH)
    also have "\<dots> = bindE (poll_all f (r # rs) h) (\<lambda>(as, rs', h').
        Inr (fold_from g (int (length pre)) as c, pre @ rs', h'))"
      using Inr x by (cases "poll_all f rs h'") (auto simp: add.commute)
    finally show ?thesis .
  qed
qed

lemma array_loop_0:
  "for_up 0 (int (length rs)) (\<lambda>i (c, rs, h).
      bindE (on_elem i f (rs, h)) (\<lambda>(a, rs, h). Inr (g i a c, rs, h))) (c, rs, h)
   = bindE (poll_all f rs h) (\<lambda>(as, rs', h'). Inr (fold_from g 0 as c, rs', h'))"
  using array_loop [where pre = "[]"] by simp

lemma poll_all_length:
  "poll_all f rs h = Inr (as, rs', h') \<Longrightarrow> length as = length rs \<and> length rs' = length rs"
  by (induction rs arbitrary: h as rs' h') auto

text \<open>A fold that only tracks the state is one on the pair with a unit accumulator.\<close>

lemma poll_all_ok:
  assumes "\<And>r h. r \<in> set rs \<Longrightarrow> \<exists>a r' h'. f (r, h) = Inr (a, r', h')"
  shows "\<exists>as rs' h'. poll_all f rs h = Inr (as, rs', h')"
  using assms
proof (induction rs arbitrary: h)
  case (Cons r rs)
  obtain a r' h1 where f: "f (r, h) = Inr (a, r', h1)" using Cons.prems [of r h] by auto
  obtain as rs' h2 where "poll_all f rs h1 = Inr (as, rs', h2)"
    using Cons.IH [of h1] Cons.prems by auto
  with f show ?case by simp
qed simp

section \<open>The interface of a test\<close>

text \<open>
  An idle element answers 0 and does not change; an element that answers 1 is idle
  afterwards; an element that answers anything else does not change.
\<close>

locale pollable =
  fixes test :: "'r \<times> hist \<Rightarrow> (int \<times> 'r \<times> hist) res"
    and idle :: "'r \<Rightarrow> bool"
  assumes idle_test: "idle r \<Longrightarrow> test (r, h) = Inr (0, r, h)"
    and completed_idle: "test (r, h) = Inr (f, r', h') \<Longrightarrow> f = 1 \<Longrightarrow> idle r'"
    and pending_same: "test (r, h) = Inr (f, r', h') \<Longrightarrow> f \<noteq> 1 \<Longrightarrow> r' = r"
begin

lemma poll_all_nth:
  "poll_all test rs h = Inr (fs, rs', h') \<Longrightarrow> k < length rs \<Longrightarrow>
   (idle (rs ! k) \<longrightarrow> fs ! k = 0) \<and> (fs ! k = 1 \<longrightarrow> idle (rs' ! k)) \<and> (fs ! k \<noteq> 1 \<longrightarrow> rs' ! k = rs ! k)"
proof (induction rs arbitrary: h fs rs' k)
  case (Cons r rs)
  then obtain f r1 h1 fs1 rs1 where t: "test (r, h) = Inr (f, r1, h1)"
    "poll_all test rs h1 = Inr (fs1, rs1, h')" "fs = f # fs1" "rs' = r1 # rs1"
    by auto
  show ?case
  proof (cases k)
    case 0
    with t show ?thesis
      using idle_test [of r h] completed_idle [OF t(1)] pending_same [OF t(1)] by auto
  next
    case (Suc j)
    with t Cons.IH [OF t(2), of j] Cons.prems show ?thesis by simp
  qed
qed simp

text \<open>An idle element stays idle, and answers 0, in every later pass.\<close>

lemma poll_all_idle:
  assumes "poll_all test rs h = Inr (fs, rs', h')" "k < length rs" "idle (rs ! k)"
  shows "fs ! k = 0 \<and> idle (rs' ! k)"
  using poll_all_nth [OF assms(1,2)] assms(3) by auto

lemma poll_all_completed:
  assumes "poll_all test rs h = Inr (fs, rs', h')" "k < length rs" "fs ! k = 1"
  shows "\<not> idle (rs ! k)" "idle (rs' ! k)"
  using poll_all_nth [OF assms(1,2)] assms(3) by auto

lemma poll_all_idle_list:
  "(\<forall>r\<in>set rs. idle r) \<Longrightarrow> poll_all test rs h = Inr (replicate (length rs) 0, rs, h)"
  by (induction rs) (auto simp: idle_test)

end

end
