(* ===== verification/Array_Api.thy ===== *)
theory Array_Api
  imports Array_Loops "HOL-Library.Word"
begin

unbundle bit_operations_syntax

text \<open>
  The bindings on arrays of requests (\<open>library/bindings\<close>): \<open>MPIP_Startall\<close>, \<open>MPIP_Waitall\<close>,
  \<open>MPIP_Testall\<close>, \<open>MPIP_Testany\<close>, \<open>MPIP_Testsome\<close>, \<open>MPIP_Waitany\<close>, \<open>MPIP_Waitsome\<close>. The two polling
  loops may run forever and are partial functions: \<open>None\<close> is a loop that never ends.
\<close>

section \<open>The functions\<close>

text \<open>One iteration of \<open>MPIP_Startall\<close> and of \<open>MPIP_Waitall\<close>: the call and the check of its result.\<close>

definition elem_start :: "mpi \<Rightarrow> mpip \<times> hist \<Rightarrow> (unit \<times> mpip \<times> hist) res" where
  "elem_start M t = bindE (checked (MPIP_Start M t)) (\<lambda>t. Inr ((), t))"

definition elem_wait :: "mpi \<Rightarrow> mpip \<times> hist \<Rightarrow> (unit \<times> mpip \<times> hist) res" where
  "elem_wait M t = bindE (checked (MPIP_Wait M t)) (\<lambda>t. Inr ((), t))"

definition MPIP_Startall :: "mpi \<Rightarrow> int \<Rightarrow> mpip list \<times> hist \<Rightarrow> (int \<times> mpip list \<times> hist) res" where
  "MPIP_Startall M count = (\<lambda>(rs, h).
     bindE (for_up 0 count (\<lambda>i (ok, rs, h).
       bindE (on_elem i (elem_start M) (rs, h))
         (\<lambda>(_, rs, h). Inr (ok, rs, h))) ((), rs, h))
       (\<lambda>(_, rs, h). Inr (MPI_SUCCESS, rs, h)))"

definition MPIP_Waitall :: "mpi \<Rightarrow> int \<Rightarrow> mpip list \<times> hist \<Rightarrow> (int \<times> mpip list \<times> hist) res" where
  "MPIP_Waitall M count = (\<lambda>(rs, h).
     bindE (for_up 0 count (\<lambda>i (ok, rs, h).
       bindE (on_elem i (elem_wait M) (rs, h))
         (\<lambda>(_, rs, h). Inr (ok, rs, h))) ((), rs, h))
       (\<lambda>(_, rs, h). Inr (MPI_SUCCESS, rs, h)))"

text \<open>\<open>MPIP_Test\<close> on an array element: the address is never \<open>NULL\<close>. The result is the flag.\<close>

definition elem_test :: "mpi \<Rightarrow> mpip \<times> hist \<Rightarrow> (int \<times> mpip \<times> hist) res" where
  "elem_test M = (\<lambda>(r, h).
     bindE (checked (MPIP_Test M (Some r, h))) (\<lambda>(flag, ro, h).
     case ro of None \<Rightarrow> Inl (Undefined BadPointer) | Some r \<Rightarrow> Inr (flag, r, h)))"

definition MPIP_Testall :: "mpi \<Rightarrow> int \<Rightarrow> mpip list \<times> hist \<Rightarrow> (int \<times> mpip list \<times> hist) res" where
  "MPIP_Testall M count = (\<lambda>(rs, h).
     for_up 0 count (\<lambda>i (flag, rs, h).
       bindE (on_elem i (elem_test M) (rs, h)) (\<lambda>(myflag, rs, h). Inr (flag AND myflag, rs, h)))
       (1, rs, h))"

text \<open>
  The scan of \<open>MPIP_Testany\<close> and \<open>MPIP_Waitany\<close>: it stops at the first flag that is 1. The index
  and the flag are output arguments, which keep their values when nothing stores into them.
\<close>

function any_scan ::
    "mpi \<Rightarrow> int \<Rightarrow> int \<Rightarrow> int \<Rightarrow> int \<Rightarrow> mpip list \<times> hist \<Rightarrow> (int \<times> int \<times> mpip list \<times> hist) res" where
  "any_scan M i count index flag t =
     (if i < count
      then bindE (on_elem i (elem_test M) t) (\<lambda>(flag, t).
           if flag = 1 then Inr (i, flag, t) else any_scan M (i + 1) count index flag t)
      else Inr (index, flag, t))"
  by pat_completeness auto
termination
  by (relation "measure (\<lambda>(_, i, count, _). nat (count - i))") auto

declare any_scan.simps [simp del]

definition MPIP_Testany ::
    "mpi \<Rightarrow> int \<Rightarrow> int \<Rightarrow> int \<Rightarrow> mpip list \<times> hist \<Rightarrow> (int \<times> int \<times> mpip list \<times> hist) res" where
  "MPIP_Testany M count index flag t = any_scan M 0 count index flag t"

partial_function (option) waitany_loop ::
    "mpi \<Rightarrow> int \<Rightarrow> int \<Rightarrow> mpip list \<times> hist \<Rightarrow> (int \<times> mpip list \<times> hist) res option" where
  "waitany_loop M count index t =
     (case any_scan M 0 count index 0 t of
        Inl e \<Rightarrow> Some (Inl e)
      | Inr (index, flag, t) \<Rightarrow>
          if flag \<noteq> 0 then Some (Inr (index, t)) else waitany_loop M count index t)"

definition MPIP_Waitany ::
    "mpi \<Rightarrow> int \<Rightarrow> int \<Rightarrow> mpip list \<times> hist \<Rightarrow> (int \<times> mpip list \<times> hist) res option" where
  "MPIP_Waitany M count index t = waitany_loop M count index t"

text \<open>
  The index array of the user is a function from positions to values. \<open>MPIP_Testsome\<close> stores at
  the position \<open>*outcount\<close>, \<open>MPIP_Waitsome\<close> at a counter \<open>j\<close> of its own.
\<close>

definition some_store :: "int \<Rightarrow> int \<Rightarrow> int \<times> (int \<Rightarrow> int) \<Rightarrow> int \<times> (int \<Rightarrow> int)" where
  "some_store i flag = (\<lambda>(outcount, idx).
     if flag = 1 then (outcount + 1, idx(outcount := i)) else (outcount, idx))"

definition MPIP_Testsome ::
    "mpi \<Rightarrow> int \<Rightarrow> (int \<Rightarrow> int) \<Rightarrow> mpip list \<times> hist \<Rightarrow> ((int \<times> (int \<Rightarrow> int)) \<times> mpip list \<times> hist) res" where
  "MPIP_Testsome M incount idx = (\<lambda>(rs, h).
     for_up 0 incount (\<lambda>i (out, rs, h).
       bindE (on_elem i (elem_test M) (rs, h)) (\<lambda>(flag, rs, h). Inr (some_store i flag out, rs, h)))
       ((0, idx), rs, h))"

definition waitsome_store :: "int \<Rightarrow> int \<Rightarrow> int \<times> int \<times> (int \<Rightarrow> int) \<Rightarrow> int \<times> int \<times> (int \<Rightarrow> int)" where
  "waitsome_store i flag = (\<lambda>(outcount, j, idx).
     if flag = 1 then (outcount + 1, j + 1, idx(j := i)) else (outcount, j, idx))"

definition some_pass ::
    "mpi \<Rightarrow> int \<Rightarrow> (int \<times> int \<times> (int \<Rightarrow> int)) \<times> mpip list \<times> hist
       \<Rightarrow> ((int \<times> int \<times> (int \<Rightarrow> int)) \<times> mpip list \<times> hist) res" where
  "some_pass M incount =
     for_up 0 incount (\<lambda>i (out, rs, h).
       bindE (on_elem i (elem_test M) (rs, h)) (\<lambda>(flag, rs, h). Inr (waitsome_store i flag out, rs, h)))"

partial_function (option) waitsome_loop ::
    "mpi \<Rightarrow> int \<Rightarrow> (int \<times> int \<times> (int \<Rightarrow> int)) \<times> mpip list \<times> hist
       \<Rightarrow> ((int \<times> int \<times> (int \<Rightarrow> int)) \<times> mpip list \<times> hist) res option" where
  "waitsome_loop M incount s =
     (if fst (fst s) < 1
      then (case some_pass M incount s of Inl e \<Rightarrow> Some (Inl e) | Inr s \<Rightarrow> waitsome_loop M incount s)
      else Some (Inr s))"

definition MPIP_Waitsome ::
    "mpi \<Rightarrow> int \<Rightarrow> (int \<Rightarrow> int) \<Rightarrow> mpip list \<times> hist
       \<Rightarrow> ((int \<times> (int \<Rightarrow> int)) \<times> mpip list \<times> hist) res option" where
  "MPIP_Waitsome M incount idx t =
     map_option (\<lambda>x. bindE x (\<lambda>((outcount, j, idx), t). Inr ((outcount, idx), t)))
       (waitsome_loop M incount ((0, 0, idx), t))"

end
