(* ===== verification/Array_Facts.thy ===== *)
theory Array_Facts
  imports Array_Api
begin

text \<open>
  What the array bindings compute, as one pass of the single-request operation over the list:
  the interpretation of the locale \<open>pollable\<close> on \<open>MPIP_Test\<close>, the loops in terms of \<open>poll_all\<close>,
  the results of the folds, and when the two polling loops return.
\<close>

section \<open>The test of one element\<close>

lemma elem_test_eq_Inr:
  "elem_test M (r, h) = Inr (f, r', h') \<longleftrightarrow>
     (\<exists>ro. MPIP_Test M (Some r, h) = Inr (MPI_SUCCESS, f, ro, h') \<and> ro = Some r')"
  by (auto simp: elem_test_def checked_def split: option.splits)

lemma MPIP_Test_cases:
  assumes "MPIP_Test M (Some r, h) = Inr (rv, f, ro, h')"
  shows "(f = 0 \<and> ro = Some r \<and> h' = h)
    \<or> (state r = ACTIVE \<and> threaded r \<noteq> RUNNING \<and> ro = Some (if f = 1 then r\<lparr>state := INACTIVE\<rparr> else r)
       \<and> (\<exists>xs. blk_slice (request r) 0 (parts r) = Inr xs \<and> f = testall_flag M h xs \<and> h' = CTestall xs f # h))"
proof (cases "state r = INACTIVE")
  case True
  with assms show ?thesis by (simp add: MPIP_Test_def)
next
  case False
  then have "state r = ACTIVE" by (cases "state r") auto
  with assms show ?thesis
    by (auto simp: MPIP_Test_def MPI_Testall_eq_Inr split: if_splits)
qed

interpretation poll: pollable "elem_test M" "\<lambda>r. state r = INACTIVE" for M
proof
  fix r h
  show "state r = INACTIVE \<Longrightarrow> elem_test M (r, h) = Inr (0, r, h)"
    by (simp add: elem_test_def MPIP_Test_inactive)
next
  fix r h f r' h'
  assume "elem_test M (r, h) = Inr (f, r', h')"
  then obtain ro where t: "MPIP_Test M (Some r, h) = Inr (MPI_SUCCESS, f, ro, h')" "ro = Some r'"
    by (auto simp: elem_test_eq_Inr)
  from MPIP_Test_cases [OF t(1)] t(2)
  show "f = 1 \<Longrightarrow> state r' = INACTIVE" and "f \<noteq> 1 \<Longrightarrow> r' = r" by auto
qed

text \<open>A request whose test cannot stop: inactive, still in setup, or set up.\<close>

definition testable :: "mpip \<Rightarrow> bool" where
  "testable r \<longleftrightarrow> state r = INACTIVE \<or> (lock r = MReady \<and> threaded r = RUNNING) \<or> setup_ok r"

lemma elem_test_ok:
  assumes "testable r" "mpi_succeeds M"
  shows "\<exists>f r' h'. elem_test M (r, h) = Inr (f, r', h') \<and> testable r'"
proof (cases "state r = INACTIVE")
  case True
  then show ?thesis using assms poll.idle_test [OF True, of M h] by blast
next
  case False
  then have a: "state r = ACTIVE" by (cases "state r") auto
  show ?thesis
  proof (cases "threaded r = RUNNING")
    case True
    moreover from this a assms have "lock r = MReady" by (auto simp: testable_def setup_okD(11))
    ultimately show ?thesis using a assms by (simp add: elem_test_def MPIP_Test_running)
  next
    case False
    with a assms have ok: "setup_ok r" by (auto simp: testable_def)
    have "testable (if f = 1 then r\<lparr>state := INACTIVE\<rparr> else r)" for f :: int
      using assms by (auto simp: testable_def)
    then show ?thesis
      using MPIP_Test_eq [OF ok a False assms(2), of h] by (simp add: elem_test_def)
  qed
qed

lemma elem_test_flag: "flags_boolean M \<Longrightarrow> elem_test M (r, h) = Inr (f, r', h') \<Longrightarrow> f = 0 \<or> f = 1"
  using MPIP_Test_cases by (fastforce simp: elem_test_eq_Inr flags_boolean_def)

lemma poll_flags: "flags_boolean M \<Longrightarrow> poll_all (elem_test M) rs h = Inr (fs, rs', h') \<Longrightarrow> set fs \<subseteq> {0, 1}"
proof (induction rs arbitrary: h fs rs')
  case (Cons r rs)
  then obtain f r1 h1 fs1 rs1 where "elem_test M (r, h) = Inr (f, r1, h1)"
    "poll_all (elem_test M) rs h1 = Inr (fs1, rs1, h')" "fs = f # fs1" by auto
  with Cons elem_test_flag [of M r h f r1 h1] show ?case by auto
qed simp

section \<open>The loops as passes\<close>

lemma MPIP_Testall_eq:
  "MPIP_Testall M (int (length rs)) (rs, h)
     = bindE (poll_all (elem_test M) rs h) (\<lambda>(fs, rs', h'). Inr (fold_from (\<lambda>i f c. c AND f) 0 fs 1, rs', h'))"
  using array_loop_0 [of rs "elem_test M" "\<lambda>i f c. c AND f" 1 h] by (simp add: MPIP_Testall_def)

lemma MPIP_Testsome_eq:
  "MPIP_Testsome M (int (length rs)) idx (rs, h)
     = bindE (poll_all (elem_test M) rs h) (\<lambda>(fs, rs', h'). Inr (fold_from some_store 0 fs (0, idx), rs', h'))"
  using array_loop_0 [of rs "elem_test M" some_store "(0, idx)" h] by (simp add: MPIP_Testsome_def)

lemma some_pass_eq:
  "some_pass M (int (length rs)) (out, rs, h)
     = bindE (poll_all (elem_test M) rs h) (\<lambda>(fs, rs', h'). Inr (fold_from waitsome_store 0 fs out, rs', h'))"
  using array_loop_0 [of rs "elem_test M" waitsome_store out h] by (simp add: some_pass_def)

lemma MPIP_Startall_eq:
  "MPIP_Startall M (int (length rs)) (rs, h)
     = bindE (poll_all (elem_start M) rs h)
         (\<lambda>(_, rs', h'). Inr (MPI_SUCCESS, rs', h'))"
  using array_loop_0 [of rs "elem_start M" "\<lambda>i a c. c" "()" h]
  by (simp add: MPIP_Startall_def bindE_assoc) (auto simp: bindE_def split: sum.splits)

lemma MPIP_Waitall_eq:
  "MPIP_Waitall M (int (length rs)) (rs, h)
     = bindE (poll_all (elem_wait M) rs h)
         (\<lambda>(_, rs', h'). Inr (MPI_SUCCESS, rs', h'))"
  using array_loop_0 [of rs "elem_wait M" "\<lambda>i a c. c" "()" h]
  by (simp add: MPIP_Waitall_def bindE_assoc) (auto simp: bindE_def split: sum.splits)

section \<open>The folds\<close>

lemma fold_and_zero: "fold_from (\<lambda>i f c. c AND f) k fs (0 :: int) = 0"
  by (induction fs arbitrary: k) auto

lemma fold_and:
  "set fs \<subseteq> {0, 1} \<Longrightarrow> fold_from (\<lambda>i f c. c AND f) k fs (1 :: int) = (if 0 \<in> set fs then 0 else 1)"
  by (induction fs arbitrary: k) (auto simp: fold_and_zero)

lemma fold_and_stuck: "0 \<in> set fs \<Longrightarrow> fold_from (\<lambda>i f c. c AND f) k fs (c :: int) = 0"
  by (induction fs arbitrary: k c) (auto simp: fold_and_zero)

text \<open>The indices of the elements that answered 1, from position \<open>k\<close> on.\<close>

fun hits :: "int \<Rightarrow> int list \<Rightarrow> int list" where
  "hits k [] = []"
| "hits k (f # fs) = (if f = 1 then k # hits (k + 1) fs else hits (k + 1) fs)"

lemma in_hits: "x \<in> set (hits k fs) \<longleftrightarrow> (\<exists>j<length fs. x = k + int j \<and> fs ! j = 1)"
proof (induction fs arbitrary: k)
  case (Cons f fs)
  have "(\<exists>j<length (f # fs). x = k + int j \<and> (f # fs) ! j = 1)
      \<longleftrightarrow> (x = k \<and> f = 1) \<or> (\<exists>j<length fs. x = k + 1 + int j \<and> fs ! j = 1)"
    by (simp add: Ex_less_Suc2 algebra_simps)
  then show ?case using Cons.IH [of "k + 1"] by auto
qed simp

lemma sorted_hits: "sorted_wrt (<) (hits k fs)"
  by (induction fs arbitrary: k) (auto simp: in_hits)

lemma some_store_simps:
  "some_store i 1 (n, idx) = (n + 1, idx(n := i))" "f \<noteq> 1 \<Longrightarrow> some_store i f (n, idx) = (n, idx)"
  by (simp_all add: some_store_def)

lemma fold_some_store:
  "fold_from some_store k fs (n, idx)
     = (n + int (length (hits k fs)),
        \<lambda>p. if n \<le> p \<and> p < n + int (length (hits k fs)) then hits k fs ! nat (p - n) else idx p)"
proof (induction fs arbitrary: k n idx)
  case (Cons f fs)
  show ?case
  proof (cases "f = 1")
    case True
    have "nat (p - n) = Suc (nat (p - (n + 1)))" if "n + 1 \<le> p" for p using that by linarith
    with True show ?thesis
      by (auto simp: some_store_simps fun_eq_iff Cons.IH)
  qed (auto simp: some_store_simps fun_eq_iff Cons.IH)
qed (auto simp: fun_eq_iff)

lemma fold_waitsome_store:
  "fold_from waitsome_store k fs (n, n, idx)
     = (let (m, idx') = fold_from some_store k fs (n, idx) in (m, m, idx'))"
  by (induction fs arbitrary: k n idx) (auto simp: waitsome_store_def some_store_def)

section \<open>Scanning for the first completion\<close>

text \<open>The scan is a search over the list.\<close>

fun scan :: "mpi \<Rightarrow> int \<Rightarrow> int \<Rightarrow> int \<Rightarrow> mpip list \<Rightarrow> hist \<Rightarrow> (int \<times> int \<times> mpip list \<times> hist) res" where
  "scan M k index flag [] h = Inr (index, flag, [], h)"
| "scan M k index flag (r # rs) h =
     bindE (elem_test M (r, h)) (\<lambda>(f, r, h).
     if f = 1 then Inr (k, f, r # rs, h)
     else bindE (scan M (k + 1) index f rs h) (\<lambda>(i, f, rs, h). Inr (i, f, r # rs, h)))"

lemma any_scan_eq:
  "any_scan M (int (length pre)) (int (length pre + length rs)) index flag (pre @ rs, h)
     = bindE (scan M (int (length pre)) index flag rs h) (\<lambda>(i, f, rs', h'). Inr (i, f, pre @ rs', h'))"
proof (induction rs arbitrary: pre flag h)
  case Nil
  then show ?case by (simp add: any_scan.simps)
next
  case (Cons r rs)
  show ?case
  proof (cases "elem_test M (r, h)")
    case (Inl e)
    then show ?thesis by (subst any_scan.simps) (simp add: on_elem_def nth_append)
  next
    case (Inr x)
    obtain f r' h' where x: "x = (f, r', h')" by (cases x) auto
    have "any_scan M (int (length pre)) (int (length pre + length (r # rs))) index flag (pre @ r # rs, h)
        = (if f = 1 then Inr (int (length pre), f, pre @ r' # rs, h')
           else any_scan M (int (length (pre @ [r']))) (int (length (pre @ [r']) + length rs)) index f
                  ((pre @ [r']) @ rs, h'))"
      using Inr x by (subst any_scan.simps) (simp add: on_elem_def nth_append list_update_append add.commute)
    also have "\<dots> = bindE (scan M (int (length pre)) index flag (r # rs) h)
        (\<lambda>(i, f, rs', h'). Inr (i, f, pre @ rs', h'))"
      unfolding Cons.IH using Inr x
      by (cases "scan M (int (length pre) + 1) index f rs h'") (auto simp: add.commute)
    finally show ?thesis .
  qed
qed

lemma any_scan_0: "any_scan M 0 (int (length rs)) index flag (rs, h) = scan M 0 index flag rs h"
  using any_scan_eq [of M "[]" rs index flag h]
  by (cases "scan M 0 index flag rs h") auto

lemma scan_idle:
  "\<forall>r\<in>set rs. state r = INACTIVE \<Longrightarrow> scan M k index flag rs h = Inr (index, (if rs = [] then flag else 0), rs, h)"
  by (induction rs arbitrary: k flag) (auto simp: poll.idle_test)

text \<open>What a scan that finds nothing, or something, has done.\<close>

lemma scan_ok:
  assumes "\<forall>r\<in>set rs. testable r" "mpi_succeeds M"
  shows "\<exists>i f rs' h'. scan M k index flag rs h = Inr (i, f, rs', h') \<and> (\<forall>r\<in>set rs'. testable r) \<and> length rs' = length rs"
  using assms(1)
proof (induction rs arbitrary: k flag h)
  case (Cons r rs)
  then obtain f r' h1 where t: "elem_test M (r, h) = Inr (f, r', h1)" "testable r'"
    using elem_test_ok [OF _ assms(2), of r h] by auto
  show ?case
  proof (cases "f = 1")
    case True
    with t Cons.prems show ?thesis by auto
  next
    case False
    obtain i g rs' h2 where "scan M (k + 1) index f rs h1 = Inr (i, g, rs', h2)"
      "\<forall>r\<in>set rs'. testable r" "length rs' = length rs"
      using Cons.IH [of "k + 1" f h1] Cons.prems by auto
    with False t show ?thesis by auto
  qed
qed simp

lemma scan_found:
  "scan M k index flag rs h = Inr (i, f, rs', h') \<Longrightarrow> f = 1 \<Longrightarrow> flag \<noteq> 1 \<Longrightarrow>
   k \<le> i \<and> i < k + int (length rs) \<and> state (rs ! nat (i - k)) = ACTIVE
     \<and> state (rs' ! nat (i - k)) = INACTIVE
     \<and> (\<forall>j < length rs. j \<noteq> nat (i - k) \<longrightarrow> rs' ! j = rs ! j)"
proof (induction rs arbitrary: k flag h rs')
  case (Cons r rs)
  then obtain g r' h1 where t: "elem_test M (r, h) = Inr (g, r', h1)"
    "(if g = 1 then Inr (k, g, r' # rs, h1)
      else bindE (scan M (k + 1) index g rs h1) (\<lambda>(i, f, rs, h). Inr (i, f, r' # rs, h)))
      = Inr (i, f, rs', h')"
    by auto
  show ?case
  proof (cases "g = 1")
    case True
    have "state r \<noteq> INACTIVE" using poll.idle_test [of r M h] t(1) True by auto
    moreover have "state r' = INACTIVE" using poll.completed_idle [OF t(1) True] .
    ultimately show ?thesis
      using True t(2) by (cases "state r") (auto simp: nth_Cons split: nat.splits)
  next
    case False
    then obtain rs1 where s: "scan M (k + 1) index g rs h1 = Inr (i, f, rs1, h')" "rs' = r' # rs1"
      using t(2) by auto
    have r': "r' = r" using poll.pending_same [OF t(1) False] .
    have IH: "k + 1 \<le> i \<and> i < k + 1 + int (length rs) \<and> state (rs ! nat (i - (k + 1))) = ACTIVE
     \<and> state (rs1 ! nat (i - (k + 1))) = INACTIVE
     \<and> (\<forall>j < length rs. j \<noteq> nat (i - (k + 1)) \<longrightarrow> rs1 ! j = rs ! j)"
      using Cons.IH [OF s(1) Cons.prems(2) False] by simp
    then have "nat (i - k) = Suc (nat (i - (k + 1)))" by linarith
    with IH s(2) r' show ?thesis by (auto simp: nth_Cons split: nat.splits)
  qed
qed simp

lemma scan_not_found:
  "scan M k index flag rs h = Inr (i, f, rs', h') \<Longrightarrow> f \<noteq> 1 \<Longrightarrow> rs' = rs \<and> i = index"
proof (induction rs arbitrary: k flag h rs')
  case (Cons r rs)
  then show ?case
    by (auto split: if_splits dest: poll.pending_same)
qed simp

end
