(* ===== verification/Polling.thy ===== *)
theory Polling
  imports Array_Facts Delivery
begin

text \<open>
  When \<open>MPIP_Waitany\<close> and \<open>MPIP_Waitsome\<close> return. A pass over an array that finds no
  completion has tested every started request once more without success. When MPI completes one
  of them within \<open>k\<close> further tests, which it does when the matching sends have been started, at
  most \<open>k\<close> passes are fruitless. On an array of inactive requests no pass ever changes anything,
  and the loops run forever.
\<close>

section \<open>The unsuccessful tests a pass adds\<close>

text \<open>
  The messages of \<open>r\<close> are complete after at most \<open>k\<close> further unsuccessful tests of them, whatever
  else is tested in between.
\<close>

definition completes_within :: "nat \<Rightarrow> mpi \<Rightarrow> hist \<Rightarrow> mpip \<Rightarrow> bool" where
  "completes_within k M h r \<longleftrightarrow> (\<forall>ts. only_tests ts \<longrightarrow>
     k \<le> count_list ts (CTestall (handles r) 0) \<longrightarrow> testall_flag M (ts @ h) (handles r) = 1)"

lemma completes_within_tests:
  assumes "completes_within k M h r" "only_tests ts"
  shows "completes_within (k - count_list ts (CTestall (handles r) 0)) M (ts @ h) r"
  unfolding completes_within_def
proof (intro allI impI)
  fix us assume u: "only_tests us" "k - count_list ts (CTestall (handles r) 0) \<le> count_list us (CTestall (handles r) 0)"
  then have "k \<le> count_list (us @ ts) (CTestall (handles r) 0)" by (simp add: count_list_append)
  with only_tests_append [OF assms(2) u(1)] assms(1) have "testall_flag M ((us @ ts) @ h) (handles r) = 1"
    unfolding completes_within_def by blast
  then show "testall_flag M (us @ ts @ h) (handles r) = 1" by simp
qed

text \<open>The promise of MPI gives it for a request whose matching sends have been started.\<close>

lemma progress_completes:
  assumes "progress_from k M hs h" "paired hs xs h (handles r)"
    and "\<forall>i<length (handles r). starts h (handles r ! i) \<le> starts hs (xs ! i)"
  shows "completes_within k M h r"
proof -
  have "\<forall>y\<in>set (handles r). \<exists>x. only_match hs h x y \<and> starts h y \<le> starts hs x"
    using assms(2,3) by (metis in_set_conv_nth paired_def)
  with assms(1) show ?thesis by (simp add: progress_from_def completes_within_def)
qed

lemma elem_test_adds:
  assumes "elem_test M (r, h) = Inr (f, r', h')"
  shows "\<exists>ts. only_tests ts \<and> h' = ts @ h"
proof -
  obtain ro where "MPIP_Test M (Some r, h) = Inr (MPI_SUCCESS, f, ro, h')" using assms by (auto simp: elem_test_eq_Inr)
  from MPIP_Test_cases [OF this] have "h' = h \<or> (\<exists>xs. h' = CTestall xs f # h)" by blast
  then show ?thesis by (auto simp: only_tests_def intro: exI [of _ "[]"] exI [of _ "[CTestall xs f]" for xs])
qed

lemma elem_test_within:
  assumes "elem_test M (q, h) = Inr (f, q', h')" "completes_within k M h r"
  shows "completes_within k M h' r"
proof -
  obtain ts where ts: "only_tests ts" "h' = ts @ h" using elem_test_adds [OF assms(1)] by blast
  from completes_within_tests [OF assms(2) ts(1)] show ?thesis
    unfolding ts(2) by (simp add: completes_within_def)
qed

lemma scan_within:
  "scan M j index flag rs h = Inr (i, f, rs', h') \<Longrightarrow> completes_within k M h r \<Longrightarrow> completes_within k M h' r"
  by (induction rs arbitrary: j flag h rs')
    (auto split: if_splits dest: elem_test_within)

lemma poll_all_within:
  "poll_all (elem_test M) rs h = Inr (fs, rs', h') \<Longrightarrow> completes_within k M h r \<Longrightarrow> completes_within k M h' r"
  by (induction rs arbitrary: h fs rs') (auto dest: elem_test_within)

text \<open>A started request that can be tested.\<close>

definition pollable_req :: "mpip \<Rightarrow> bool" where
  "pollable_req r \<longleftrightarrow> setup_ok r \<and> state r = ACTIVE \<and> threaded r \<noteq> RUNNING"

lemma elem_test_pending:
  assumes r: "pollable_req r" and M: "mpi_succeeds M" "flags_boolean M" and k: "completes_within k M h r"
    and t: "elem_test M (r, h) = Inr (f, r', h')" "f \<noteq> 1"
  shows "\<exists>j<k. completes_within j M h' r"
proof -
  have f: "f = testall_flag M h (handles r)" "h' = CTestall (handles r) f # h"
    using MPIP_Test_eq [of r M h] r M(1) t(1) by (auto simp: pollable_req_def elem_test_def)
  with M(2) t(2) have f0: "testall_flag M h (handles r) = 0" by (auto simp: flags_boolean_def)
  have "k \<noteq> 0"
  proof
    assume "k = 0"
    with k have "testall_flag M ([] @ h) (handles r) = 1" unfolding completes_within_def by (blast intro: only_tests_Nil le0)
    with f0 show False by simp
  qed
  moreover have "completes_within (k - 1) M h' r"
    using completes_within_tests [OF k, of "[CTestall (handles r) 0]"] f f0 by (simp add: only_tests_def)
  ultimately show ?thesis by (intro exI [of _ "k - 1"]) simp
qed

lemma scan_pending:
  assumes r: "r \<in> set rs" "pollable_req r" and M: "mpi_succeeds M" "flags_boolean M" and k: "completes_within k M h r"
    and s: "scan M j index flag rs h = Inr (i, f, rs', h')" "f \<noteq> 1"
  shows "\<exists>j<k. completes_within j M h' r"
  using r(1) k s
proof (induction rs arbitrary: j flag h rs')
  case (Cons q rs)
  then obtain g q' h1 where t: "elem_test M (q, h) = Inr (g, q', h1)"
    "(if g = 1 then Inr (j, g, q' # rs, h1)
      else bindE (scan M (j + 1) index g rs h1) (\<lambda>(i, f, rs, h). Inr (i, f, q' # rs, h)))
      = Inr (i, f, rs', h')"
    by auto
  then have g: "g \<noteq> 1" using Cons.prems(4) by auto
  with t obtain rs1 where s: "scan M (j + 1) index g rs h1 = Inr (i, f, rs1, h')" by auto
  show ?case
  proof (cases "q = r")
    case True
    then obtain l where "l < k" "completes_within l M h1 r"
      using elem_test_pending [OF r(2) M Cons.prems(2) _ g, of q' h1] t(1) by blast
    with scan_within [OF s] show ?thesis by blast
  next
    case False
    with Cons.IH [OF _ elem_test_within [OF t(1) Cons.prems(2)] s Cons.prems(4)] Cons.prems(1)
    show ?thesis by simp
  qed
qed simp

lemma poll_all_pending:
  assumes r: "r \<in> set rs" "pollable_req r" and M: "mpi_succeeds M" "flags_boolean M" and k: "completes_within k M h r"
    and p: "poll_all (elem_test M) rs h = Inr (fs, rs', h')" "1 \<notin> set fs"
  shows "\<exists>j<k. completes_within j M h' r"
  using r(1) k p
proof (induction rs arbitrary: h fs rs')
  case (Cons q rs)
  then obtain g q' h1 fs1 rs1 where t: "elem_test M (q, h) = Inr (g, q', h1)"
    "poll_all (elem_test M) rs h1 = Inr (fs1, rs1, h')" "fs = g # fs1" by auto
  then have g: "g \<noteq> 1" "1 \<notin> set fs1" using Cons.prems(4) by auto
  show ?case
  proof (cases "q = r")
    case True
    then obtain l where "l < k" "completes_within l M h1 r"
      using elem_test_pending [OF r(2) M Cons.prems(2) _ g(1), of q' h1] t(1) by blast
    with poll_all_within [OF t(2)] show ?thesis by blast
  next
    case False
    with Cons.IH [OF _ elem_test_within [OF t(1) Cons.prems(2)] t(2) g(2)] Cons.prems(1)
    show ?thesis by simp
  qed
qed simp

lemma scan_flag:
  "flags_boolean M \<Longrightarrow> scan M k index flag rs h = Inr (i, f, rs', h') \<Longrightarrow> flag = 0 \<or> flag = 1 \<Longrightarrow> f = 0 \<or> f = 1"
proof (induction rs arbitrary: k flag h rs')
  case (Cons q rs)
  then obtain g q' h1 where t: "elem_test M (q, h) = Inr (g, q', h1)"
    "(if g = 1 then Inr (k, g, q' # rs, h1)
      else bindE (scan M (k + 1) index g rs h1) (\<lambda>(i, f, rs, h). Inr (i, f, q' # rs, h)))
      = Inr (i, f, rs', h')"
    by auto
  with elem_test_flag [OF Cons.prems(1) t(1)] Cons show ?case by (auto split: if_splits)
qed simp

section \<open>MPIP_Waitany\<close>

lemma waitany_returns:
  assumes r: "r \<in> set rs" "pollable_req r" and rs: "\<forall>r\<in>set rs. testable r"
    and M: "mpi_succeeds M" "flags_boolean M" and k: "completes_within k M h r"
  shows "\<exists>i rs' h'. MPIP_Waitany M (int (length rs)) index (rs, h) = Some (Inr (i, rs', h'))
      \<and> 0 \<le> i \<and> i < int (length rs) \<and> state (rs ! nat i) = ACTIVE \<and> state (rs' ! nat i) = INACTIVE
      \<and> (\<forall>j < length rs. j \<noteq> nat i \<longrightarrow> rs' ! j = rs ! j)"
  using k
proof (induction k arbitrary: h rule: less_induct)
  case (less k)
  obtain i f rs' h' where s: "scan M 0 index 0 rs h = Inr (i, f, rs', h')"
    using scan_ok [OF rs M(1)] by blast
  show ?case
  proof (cases "f = 1")
    case True
    with scan_found [OF s] s show ?thesis
      unfolding MPIP_Waitany_def by (subst waitany_loop.simps) (simp add: any_scan_0)
  next
    case False
    have f0: "f = 0" using scan_flag [OF M(2) s] False by simp
    have same: "rs' = rs" "i = index" using scan_not_found [OF s False] by simp_all
    obtain l where "l < k" "completes_within l M h' r" using scan_pending [OF r M less.prems s False] by blast
    from less.IH [OF this] obtain j rs2 h2 where
      "waitany_loop M (int (length rs)) index (rs, h') = Some (Inr (j, rs2, h2))"
      "0 \<le> j \<and> j < int (length rs) \<and> state (rs ! nat j) = ACTIVE \<and> state (rs2 ! nat j) = INACTIVE
        \<and> (\<forall>l < length rs. l \<noteq> nat j \<longrightarrow> rs2 ! l = rs ! l)"
      unfolding MPIP_Waitany_def by blast
    with s f0 same show ?thesis
      unfolding MPIP_Waitany_def
      by (intro exI [of _ j] exI [of _ rs2] exI [of _ h2]) (subst waitany_loop.simps, simp add: any_scan_0)
  qed
qed

lemma waitany_never_returns:
  assumes "\<forall>r\<in>set rs. state r = INACTIVE"
  shows "MPIP_Waitany M (int (length rs)) index (rs, h) = None"
proof (rule ccontr)
  let ?n = "int (length rs)"
  assume "MPIP_Waitany M ?n index (rs, h) \<noteq> None"
  then obtain x where ret: "waitany_loop M ?n index (rs, h) = Some x"
    by (auto simp: MPIP_Waitany_def)
  have "m = M \<longrightarrow> n = ?n \<longrightarrow> t \<noteq> (rs, h)" if "waitany_loop m n idx t = Some y" for m n idx t y
  proof (rule waitany_loop.raw_induct [where P = "\<lambda>m n idx t y. m = M \<longrightarrow> n = ?n \<longrightarrow> t \<noteq> (rs, h)", OF _ that])
    fix f m n idx t y
    assume IH: "\<And>m n idx t y. f m n idx t = Some y \<Longrightarrow> m = M \<longrightarrow> n = ?n \<longrightarrow> t \<noteq> (rs, h)"
      and eq: "(case any_scan m 0 n idx 0 t of Inl e \<Rightarrow> Some (Inl e)
        | Inr (index, flag, t) \<Rightarrow> if flag \<noteq> 0 then Some (Inr (index, t)) else f m n index t) = Some y"
    show "m = M \<longrightarrow> n = ?n \<longrightarrow> t \<noteq> (rs, h)"
    proof (intro impI notI)
      assume "m = M" "n = ?n" "t = (rs, h)"
      with eq have "f M ?n idx (rs, h) = Some y"
        by (simp add: any_scan_0 scan_idle [OF assms] split: if_splits)
      from IH [OF this] show False by simp
    qed
  qed
  with ret show False by blast
qed

section \<open>MPIP_Waitsome\<close>

lemma some_pass_fold:
  "some_pass M (int (length rs)) ((0, 0, idx), rs, h)
     = bindE (poll_all (elem_test M) rs h) (\<lambda>(fs, rs', h').
         Inr (let n = int (length (hits 0 fs)) in
           (n, n, \<lambda>p. if 0 \<le> p \<and> p < n then hits 0 fs ! nat p else idx p), rs', h'))"
  by (simp add: some_pass_eq fold_waitsome_store fold_some_store Let_def cong: if_cong)

lemma hits_Nil: "hits k fs = [] \<longleftrightarrow> 1 \<notin> set fs"
  by (induction fs arbitrary: k) auto

lemma poll_all_unchanged:
  assumes "poll_all (elem_test M) rs h = Inr (fs, rs', h')" "1 \<notin> set fs"
  shows "rs' = rs"
  using poll_all_length [OF assms(1)] poll.poll_all_nth [OF assms(1)] assms(2)
  by (intro nth_equalityI) (auto simp: in_set_conv_nth)

lemma waitsome_returns:
  assumes r: "r \<in> set rs" "pollable_req r" and rs: "\<forall>r\<in>set rs. testable r"
    and M: "mpi_succeeds M" "flags_boolean M" and k: "completes_within k M h r"
  shows "\<exists>h1 fs rs' h'. MPIP_Waitsome M (int (length rs)) idx (rs, h)
        = Some (Inr ((int (length (hits 0 fs)),
            \<lambda>p. if 0 \<le> p \<and> p < int (length (hits 0 fs)) then hits 0 fs ! nat p else idx p), rs', h'))
      \<and> poll_all (elem_test M) rs h1 = Inr (fs, rs', h') \<and> hits 0 fs \<noteq> []"
  using k
proof (induction k arbitrary: h rule: less_induct)
  case (less k)
  obtain fs rs' h' where p: "poll_all (elem_test M) rs h = Inr (fs, rs', h')"
    using poll_all_ok [of rs "elem_test M" h] elem_test_ok [OF _ M(1)] rs by blast
  have unf: "waitsome_loop M (int (length rs)) ((0, 0, idx), rs, h)
      = waitsome_loop M (int (length rs))
         (let n = int (length (hits 0 fs)) in
           (n, n, \<lambda>p. if 0 \<le> p \<and> p < n then hits 0 fs ! nat p else idx p), rs', h')"
    using p by (subst waitsome_loop.simps) (simp add: some_pass_fold)
  show ?case
  proof (cases "hits 0 fs = []")
    case False
    then have "1 \<le> int (length (hits 0 fs))" by (cases "hits 0 fs") auto
    then have "waitsome_loop M (int (length rs)) ((0, 0, idx), rs, h)
       = Some (Inr (let n = int (length (hits 0 fs)) in
           (n, n, \<lambda>p. if 0 \<le> p \<and> p < n then hits 0 fs ! nat p else idx p), rs', h'))"
      unfolding unf by (subst waitsome_loop.simps) (simp add: Let_def False)
    with p False show ?thesis
      by (intro exI [of _ h] exI [of _ fs] exI [of _ rs'] exI [of _ h'])
        (simp add: MPIP_Waitsome_def Let_def)
  next
    case True
    then have n1: "1 \<notin> set fs" by (simp add: hits_Nil)
    have same: "rs' = rs" using poll_all_unchanged [OF p n1] .
    have "(\<lambda>q. if 0 \<le> q \<and> q < (0::int) then hits 0 fs ! nat q else idx q) = idx" by auto
    then have step: "waitsome_loop M (int (length rs)) ((0, 0, idx), rs, h)
       = waitsome_loop M (int (length rs)) ((0, 0, idx), rs, h')"
      unfolding unf using True same by (simp add: Let_def)
    obtain l where "l < k" "completes_within l M h' r" using poll_all_pending [OF r M less.prems p n1] by blast
    from less.IH [OF this] step show ?thesis by (simp add: MPIP_Waitsome_def)
  qed
qed

lemma waitsome_never_returns:
  assumes "\<forall>r\<in>set rs. state r = INACTIVE"
  shows "MPIP_Waitsome M (int (length rs)) idx (rs, h) = None"
proof (rule ccontr)
  let ?n = "int (length rs)" and ?s = "((0, 0, idx), rs, h) :: (int \<times> int \<times> (int \<Rightarrow> int)) \<times> mpip list \<times> hist"
  have same: "some_pass M ?n ?s = Inr ?s"
  proof -
    have z: "hits 0 (replicate (length rs) 0) = []" by (simp add: hits_Nil)
    have "(\<lambda>p. if 0 \<le> p \<and> p < (0 :: int) then hits 0 (replicate (length rs) 0) ! nat p else idx p) = idx" by auto
    with z show ?thesis by (simp add: some_pass_fold poll.poll_all_idle_list [OF assms] Let_def)
  qed
  assume "MPIP_Waitsome M ?n idx (rs, h) \<noteq> None"
  then obtain x where ret: "waitsome_loop M ?n ?s = Some x" by (auto simp: MPIP_Waitsome_def)
  have "m = M \<longrightarrow> n = ?n \<longrightarrow> t \<noteq> ?s" if "waitsome_loop m n t = Some y" for m n t y
  proof (rule waitsome_loop.raw_induct [where P = "\<lambda>m n t y. m = M \<longrightarrow> n = ?n \<longrightarrow> t \<noteq> ?s", OF _ that])
    fix f m n t y
    assume IH: "\<And>m n t y. f m n t = Some y \<Longrightarrow> m = M \<longrightarrow> n = ?n \<longrightarrow> t \<noteq> ?s"
      and eq: "(if fst (fst t) < 1 then (case some_pass m n t of Inl e \<Rightarrow> Some (Inl e) | Inr t \<Rightarrow> f m n t)
        else Some (Inr t)) = Some y"
    show "m = M \<longrightarrow> n = ?n \<longrightarrow> t \<noteq> ?s"
    proof (intro impI notI)
      assume "m = M" "n = ?n" "t = ?s"
      with eq have "f M ?n ?s = Some y" by (simp add: same)
      from IH [OF this] show False by simp
    qed
  qed
  with ret show False by blast
qed

end
