(* ===== verification/Array_Properties.thy ===== *)
theory Array_Properties
  imports Examples Polling
begin

text \<open>
  The properties of the bindings on arrays of requests: which requests they complete, the
  indices they report, when the polling loops return and when they never do.
\<close>

section \<open>Reported indices\<close>

text \<open>The positions of the requests a call has completed.\<close>

definition completed :: "mpip list \<Rightarrow> mpip list \<Rightarrow> int set" where
  "completed rs rs' = {k. 0 \<le> k \<and> k < int (length rs) \<and> state (rs ! nat k) = ACTIVE \<and> state (rs' ! nat k) = INACTIVE}"

text \<open>The index array lists a set of positions in increasing order.\<close>

definition lists_exactly :: "int \<Rightarrow> (int \<Rightarrow> int) \<Rightarrow> int set \<Rightarrow> bool" where
  "lists_exactly n idx K \<longleftrightarrow> n = int (card K) \<and> idx ` {0..<n} = K
     \<and> (\<forall>p q. 0 \<le> p \<and> p < q \<and> q < n \<longrightarrow> idx p < idx q)"

lemma hits_listed:
  "lists_exactly (int (length (hits 0 fs)))
     (\<lambda>p. if 0 \<le> p \<and> p < int (length (hits 0 fs)) then hits 0 fs ! nat p else idx p) (set (hits 0 fs))"
proof -
  let ?xs = "hits 0 fs"
  let ?f = "\<lambda>p. if 0 \<le> p \<and> p < int (length ?xs) then ?xs ! nat p else idx p"
  have mono: "?xs ! nat p < ?xs ! nat q" if "0 \<le> p" "p < q" "q < int (length ?xs)" for p q
    using sorted_hits [of 0 fs] that by (simp add: sorted_wrt_iff_nth_less)
  have "distinct ?xs" using sorted_hits [of 0 fs] by (simp add: strict_sorted_iff)
  then have "int (length ?xs) = int (card (set ?xs))" by (simp add: distinct_card)
  moreover have "?f ` {0..<int (length ?xs)} = set ?xs"
  proof (intro set_eqI iffI)
    fix x assume "x \<in> ?f ` {0..<int (length ?xs)}"
    then show "x \<in> set ?xs" by auto
  next
    fix x assume "x \<in> set ?xs"
    then obtain k where "k < length ?xs" "x = ?xs ! k" by (auto simp: in_set_conv_nth)
    then show "x \<in> ?f ` {0..<int (length ?xs)}" by (intro image_eqI [of _ _ "int k"]) auto
  qed
  moreover have "?f p < ?f q" if "0 \<le> p" "p < q" "q < int (length ?xs)" for p q
    using mono [OF that] that by simp
  ultimately show ?thesis unfolding lists_exactly_def by blast
qed

text \<open>The elements that answered 1 are the ones the pass completed.\<close>

lemma poll_completed_iff:
  assumes "poll_all (elem_test M) rs h = Inr (fs, rs', h')" "k < length rs"
  shows "fs ! k = 1 \<longleftrightarrow> state (rs ! k) = ACTIVE \<and> state (rs' ! k) = INACTIVE"
  using poll.poll_all_nth [OF assms] by (cases "state (rs ! k)") auto

lemma set_hits_completed:
  assumes "poll_all (elem_test M) rs h = Inr (fs, rs', h')"
  shows "set (hits 0 fs) = completed rs rs'"
proof (intro set_eqI)
  fix x
  have len: "length fs = length rs" using poll_all_length [OF assms] by simp
  have "x \<in> set (hits 0 fs) \<longleftrightarrow> 0 \<le> x \<and> x < int (length rs) \<and> fs ! nat x = 1"
  proof
    assume "x \<in> set (hits 0 fs)"
    then show "0 \<le> x \<and> x < int (length rs) \<and> fs ! nat x = 1" using len by (auto simp: in_hits)
  next
    assume "0 \<le> x \<and> x < int (length rs) \<and> fs ! nat x = 1"
    then show "x \<in> set (hits 0 fs)" using len by (auto simp: in_hits intro!: exI [of _ "nat x"])
  qed
  moreover have "fs ! nat x = 1 \<longleftrightarrow> state (rs ! nat x) = ACTIVE \<and> state (rs' ! nat x) = INACTIVE"
    if "0 \<le> x" "x < int (length rs)"
    using poll_completed_iff [OF assms, of "nat x"] that by (simp add: nat_less_iff)
  ultimately show "x \<in> set (hits 0 fs) \<longleftrightarrow> x \<in> completed rs rs'" by (auto simp: completed_def)
qed

lemma poll_unchanged:
  assumes "poll_all (elem_test M) rs h = Inr (fs, rs', h')" "k < length rs" "int k \<notin> completed rs rs'"
  shows "rs' ! k = rs ! k"
proof -
  have "fs ! k \<noteq> 1" using poll_completed_iff [OF assms(1,2)] assms(2,3) by (simp add: completed_def)
  then show ?thesis using poll.poll_all_nth [OF assms(1,2)] by simp
qed

lemma test_all_ok:
  "\<forall>r\<in>set rs. testable r \<Longrightarrow> mpi_succeeds M \<Longrightarrow> \<exists>fs rs' h'. poll_all (elem_test M) rs h = Inr (fs, rs', h')"
  using poll_all_ok [of rs "elem_test M" h] elem_test_ok by blast

section \<open>Testall\<close>

text \<open>
  \<open>MPIP_Testall\<close> tests every request once, in order, makes the completed ones inactive and leaves
  the others as they are; it stores 1 exactly when the call itself completed every request.
\<close>

lemma testall_exact:
  assumes rs: "\<forall>r\<in>set rs. testable r" and M: "mpi_succeeds M" "flags_boolean M"
  shows "\<exists>f rs' h'. MPIP_Testall M (int (length rs)) (rs, h) = Inr (f, rs', h') \<and> length rs' = length rs
    \<and> f = (if \<forall>k<length rs. int k \<in> completed rs rs' then 1 else 0)
    \<and> (\<forall>k<length rs. int k \<notin> completed rs rs' \<longrightarrow> rs' ! k = rs ! k)"
proof -
  obtain fs rs' h' where p: "poll_all (elem_test M) rs h = Inr (fs, rs', h')" using test_all_ok [OF rs M(1)] by blast
  have fs: "set fs \<subseteq> {0, 1}" using poll_flags [OF M(2) p] .
  have "0 \<in> set fs \<longleftrightarrow> \<not> (\<forall>k<length rs. fs ! k = 1)"
    using fs poll_all_length [OF p] by (force simp: in_set_conv_nth)
  then have "0 \<in> set fs \<longleftrightarrow> \<not> (\<forall>k<length rs. int k \<in> completed rs rs')"
    using poll_completed_iff [OF p] by (auto simp: completed_def)
  with p fold_and [OF fs] poll_all_length [OF p] poll_unchanged [OF p] show ?thesis
    by (simp add: MPIP_Testall_eq)
qed

lemma demo_testable: "testable (demo s 2 2)"
  using demo_setup_ok [of 2 2 s] by (simp add: testable_def)

lemma testall_exact_witness:
  "\<exists>f rs' h'. MPIP_Testall mpi_done 2 ([demo RECEIVER 2 2, demo RECEIVER 2 2], [CStartall [0, 1]]) = Inr (f, rs', h')
    \<and> length rs' = 2"
  using testall_exact [of "[demo RECEIVER 2 2, demo RECEIVER 2 2]" mpi_done "[CStartall [0, 1]]"] demo_testable [of RECEIVER]
  by auto

text \<open>
  C34: a request that is inactive, for example completed by an earlier \<open>MPIP_Testall\<close>, makes
  every later \<open>MPIP_Testall\<close> over the array store 0 and stays inactive: an array whose requests
  do not all complete in the same call is never reported complete.
\<close>

theorem testall_stuck:
  assumes "k < length rs" "state (rs ! k) = INACTIVE"
    and "MPIP_Testall M (int (length rs)) (rs, h) = Inr (f, rs', h')"
  shows "f = 0 \<and> length rs' = length rs \<and> state (rs' ! k) = INACTIVE"
proof -
  obtain fs where p: "poll_all (elem_test M) rs h = Inr (fs, rs', h')" "f = fold_from (\<lambda>i f c. c AND f) 0 fs 1"
    using assms(3) by (auto simp: MPIP_Testall_eq)
  have "fs ! k = 0" "state (rs' ! k) = INACTIVE" using poll.poll_all_idle [OF p(1) assms(1,2)] by auto
  moreover have "k < length fs" "length rs' = length rs" using poll_all_length [OF p(1)] assms(1) by auto
  ultimately show ?thesis using p(2) fold_and_stuck [of fs 0 1] nth_mem [of k fs] by simp
qed

theorem testall_stuck_witness:
  "\<exists>f rs' h'. MPIP_Testall mpi_done 2 ([demo SENDER 2 2, (demo SENDER 2 2)\<lparr>state := INACTIVE\<rparr>], []) = Inr (f, rs', h') \<and> f = 0"
proof -
  let ?rs = "[demo SENDER 2 2, (demo SENDER 2 2)\<lparr>state := INACTIVE\<rparr>]"
  have "\<forall>r\<in>set ?rs. testable r" using demo_testable [of SENDER] by (simp add: testable_def)
  then obtain fs rs' h' where "poll_all (elem_test mpi_done) ?rs [] = Inr (fs, rs', h')"
    using test_all_ok [of ?rs mpi_done "[]"] by auto
  then have e: "MPIP_Testall mpi_done (int (length ?rs)) (?rs, [])
      = Inr (fold_from (\<lambda>i f c. c AND f) 0 fs 1, rs', h')" (is "_ = Inr (?f, _, _)")
    by (simp only: MPIP_Testall_eq bindE_Inr split_conv)
  from testall_stuck [OF _ _ e, of 1] have "?f = 0" by simp
  moreover have "int (length ?rs) = 2" by simp
  ultimately show ?thesis using e by metis
qed

section \<open>Testsome and Testany\<close>

text \<open>
  \<open>MPIP_Testsome\<close> stores the number of the requests it completed and their positions in
  increasing order; it changes no other request and no other cell of the index array.
\<close>

lemma testsome_exact:
  assumes rs: "\<forall>r\<in>set rs. testable r" and M: "mpi_succeeds M"
  shows "\<exists>n idx' rs' h'. MPIP_Testsome M (int (length rs)) idx (rs, h) = Inr ((n, idx'), rs', h')
    \<and> lists_exactly n idx' (completed rs rs') \<and> (\<forall>p. \<not> (0 \<le> p \<and> p < n) \<longrightarrow> idx' p = idx p)
    \<and> (\<forall>k<length rs. int k \<notin> completed rs rs' \<longrightarrow> rs' ! k = rs ! k)"
proof -
  obtain fs rs' h' where p: "poll_all (elem_test M) rs h = Inr (fs, rs', h')" using test_all_ok [OF rs M] by blast
  let ?n = "int (length (hits 0 fs))"
  let ?i = "\<lambda>p. if 0 \<le> p \<and> p < ?n then hits 0 fs ! nat p else idx p"
  have "MPIP_Testsome M (int (length rs)) idx (rs, h) = Inr ((?n, ?i), rs', h')"
    using p by (simp add: MPIP_Testsome_eq fold_some_store cong: if_cong)
  moreover have "lists_exactly ?n ?i (completed rs rs')" using hits_listed [of fs idx] set_hits_completed [OF p] by simp
  ultimately show ?thesis using poll_unchanged [OF p]
    by (intro exI [of _ ?n] exI [of _ ?i] exI [of _ rs'] exI [of _ h']) auto
qed

lemma testsome_exact_witness:
  "\<exists>n idx' rs' h'. MPIP_Testsome mpi_done 2 (\<lambda>p. 99) ([demo SENDER 2 2, demo SENDER 2 2], []) = Inr ((n, idx'), rs', h')
    \<and> lists_exactly n idx' (completed [demo SENDER 2 2, demo SENDER 2 2] rs')"
proof -
  have "\<forall>r\<in>set [demo SENDER 2 2, demo SENDER 2 2]. testable r" using demo_testable [of SENDER] by simp
  from testsome_exact [OF this mpi_run_succeeds, of "\<lambda>j k. None" None "\<lambda>h x. True" "\<lambda>p. 99" "[]"]
  have "\<exists>n idx' rs' h'. MPIP_Testsome mpi_done (int (length [demo SENDER 2 2, demo SENDER 2 2])) (\<lambda>p. 99)
        ([demo SENDER 2 2, demo SENDER 2 2], []) = Inr ((n, idx'), rs', h')
      \<and> lists_exactly n idx' (completed [demo SENDER 2 2, demo SENDER 2 2] rs')" by blast
  moreover have "int (length [demo SENDER 2 2, demo SENDER 2 2]) = 2" by simp
  ultimately show ?thesis by (simp only:)
qed

text \<open>
  \<open>MPIP_Testany\<close> completes at most one request: when it stores 1, the one at the stored
  index and no other; otherwise it changes no request and does not store an index.
\<close>

lemma testany_exact:
  assumes rs: "\<forall>r\<in>set rs. testable r" and M: "mpi_succeeds M" and f: "flag \<noteq> 1"
  shows "\<exists>i f rs' h'. MPIP_Testany M (int (length rs)) index flag (rs, h) = Inr (i, f, rs', h')
    \<and> (f = 1 \<longrightarrow> completed rs rs' = {i} \<and> (\<forall>k<length rs. int k \<noteq> i \<longrightarrow> rs' ! k = rs ! k))
    \<and> (f \<noteq> 1 \<longrightarrow> rs' = rs \<and> i = index)"
proof -
  obtain i f rs' h' where s: "scan M 0 index flag rs h = Inr (i, f, rs', h')" using scan_ok [OF rs M] by blast
  have "completed rs rs' = {i} \<and> (\<forall>k<length rs. int k \<noteq> i \<longrightarrow> rs' ! k = rs ! k)" if "f = 1"
  proof -
    have F: "0 \<le> i" "i < int (length rs)" "state (rs ! nat i) = ACTIVE" "state (rs' ! nat i) = INACTIVE"
      "\<forall>j<length rs. j \<noteq> nat i \<longrightarrow> rs' ! j = rs ! j" using scan_found [OF s that f] by auto
    then have "completed rs rs' = {i}" by (auto simp: completed_def) (metis activation.distinct(1) nat_eq_iff nat_less_iff)
    with F show ?thesis by auto
  qed
  moreover have "f \<noteq> 1 \<longrightarrow> rs' = rs \<and> i = index" using scan_not_found [OF s] by blast
  ultimately show ?thesis using s by (auto simp: MPIP_Testany_def any_scan_0)
qed

lemma testany_exact_witness:
  "\<exists>i f rs' h'. MPIP_Testany mpi_done 2 (-1) 0 ([demo SENDER 2 2, demo SENDER 2 2], []) = Inr (i, f, rs', h')
    \<and> (f = 1 \<longrightarrow> completed [demo SENDER 2 2, demo SENDER 2 2] rs' = {i})"
  using testany_exact [of "[demo SENDER 2 2, demo SENDER 2 2]" mpi_done 0 "-1" "[]"] demo_testable [of SENDER] by fastforce

text \<open>
  C33: the three bindings that test an array. \<open>MPIP_Testall\<close> makes the completed requests inactive and
  stores 1 exactly when the call itself completed every request; \<open>MPIP_Testsome\<close> stores the number
  and the increasing positions of the requests it completed and no other cell of the index array;
  \<open>MPIP_Testany\<close> completes at most one request, the one at the index it stores. None of them changes
  another request.
\<close>

theorem array_tests_exact:
  assumes rs: "\<forall>r\<in>set rs. testable r" and M: "mpi_succeeds M" "flags_boolean M" and f: "flag \<noteq> 1"
  shows "(\<exists>f rs' h'. MPIP_Testall M (int (length rs)) (rs, h) = Inr (f, rs', h') \<and> length rs' = length rs
      \<and> f = (if \<forall>k<length rs. int k \<in> completed rs rs' then 1 else 0)
      \<and> (\<forall>k<length rs. int k \<notin> completed rs rs' \<longrightarrow> rs' ! k = rs ! k))
    \<and> (\<exists>n idx' rs' h'. MPIP_Testsome M (int (length rs)) idx (rs, h) = Inr ((n, idx'), rs', h')
      \<and> lists_exactly n idx' (completed rs rs') \<and> (\<forall>p. \<not> (0 \<le> p \<and> p < n) \<longrightarrow> idx' p = idx p)
      \<and> (\<forall>k<length rs. int k \<notin> completed rs rs' \<longrightarrow> rs' ! k = rs ! k))
    \<and> (\<exists>i f rs' h'. MPIP_Testany M (int (length rs)) index flag (rs, h) = Inr (i, f, rs', h')
      \<and> (f = 1 \<longrightarrow> completed rs rs' = {i} \<and> (\<forall>k<length rs. int k \<noteq> i \<longrightarrow> rs' ! k = rs ! k))
      \<and> (f \<noteq> 1 \<longrightarrow> rs' = rs \<and> i = index))"
  by (intro conjI testall_exact [OF rs M] testsome_exact [OF rs M(1)] testany_exact [OF rs M(1) f])

theorem array_tests_exact_witness:
  "\<exists>f rs' h'. MPIP_Testall mpi_done 2 ([demo RECEIVER 2 2, demo RECEIVER 2 2], [CStartall [0, 1]]) = Inr (f, rs', h')
    \<and> length rs' = 2"
proof -
  have rs: "\<forall>r\<in>set [demo RECEIVER 2 2, demo RECEIVER 2 2]. testable r" using demo_testable [of RECEIVER] by simp
  have f: "(0 :: int) \<noteq> 1" by simp
  have n: "int (length [demo RECEIVER 2 2, demo RECEIVER 2 2]) = 2" "length [demo RECEIVER 2 2, demo RECEIVER 2 2] = 2" by simp_all
  note t = array_tests_exact [OF rs mpi_run_succeeds mpi_run_flags f, of "\<lambda>j k. None" None "\<lambda>h x. True" "[CStartall [0, 1]]" "\<lambda>p. 0" 0]
  from t [THEN conjunct1, unfolded n of_nat_numeral] show ?thesis by blast
qed

section \<open>Waitany and Waitsome\<close>

text \<open>
  \<open>MPIP_Waitany\<close> on an array with a started request whose messages complete within \<open>k\<close> tests
  returns, and has then completed exactly the request at the stored index.
\<close>

lemma waitany_completes_one:
  assumes r: "r \<in> set rs" "pollable_req r" and rs: "\<forall>r\<in>set rs. testable r"
    and M: "mpi_succeeds M" "flags_boolean M" and k: "completes_within k M h r"
  shows "\<exists>i rs' h'. MPIP_Waitany M (int (length rs)) index (rs, h) = Some (Inr (i, rs', h'))
    \<and> completed rs rs' = {i} \<and> (\<forall>j<length rs. int j \<noteq> i \<longrightarrow> rs' ! j = rs ! j)"
proof -
  obtain i rs' h' where w: "MPIP_Waitany M (int (length rs)) index (rs, h) = Some (Inr (i, rs', h'))"
    "0 \<le> i" "i < int (length rs)" "state (rs ! nat i) = ACTIVE" "state (rs' ! nat i) = INACTIVE"
    "\<forall>j < length rs. j \<noteq> nat i \<longrightarrow> rs' ! j = rs ! j"
    using waitany_returns [OF r rs M k, of index] by blast
  have "completed rs rs' = {i}"
  proof (intro set_eqI iffI)
    fix x assume x: "x \<in> completed rs rs'"
    then have b: "0 \<le> x" "nat x < length rs" "rs ! nat x \<noteq> rs' ! nat x" by (auto simp: completed_def)
    then have "nat x = nat i" using w(6) by metis
    then show "x \<in> {i}" using b(1) w(2) by simp
  qed (use w in \<open>auto simp: completed_def\<close>)
  with w show ?thesis by auto
qed

text \<open>
  \<open>MPIP_Waitsome\<close> on such an array returns, with at least one request
  completed, and stores the positions of the completed ones in increasing order.
\<close>

lemma waitsome_completes_some:
  assumes r: "r \<in> set rs" "pollable_req r" and rs: "\<forall>r\<in>set rs. testable r"
    and M: "mpi_succeeds M" "flags_boolean M" and k: "completes_within k M h r"
  shows "\<exists>n idx' rs' h'. MPIP_Waitsome M (int (length rs)) idx (rs, h) = Some (Inr ((n, idx'), rs', h'))
    \<and> completed rs rs' \<noteq> {} \<and> lists_exactly n idx' (completed rs rs')
    \<and> (\<forall>j<length rs. int j \<notin> completed rs rs' \<longrightarrow> rs' ! j = rs ! j)"
proof -
  obtain h1 fs rs' h' where w: "MPIP_Waitsome M (int (length rs)) idx (rs, h)
        = Some (Inr ((int (length (hits 0 fs)),
            \<lambda>p. if 0 \<le> p \<and> p < int (length (hits 0 fs)) then hits 0 fs ! nat p else idx p), rs', h'))"
    "poll_all (elem_test M) rs h1 = Inr (fs, rs', h')" "hits 0 fs \<noteq> []"
    using waitsome_returns [OF r rs M k, of idx] by blast
  have K: "set (hits 0 fs) = completed rs rs'" using set_hits_completed [OF w(2)] .
  then have "completed rs rs' \<noteq> {}" using w(3) by (metis set_empty)
  moreover have "lists_exactly (int (length (hits 0 fs)))
     (\<lambda>p. if 0 \<le> p \<and> p < int (length (hits 0 fs)) then hits 0 fs ! nat p else idx p) (completed rs rs')"
    using hits_listed [of fs idx] K by simp
  ultimately show ?thesis using w(1) poll_unchanged [OF w(2)] by blast
qed

text \<open>
  C35: \<open>MPIP_Waitany\<close> and \<open>MPIP_Waitsome\<close> return when the array holds a started receive whose setup
  is over and whose peer, with history \<open>hs\<close>, has started the matching send of each of its messages
  as often as the messages were started here, if MPI completes such messages within \<open>k\<close> further
  unsuccessful tests. The first has then completed exactly the request at the stored index, the
  second at least one request, with the positions of the completed ones stored in increasing order.
\<close>

theorem polling_waits_return:
  assumes r: "r \<in> set rs" "pollable_req r" and rs: "\<forall>r\<in>set rs. testable r"
    and M: "mpi_succeeds M" "flags_boolean M" and net: "progress_from k M hs h" "paired hs xs h (handles r)"
    and sent: "\<forall>i<length (handles r). starts h (handles r ! i) \<le> starts hs (xs ! i)"
  shows "(\<exists>i rs' h'. MPIP_Waitany M (int (length rs)) index (rs, h) = Some (Inr (i, rs', h'))
      \<and> completed rs rs' = {i} \<and> (\<forall>j<length rs. int j \<noteq> i \<longrightarrow> rs' ! j = rs ! j))
    \<and> (\<exists>n idx' rs' h'. MPIP_Waitsome M (int (length rs)) idx (rs, h) = Some (Inr ((n, idx'), rs', h'))
      \<and> completed rs rs' \<noteq> {} \<and> lists_exactly n idx' (completed rs rs')
      \<and> (\<forall>j<length rs. int j \<notin> completed rs rs' \<longrightarrow> rs' ! j = rs ! j))"
  using waitany_completes_one [OF r rs M progress_completes [OF net sent]]
    waitsome_completes_some [OF r rs M progress_completes [OF net sent]] by (intro conjI)

text \<open>An MPI library that completes a receive only after two unsuccessful tests.\<close>

definition mpi_slow :: mpi where
  "mpi_slow = mpi_run (\<lambda>j k. None) None (\<lambda>h x. 4 \<le> length h)"

lemma slow_progress: "progress_from 2 mpi_slow hs [c, d]"
  unfolding progress_from_def
proof (intro allI impI)
  fix ts ys assume "2 \<le> count_list ts (CTestall ys 0)"
  also have "\<dots> \<le> length ts" by (rule count_le_length)
  finally show "testall_flag mpi_slow (ts @ [c, d]) ys = 1" by (simp add: mpi_slow_def mpi_run_def list_all_iff)
qed

theorem polling_waits_return_witness:
  "(\<exists>m. testall_flag mpi_slow [CStartall [0], CRecvInit m 0] [0] = 0
     \<and> testall_flag mpi_slow [CTestall [0] 0, CStartall [0], CRecvInit m 0] [0] = 0
     \<and> (\<exists>rs' h'. MPIP_Waitany mpi_slow 1 (-1) ([demo RECEIVER 1 1], [CStartall [0], CRecvInit m 0]) = Some (Inr (0, rs', h'))))"
proof -
  let ?m = "message mpi_slow demo_meta 1 0" and ?rs = "[demo RECEIVER 1 1]"
  let ?h = "[CStartall [0], CRecvInit ?m 0]" and ?hs = "[CStart 0, CSendInit ?m 0]"
  have ok: "setup_ok (demo RECEIVER 1 1)" by (rule demo_setup_ok) simp_all
  have r: "demo RECEIVER 1 1 \<in> set ?rs" "pollable_req (demo RECEIVER 1 1)" "\<forall>r\<in>set ?rs. testable r"
    using ok by (simp_all add: pollable_req_def testable_def)
  have M: "mpi_succeeds mpi_slow" "flags_boolean mpi_slow" by (simp_all add: mpi_slow_def)
  have pair: "paired ?hs [0] ?h (handles (demo RECEIVER 1 1))" by (simp add: paired_def only_match_def matches_def)
  have sent: "\<forall>i<length (handles (demo RECEIVER 1 1)). starts ?h (handles (demo RECEIVER 1 1) ! i) \<le> starts ?hs ([0] ! i)" by simp
  obtain i rs' h' where w: "MPIP_Waitany mpi_slow (int (length ?rs)) (-1) (?rs, ?h) = Some (Inr (i, rs', h'))" "completed ?rs rs' = {i}"
    using polling_waits_return [OF r M slow_progress pair sent, of "-1"] by blast
  from w(2) have "i \<in> completed ?rs rs'" by simp
  then have "i = 0" by (simp add: completed_def)
  with w(1) show ?thesis by (intro exI [of _ ?m]) (simp add: mpi_slow_def mpi_run_def)
qed

text \<open>
  C36: on an array without an active request, where the MPI counterparts return at once,
  \<open>MPIP_Waitany\<close> and \<open>MPIP_Waitsome\<close> poll forever, whatever the library does.
\<close>

theorem polling_waits_hang:
  assumes "\<forall>r\<in>set rs. state r = INACTIVE"
  shows "MPIP_Waitany M (int (length rs)) index (rs, h) = None \<and> MPIP_Waitsome M (int (length rs)) idx (rs, h) = None"
  using waitany_never_returns [OF assms] waitsome_never_returns [OF assms] by simp

theorem polling_waits_hang_witness:
  "MPIP_Waitany mpi_done (int (length [blank])) 0 ([blank], []) = None"
proof -
  have "\<forall>r\<in>set [blank]. state r = INACTIVE" by (simp add: blank_def)
  from polling_waits_hang [OF this] show ?thesis by blast
qed

section \<open>Startall and Waitall\<close>

lemma start_all_pass:
  assumes "\<forall>r\<in>set rs. setup_ok r \<and> threaded r \<noteq> RUNNING" "mpi_succeeds M"
  shows "\<exists>us rs'. poll_all (elem_start M) rs h
      = Inr (us, rs', rev (map (\<lambda>r. CStartall (handles r)) (filter (\<lambda>r. side r = RECEIVER) rs)) @ h)
    \<and> list_all2 (\<lambda>r r'. setup_ok r' \<and> state r' = ACTIVE \<and> same_messages r r' \<and> threaded r' = threaded r \<and> marked r' = {}
         \<and> (\<forall>i. 0 \<le> i \<and> i < parts r' \<longrightarrow> counters r' ! nat i = 0)) rs rs'"
  using assms(1)
proof (induction rs arbitrary: h)
  case (Cons r rs)
  let ?r = "r\<lparr>state := ACTIVE, internal_status := filled (replicate (nat (parts r)) 0),
                local_status := filled (replicate (nat (local_parts r)) False)\<rparr>"
  have ok: "setup_ok r" "threaded r \<noteq> RUNNING" using Cons.prems by auto
  have "setup_ok ?r" using ok(1) by (simp add: setup_ok_def)
  moreover have "marked ?r = {}" using flags_set_replicate [of ?r] setup_okD(1) [OF ok(1)] by simp
  ultimately have q: "setup_ok ?r \<and> state ?r = ACTIVE \<and> same_messages r ?r \<and> threaded ?r = threaded r \<and> marked ?r = {}
         \<and> (\<forall>i. 0 \<le> i \<and> i < parts ?r \<longrightarrow> counters ?r ! nat i = 0)" by (simp add: same_messages_def)
  obtain us rs' where "poll_all (elem_start M) rs
        ((if side r = RECEIVER then [CStartall (handles r)] else []) @ h)
      = Inr (us, rs', rev (map (\<lambda>r. CStartall (handles r)) (filter (\<lambda>r. side r = RECEIVER) rs))
          @ (if side r = RECEIVER then [CStartall (handles r)] else []) @ h)"
    "list_all2 (\<lambda>r r'. setup_ok r' \<and> state r' = ACTIVE \<and> same_messages r r' \<and> threaded r' = threaded r \<and> marked r' = {}
         \<and> (\<forall>i. 0 \<le> i \<and> i < parts r' \<longrightarrow> counters r' ! nat i = 0)) rs rs'"
  proof -
    have "\<forall>r\<in>set rs. setup_ok r \<and> threaded r \<noteq> RUNNING" using Cons.prems by simp
    from Cons.IH [OF this, of "(if side r = RECEIVER then [CStartall (handles r)] else []) @ h"]
    show thesis using that by blast
  qed
  with MPIP_Start_eq [OF ok assms(2), of h] q show ?case
    unfolding poll_all.simps elem_start_def [of M "(r, h)"]
    by (intro exI [of _ "() # us"] exI [of _ "?r # rs'"]) (cases "side r"; simp)
qed simp

text \<open>
  \<open>MPIP_Startall\<close> on requests whose setup is over activates every one of them, clears its
  flags and counters, and starts the messages of the receiving ones, in order.
\<close>

lemma startall_starts_each:
  assumes "\<forall>r\<in>set rs. setup_ok r \<and> threaded r \<noteq> RUNNING" "mpi_succeeds M"
  shows "\<exists>rs'. MPIP_Startall M (int (length rs)) (rs, h)
      = Inr (MPI_SUCCESS, rs', rev (map (\<lambda>r. CStartall (handles r)) (filter (\<lambda>r. side r = RECEIVER) rs)) @ h)
    \<and> list_all2 (\<lambda>r r'. setup_ok r' \<and> state r' = ACTIVE \<and> same_messages r r' \<and> threaded r' = threaded r \<and> marked r' = {}
         \<and> (\<forall>i. 0 \<le> i \<and> i < parts r' \<longrightarrow> counters r' ! nat i = 0)) rs rs'"
  using start_all_pass [OF assms, of h] by (auto simp: MPIP_Startall_eq)

lemma startall_starts_each_witness:
  "\<exists>rs'. MPIP_Startall mpi_done (int (length [demo SENDER 2 2, demo RECEIVER 2 2])) ([demo SENDER 2 2, demo RECEIVER 2 2], [])
      = Inr (MPI_SUCCESS, rs', [CStartall (handles (demo RECEIVER 2 2))])"
proof -
  have "\<forall>r\<in>set [demo SENDER 2 2, demo RECEIVER 2 2]. setup_ok r \<and> threaded r \<noteq> RUNNING"
    using demo_setup_ok [of 2 2] by simp
  from startall_starts_each [OF this, of mpi_done "[]"] show ?thesis by auto
qed

lemma wait_all_pass:
  assumes "\<forall>r\<in>set rs. setup_ok r \<and> threaded r \<noteq> RUNNING" "mpi_succeeds M" "\<And>h xs. waitall_ret M h xs"
  shows "\<exists>us. poll_all (elem_wait M) rs h
      = Inr (us, map (\<lambda>r. r\<lparr>state := INACTIVE\<rparr>) rs, rev (map (\<lambda>r. CWaitall (handles r)) rs) @ h)"
  using assms(1)
proof (induction rs arbitrary: h)
  case (Cons r rs)
  then show ?case
    using MPIP_Wait_eq [of r M h] assms(2,3) Cons.IH [of "CWaitall (handles r) # h"]
    by (auto simp: elem_wait_def [of M "(r, h)"])
qed simp

text \<open>
  \<open>MPIP_Waitall\<close> waits for the requests one after the other and makes every one inactive; when
  it returns, none of their messages is active. It blocks when the wait for one of them does.
\<close>

lemma waitall_waits_each:
  assumes "\<forall>r\<in>set rs. setup_ok r \<and> threaded r \<noteq> RUNNING" "mpi_succeeds M" "\<And>h xs. waitall_ret M h xs"
  shows "MPIP_Waitall M (int (length rs)) (rs, h)
      = Inr (MPI_SUCCESS, map (\<lambda>r. r\<lparr>state := INACTIVE\<rparr>) rs, rev (map (\<lambda>r. CWaitall (handles r)) rs) @ h)
    \<and> (\<forall>r\<in>set rs. \<forall>x\<in>set (handles r). \<not> active (rev (map (\<lambda>r. CWaitall (handles r)) rs) @ h) x)"
proof -
  have "\<not> active (rev (map (\<lambda>r. CWaitall (handles r)) qs) @ k) x" if "r \<in> set qs" "x \<in> set (handles r)" for qs k r x
    using that by (induction qs rule: rev_induct) auto
  moreover have "MPIP_Waitall M (int (length rs)) (rs, h)
      = Inr (MPI_SUCCESS, map (\<lambda>r. r\<lparr>state := INACTIVE\<rparr>) rs, rev (map (\<lambda>r. CWaitall (handles r)) rs) @ h)"
    using wait_all_pass [OF assms, of h] by (auto simp: MPIP_Waitall_eq)
  ultimately show ?thesis by blast
qed

lemma waitall_waits_each_witness:
  "MPIP_Waitall mpi_done (int (length [demo SENDER 2 2])) ([demo SENDER 2 2], [CStart 0])
      = Inr (MPI_SUCCESS, [(demo SENDER 2 2)\<lparr>state := INACTIVE\<rparr>], [CWaitall (handles (demo SENDER 2 2)), CStart 0])"
proof -
  have "\<forall>r\<in>set [demo SENDER 2 2]. setup_ok r \<and> threaded r \<noteq> RUNNING" using demo_setup_ok [of 2 2] by simp
  moreover have "waitall_ret mpi_done h xs" for h xs by (simp add: mpi_run_def list_all_iff)
  ultimately show ?thesis using waitall_waits_each [of "[demo SENDER 2 2]" mpi_done "[CStart 0]"] by simp
qed

text \<open>
  C37: a round over an array. \<open>MPIP_Startall\<close> on requests whose setup is over activates every one of
  them, clears its flags and counters, and starts the messages of the receiving ones, in order.
  \<open>MPIP_Waitall\<close> on the requests it leaves, after any calls that keep them so, waits for one after
  the other and makes every one inactive; none of their messages is active when it returns.
\<close>

theorem startall_then_waitall:
  assumes rs: "\<forall>r\<in>set rs. setup_ok r \<and> threaded r \<noteq> RUNNING" and M: "mpi_succeeds M" "\<And>h xs. waitall_ret M h xs"
  shows "\<exists>rs'. MPIP_Startall M (int (length rs)) (rs, h)
      = Inr (MPI_SUCCESS, rs', rev (map (\<lambda>r. CStartall (handles r)) (filter (\<lambda>r. side r = RECEIVER) rs)) @ h)
    \<and> list_all2 (\<lambda>r r'. setup_ok r' \<and> state r' = ACTIVE \<and> same_messages r r' \<and> threaded r' = threaded r \<and> marked r' = {}
         \<and> (\<forall>i. 0 \<le> i \<and> i < parts r' \<longrightarrow> counters r' ! nat i = 0)) rs rs'
    \<and> MPIP_Waitall M (int (length rs')) (rs', k)
      = Inr (MPI_SUCCESS, map (\<lambda>r. r\<lparr>state := INACTIVE\<rparr>) rs', rev (map (\<lambda>r. CWaitall (handles r)) rs') @ k)
    \<and> (\<forall>r\<in>set rs'. \<forall>x\<in>set (handles r). \<not> active (rev (map (\<lambda>r. CWaitall (handles r)) rs') @ k) x)"
proof -
  obtain rs' where rs': "MPIP_Startall M (int (length rs)) (rs, h)
      = Inr (MPI_SUCCESS, rs', rev (map (\<lambda>r. CStartall (handles r)) (filter (\<lambda>r. side r = RECEIVER) rs)) @ h)"
    and all: "list_all2 (\<lambda>r r'. setup_ok r' \<and> state r' = ACTIVE \<and> same_messages r r' \<and> threaded r' = threaded r \<and> marked r' = {}
         \<and> (\<forall>i. 0 \<le> i \<and> i < parts r' \<longrightarrow> counters r' ! nat i = 0)) rs rs'"
    using startall_starts_each [OF rs M(1), of h] by blast
  have "\<forall>r\<in>set rs'. setup_ok r \<and> threaded r \<noteq> RUNNING"
  proof
    fix r' assume "r' \<in> set rs'"
    then obtain j where j: "j < length rs'" "r' = rs' ! j" by (auto simp: in_set_conv_nth)
    with list_all2_lengthD [OF all] list_all2_nthD2 [OF all j(1)] rs
    show "setup_ok r' \<and> threaded r' \<noteq> RUNNING" by (auto simp: same_messages_def)
  qed
  from waitall_waits_each [OF this M, of k] rs' all show ?thesis by blast
qed

theorem startall_then_waitall_witness:
  "\<exists>rs'. MPIP_Startall mpi_done (int (length [demo SENDER 2 2, demo RECEIVER 2 2])) ([demo SENDER 2 2, demo RECEIVER 2 2], [])
      = Inr (MPI_SUCCESS, rs', [CStartall (handles (demo RECEIVER 2 2))])
    \<and> (\<exists>h. MPIP_Waitall mpi_done (int (length rs')) (rs', [CStart 0])
        = Inr (MPI_SUCCESS, map (\<lambda>r. r\<lparr>state := INACTIVE\<rparr>) rs', h))"
proof -
  let ?rs = "[demo SENDER 2 2, demo RECEIVER 2 2]"
  have rs: "\<forall>r\<in>set ?rs. setup_ok r \<and> threaded r \<noteq> RUNNING" using demo_setup_ok [of 2 2] by simp
  have "waitall_ret mpi_done h xs" for h xs by (simp add: mpi_run_def list_all_iff)
  from startall_then_waitall [OF rs mpi_run_succeeds this, of "[]" "[CStart 0]"]
  obtain rs' where "MPIP_Startall mpi_done (int (length ?rs)) (?rs, [])
      = Inr (MPI_SUCCESS, rs', rev (map (\<lambda>r. CStartall (handles r)) (filter (\<lambda>r. side r = RECEIVER) ?rs)) @ [])"
    "MPIP_Waitall mpi_done (int (length rs')) (rs', [CStart 0])
      = Inr (MPI_SUCCESS, map (\<lambda>r. r\<lparr>state := INACTIVE\<rparr>) rs', rev (map (\<lambda>r. CWaitall (handles r)) rs') @ [CStart 0])"
    by blast
  then show ?thesis by (intro exI [of _ rs']) auto
qed

end
