(* ===== verification/Run_Length.thy ===== *)
theory Run_Length
  imports Races Step_Systems
begin

text \<open>
  Every run of the system of \<open>Concurrency\<close> ends: the work left in a configuration, a bound on the
  number of steps still to come, decreases in every step. With the progress lemma of \<open>Races\<close>,
  a round that is scheduled long enough reaches a configuration in which every actor is done.
\<close>

section \<open>The work left\<close>

text \<open>
  With at most \<open>n\<close> messages, a marked partition costs its user at most two steps per message, the
  read of the status and the return.
\<close>

fun user_work :: "nat \<Rightarrow> pc \<Rightarrow> nat" where
  "user_work n (Marked p) = 2 * n + 2"
| "user_work n (Sending p i e t) = 2 * nat (e - i) + 1"
| "user_work n (Firing p i e t) = 2 * nat (e - i)"
| "user_work n _ = 0"

text \<open>The scan of \<open>k\<close> flags.\<close>

definition scan_work :: "nat \<Rightarrow> int \<Rightarrow> nat" where
  "scan_work n k = nat k * (2 * n + 2) + 1"

fun background_work :: "nat \<Rightarrow> int \<Rightarrow> pc \<Rightarrow> nat" where
  "background_work n lp Setup = scan_work n lp + 2"
| "background_work n lp Locking = scan_work n lp + 1"
| "background_work n lp (Scan q) = scan_work n (lp - q)"
| "background_work n lp (Sending p i e t) = user_work n (Sending p i e t) + scan_work n (lp - p - 1)"
| "background_work n lp (Firing p i e t) = user_work n (Firing p i e t) + scan_work n (lp - p - 1)"
| "background_work n lp _ = 0"

definition busy_users :: "(actor \<Rightarrow> pc) \<Rightarrow> nat set" where
  "busy_users f = {u. f (User u) \<noteq> Idle}"

definition users_work :: "nat \<Rightarrow> (actor \<Rightarrow> pc) \<Rightarrow> nat" where
  "users_work n f = (\<Sum>u\<in>busy_users f. user_work n (f (User u)))"

definition unmarked :: "mpip \<Rightarrow> int set" where
  "unmarked r = {0..<local_parts r} - marked r"

definition work :: "nat \<Rightarrow> conf \<Rightarrow> nat" where
  "work n s = card (unmarked (req s)) * (2 * n + 3) + users_work n (pcs s)
     + background_work n (local_parts (req s)) (pcs s Background)"

lemma scan_work_Suc: "0 < k \<Longrightarrow> scan_work n k = scan_work n (k - 1) + 2 * n + 2"
proof -
  assume "0 < k"
  then have "nat k = Suc (nat (k - 1))" by simp
  then show ?thesis by (simp add: scan_work_def)
qed

lemma finite_busy_goto: "finite (busy_users f) \<Longrightarrow> finite (busy_users (f(a := c)))"
proof -
  assume "finite (busy_users f)"
  then have "finite (insert (case a of User u \<Rightarrow> u | Background \<Rightarrow> 0) (busy_users f))" by simp
  then show ?thesis by (rule finite_subset [rotated]) (auto simp: busy_users_def split: actor.splits if_splits)
qed

text \<open>When one user moves, the work changes by that user's.\<close>

lemma users_work_goto:
  assumes "finite (busy_users f)"
  shows "users_work n (f(User u := c)) + user_work n (f (User u)) = users_work n f + user_work n c"
proof -
  let ?B = "insert u (busy_users f)"
  have sum: "users_work n g = (\<Sum>v\<in>?B - {u}. user_work n (g (User v))) + user_work n (g (User u))"
    if "busy_users g \<subseteq> ?B" for g
  proof -
    have "users_work n g = (\<Sum>v\<in>?B. user_work n (g (User v)))"
      unfolding users_work_def using assms that
      by (intro sum.mono_neutral_left) (auto simp: busy_users_def)
    then show ?thesis using assms by (simp add: sum.remove [of ?B u])
  qed
  have "users_work n f = (\<Sum>v\<in>?B - {u}. user_work n (f (User v))) + user_work n (f (User u))"
    by (rule sum) auto
  moreover have "users_work n (f(User u := c)) = (\<Sum>v\<in>?B - {u}. user_work n ((f(User u := c)) (User v)))
      + user_work n ((f(User u := c)) (User u))"
    by (rule sum) (auto simp: busy_users_def)
  moreover have "(\<Sum>v\<in>?B - {u}. user_work n ((f(User u := c)) (User v))) = (\<Sum>v\<in>?B - {u}. user_work n (f (User v)))"
    by (rule sum.cong) auto
  ultimately show ?thesis by simp
qed

lemma users_work_background [simp]: "users_work n (f(Background := c)) = users_work n f"
  by (simp add: users_work_def busy_users_def)

lemma unmarked_cong:
  "local_parts r' = local_parts r \<Longrightarrow> local_status r' = local_status r \<Longrightarrow> unmarked r' = unmarked r"
  by (simp add: unmarked_def marked_def)

section \<open>Every step uses up work\<close>

text \<open>The number of messages is \<open>n\<close> once the setup is over.\<close>

definition sized :: "mpi \<Rightarrow> hist \<Rightarrow> int \<Rightarrow> conf \<Rightarrow> bool" where
  "sized M h0 n s \<longleftrightarrow>
     (if pcs s Background = Setup
      then \<exists>sz. recv_data M h0 (partner (the_meta (req s))) sync_tag (comm (the_meta (req s))) = Some (n, sz)
      else parts (req s) = n)"

lemma work_user:
  assumes "finite (busy_users (pcs s))" "pcs s' = (pcs s)(User u := c)"
    and "local_parts (req s') = local_parts (req s)" "local_status (req s') = local_status (req s)"
    and "user_work n c < user_work n (pcs s (User u))"
  shows "work n s' < work n s"
  using users_work_goto [OF assms(1), of n u c] assms
  by (simp add: work_def unmarked_cong [of "req s'" "req s"])

lemma work_background:
  assumes "pcs s' = (pcs s)(Background := c)"
    and "local_parts (req s') = local_parts (req s)" "local_status (req s') = local_status (req s)"
    and "background_work n (local_parts (req s)) c < background_work n (local_parts (req s)) (pcs s Background)"
  shows "work n s' < work n s"
  using assms by (simp add: work_def unmarked_cong [of "req s'" "req s"])

lemma background_work_in_loop:
  "busy c = Some p \<Longrightarrow> \<forall>q. c \<noteq> Marked q \<Longrightarrow> background_work n lp c = user_work n c + scan_work n (lp - p - 1)"
  by (cases c) auto

text \<open>In the loop of \<open>general_send\<close> users and the background thread do the same work.\<close>

lemma work_in_loop:
  assumes "finite (busy_users (pcs s))" "pcs s' = (pcs s)(a := c)"
    and "local_parts (req s') = local_parts (req s)" "local_status (req s') = local_status (req s)"
    and "busy c = Some p" "busy (pcs s a) = Some p" "\<forall>q. c \<noteq> Marked q" "\<forall>q. pcs s a \<noteq> Marked q"
    and "user_work n c < user_work n (pcs s a)"
  shows "work n s' < work n s"
proof (cases a)
  case (User u)
  show ?thesis
    by (rule work_user [OF assms(1) assms(2) [unfolded User] assms(3,4)]) (use assms(9) User in simp)
next
  case Background
  with assms(9) have "background_work n (local_parts (req s)) c
      < background_work n (local_parts (req s)) (pcs s Background)"
    using background_work_in_loop [OF assms(5,7)] background_work_in_loop [OF assms(6,8)] by simp
  then show ?thesis by (rule work_background [OF assms(2) [unfolded Background] assms(3,4)])
qed

lemma work_mark:
  assumes I: "inv M h0 s" and u: "pcs s (User u) = Idle" and p: "p \<notin> marked (req s)"
    and st: "blk_set (local_status (req s)) p True = Inr st" and fin: "finite (busy_users (pcs s))"
  shows "work n (goto (User u) (Marked p) (s\<lparr>req := (req s)\<lparr>local_status := st\<rparr>\<rparr>)) < work n s"
proof -
  let ?r = "(req s)\<lparr>local_status := st\<rparr>"
  obtain xs where xs: "local_status (req s) = filled xs" "int (length xs) = local_parts (req s)"
    using invD(1) [OF I] by (auto simp: base_ok_def flags_set_def elim: is_filledE)
  then have b: "0 \<le> p" "p < local_parts (req s)" using st by (auto simp: blk_set_filled_iff)
  have "marked ?r = insert p (marked (req s))" using mark_partition [of "req s" p] st xs b by auto
  then have "unmarked ?r = unmarked (req s) - {p}" by (auto simp: unmarked_def)
  moreover have "p \<in> unmarked (req s)" "finite (unmarked (req s))" using b p by (auto simp: unmarked_def)
  ultimately have "card (unmarked (req s)) = Suc (card (unmarked ?r))" 
    using card_Suc_Diff1 [of "unmarked (req s)" p] by simp
  moreover have "users_work n ((pcs s)(User u := Marked p)) = users_work n (pcs s) + (2 * n + 2)"
    using users_work_goto [OF fin, of n u "Marked p"] by (simp add: u)
  ultimately show ?thesis unfolding work_def by simp
qed

lemma range_work:
  assumes I: "inv M h0 s" and bg: "pcs s Background \<noteq> Setup" and p: "p \<in> marked (req s)"
    and r: "send_range p (req s) = Inr (i, e, t)" and n: "sized M h0 n s"
  shows "nat (e - i) \<le> nat n"
proof -
  note D = invD [OF I] and R = send_range_in_loop [OF I bg p r]
  have ok: "setup_ok (req s)" "aligned (local_parts (req s)) (parts (req s))" using D(2) bg by (auto simp: phase_ok_def)
  have "0 \<le> p" "p < local_parts (req s)" using marked_bounds [OF p] setup_okD(10) [OF ok(1)] by auto
  from net.rng_in [OF ok(2) this] R n bg show ?thesis by (auto simp: sized_def)
qed

lemma work_sync:
  assumes I: "inv M h0 s" and c: "pcs s Background = Setup"
    and f: "bindE (sync_side M (not_side (side (req s))) (req s, log s)) (internal_setup M) = Inr (r, h)"
    and M: "mpi_succeeds M" "fresh_handles M" and n: "sized M h0 n s"
  shows "parts r = n" "local_parts r = local_parts (req s)" "local_status r = local_status (req s)"
proof -
  let ?q = "req s"
  obtain n' sz where q: "prepared ?q" "log s = h0" "fits M (the_meta ?q) n' sz"
    "recv_data M h0 (partner (the_meta ?q)) sync_tag (comm (the_meta ?q)) = Some (n', sz)"
    using invD(2) [OF I] c by (auto simp: phase_ok_def)
  from n c q(4) have "n' = n" by (auto simp: sized_def)
  from thread_setup_eq [OF q(1,3) M q(4)] obtain xs where "r = with_messages n' sz xs ?q"
    using f q(2) by auto
  then show "parts r = n" "local_parts r = local_parts ?q" "local_status r = local_status ?q"
    using \<open>n' = n\<close> by (simp_all add: with_messages_def)
qed

lemma work_step:
  assumes step: "step M s s'" and I: "inv M h0 s" and n: "sized M h0 n s"
    and fin: "finite (busy_users (pcs s))" and M: "mpi_succeeds M" "fresh_handles M"
  shows "work (nat n) s' < work (nat n) s"
  using step
proof cases
  case (mark u p st)
  then show ?thesis using work_mark [OF I _ _ _ fin] by simp
next
  case (delay u p)
  then show ?thesis by (intro work_user [OF fin, of _ u Idle]) auto
next
  case (go u p i e t)
  have "p \<in> marked (req s)" "pcs s Background = Done"
    using invD(1) [OF I] invD(5) [OF I, of "User u"] go by (auto simp: actor_ok_def base_ok_def)
  from range_work [OF I _ this(1) go(5) n] this(2) show ?thesis
    using go by (intro work_user [OF fin, of _ u "Sending p i e t"]) auto
next
  case (count a p i e t v r w)
  have "local_parts r = local_parts (req s)" "local_status r = local_status (req s)"
    using count(4) by (auto simp: fetch_add_def)
  then show ?thesis using count
    by (intro work_in_loop [OF fin, of _ a "if w = t then Firing p i e t else Sending p (i + 1) e t" p]) auto
next
  case (fire a p i e t r h)
  have "i < e" using invD(5) [OF I, of a] fire(2) by (simp add: actor_ok_def)
  moreover have "r = req s" using inv_fire [OF I fire(2,3)] by simp
  ultimately show ?thesis using fire by (intro work_in_loop [OF fin, of _ a "Sending p (i + 1) e t" p]) auto
next
  case (sent a p i e t)
  then show ?thesis
  proof (cases a)
    case (User u)
    with sent show ?thesis by (intro work_user [OF fin, of _ u Idle]) auto
  next
    case Background
    with sent show ?thesis by (intro work_background [of _ _ "Scan (p + 1)"]) (auto simp: algebra_simps)
  qed
next
  case (sync r h)
  with work_sync [OF I sync(2,3) M n] show ?thesis by (intro work_background [of _ _ Locking]) auto
next
  case acquire
  have "state (req s) = ACTIVE" using invD(1) [OF I] by (simp add: base_ok_def)
  with acquire show ?thesis by (intro work_background [of _ _ "Scan 0"]) auto
next
  case (skip p)
  then show ?thesis
    using scan_work_Suc [of "local_parts (req s) - p" "nat n"]
    by (intro work_background [of _ _ "Scan (p + 1)"]) (auto simp: algebra_simps)
next
  case (send p i e t)
  have "p \<in> marked (req s)" using send(4) by (simp add: marked_def)
  from range_work [OF I _ this send(5) n] send show ?thesis
    using scan_work_Suc [of "local_parts (req s) - p" "nat n"]
    by (intro work_background [of _ _ "Sending p i e t"]) (auto simp: algebra_simps)
next
  case (finish p)
  then show ?thesis by (intro work_background [of _ _ Done]) (auto simp: scan_work_def)
qed

lemma sized_step:
  assumes step: "step M s s'" and I: "inv M h0 s" and n: "sized M h0 n s" and M: "mpi_succeeds M" "fresh_handles M"
  shows "sized M h0 n s'"
  using step
proof cases
  case (sync r h)
  with work_sync [OF I sync(2,3) M n] show ?thesis by (simp add: sized_def)
next
  case (mark u p st)
  with n show ?thesis by (simp add: sized_def)
next
  case (count a p i e t v r w)
  with n sendingD(5) [OF I count(2)] show ?thesis by (auto simp: sized_def fetch_add_def)
next
  case (fire a p i e t r h)
  moreover have "r = req s" using inv_fire [OF I fire(2,3)] by simp
  ultimately show ?thesis using n by (auto simp: sized_def)
qed (use n in \<open>auto simp: sized_def split: if_splits\<close>)

lemma finite_busy_step: "step M s s' \<Longrightarrow> finite (busy_users (pcs s)) \<Longrightarrow> finite (busy_users (pcs s'))"
  by (erule stepE) (simp_all add: finite_busy_goto)

section \<open>Runs are bounded\<close>

text \<open>A configuration in a round of at most \<open>n\<close> messages, with the library the round relies on.\<close>

definition in_round :: "mpi \<Rightarrow> hist \<Rightarrow> int \<Rightarrow> conf \<Rightarrow> bool" where
  "in_round M h0 n s \<longleftrightarrow> good M h0 s \<and> sized M h0 n s \<and> finite (busy_users (pcs s))
     \<and> mpi_succeeds M \<and> fresh_handles M"

interpretation round: measured_steps "step M" "in_round M h0 n" quiescent "work (nat n)" for M h0 n
proof
  fix s s' assume s: "step M s s'" and r: "in_round M h0 n s"
  then have g: "good M h0 s" "inv M h0 s" "sized M h0 n s" "finite (busy_users (pcs s))"
    and M: "mpi_succeeds M" "fresh_handles M" by (auto simp: in_round_def good_def)
  show "work (nat n) s' < work (nat n) s" by (rule work_step [OF s g(2-4) M])
  have "good M h0 s'" using good_reaches [OF _ g(1) M] s by blast
  then show "in_round M h0 n s'"
    using sized_step [OF s g(2,3) M] finite_busy_step [OF s g(4)] M by (simp add: in_round_def)
qed (auto simp: in_round_def intro: good_progress)

text \<open>A bound for a whole round of \<open>n\<close> messages.\<close>

definition round_bound :: "int \<Rightarrow> int \<Rightarrow> nat" where
  "round_bound lp n = nat lp * (4 * nat n + 5) + 3"

lemma work_start:
  assumes "c = Done \<or> c = Setup"
  shows "work (nat n) (conf_of r h c) \<le> round_bound (local_parts r) n"
proof -
  have "card (unmarked r) \<le> card {0..<local_parts r}" unfolding unmarked_def by (intro card_mono) auto
  then have "card (unmarked r) \<le> nat (local_parts r)" by simp
  then have "card (unmarked r) * (2 * nat n + 3) \<le> nat (local_parts r) * (2 * nat n + 3)" by (rule mult_right_mono) simp
  moreover have "users_work (nat n) (pcs (conf_of r h c)) = 0" by (simp add: users_work_def busy_users_def conf_of_def)
  ultimately show ?thesis
    using assms by (auto simp: work_def round_bound_def conf_of_def scan_work_def algebra_simps)
qed

lemma finite_busy_start [simp]: "finite (busy_users (pcs (conf_of r h c)))"
  by (simp add: busy_users_def conf_of_def)

lemma sized_start:
  "(c = Done \<and> n = parts r) \<or> (c = Setup \<and> waiting_sender M h r n) \<Longrightarrow> sized M h n (conf_of r h c)"
  by (auto simp: sized_def conf_of_def waiting_sender_def)

lemma in_round_start:
  assumes "(c = Done \<and> ready_sender r \<and> n = parts r) \<or> (c = Setup \<and> waiting_sender M h r n \<and> flags_set r)"
    and "mpi_succeeds M" "fresh_handles M"
  shows "in_round M h n (conf_of r h c)"
  using assms good_ready [of r M h] good_waiting [of M h r n] sized_start [of c n r M h] by (auto simp: in_round_def)

end
