(* ===== verification/Cleared_Flags.thy ===== *)
theory Cleared_Flags
  imports Run_Length
begin

text \<open>
  Rounds whose ready flags nobody has initialised: \<open>prep\<close> only allocates them, and a start that
  finds the background thread running does not reset them. Every run of such a round is also a run
  from cleared flags (\<open>clear_conf\<close>, a functional simulation), so that what holds of the latter carries
  over; but the background thread can only go past a flag that has been stored.
\<close>

section \<open>Clearing the flags\<close>

fun blk_clear :: "bool block \<Rightarrow> bool block" where
  "blk_clear (Live xs) = Live (map (\<lambda>x. Some (x = Some True)) xs)"
| "blk_clear b = b"

definition clear_flags :: "mpip \<Rightarrow> mpip" where
  "clear_flags r = r\<lparr>local_status := blk_clear (local_status r)\<rparr>"

definition clear_conf :: "conf \<Rightarrow> conf" where
  "clear_conf s = s\<lparr>req := clear_flags (req s)\<rparr>"

lemma clear_flags_simps [simp]:
  "local_status (clear_flags r) = blk_clear (local_status r)" "state (clear_flags r) = state r" "side (clear_flags r) = side r"
  "threaded (clear_flags r) = threaded r" "parts (clear_flags r) = parts r" "local_parts (clear_flags r) = local_parts r"
  "psize (clear_flags r) = psize r" "local_size (clear_flags r) = local_size r"
  "request (clear_flags r) = request r" "internal_status (clear_flags r) = internal_status r"
  "comm_data (clear_flags r) = comm_data r" "sync_thread (clear_flags r) = sync_thread r" "lock (clear_flags r) = lock r"
  by (simp_all add: clear_flags_def)

lemma clear_flags_update [simp]:
  "clear_flags (r\<lparr>threaded := t\<rparr>) = (clear_flags r)\<lparr>threaded := t\<rparr>"
  "clear_flags (r\<lparr>local_status := b\<rparr>) = (clear_flags r)\<lparr>local_status := blk_clear b\<rparr>"
  by (rule mpip.equality; simp)+

lemma clear_conf_simps [simp]:
  "req (clear_conf s) = clear_flags (req s)" "log (clear_conf s) = log s" "pcs (clear_conf s) = pcs s"
  "counted (clear_conf s) = counted s"
  by (simp_all add: clear_conf_def)

lemma clear_conf_update [simp]:
  "clear_conf (s\<lparr>req := r\<rparr>) = (clear_conf s)\<lparr>req := clear_flags r\<rparr>" "clear_conf (s\<lparr>log := h\<rparr>) = (clear_conf s)\<lparr>log := h\<rparr>"
  "clear_conf (s\<lparr>pcs := f\<rparr>) = (clear_conf s)\<lparr>pcs := f\<rparr>" "clear_conf (s\<lparr>counted := C\<rparr>) = (clear_conf s)\<lparr>counted := C\<rparr>"
  by (simp_all add: clear_conf_def)

lemma locked_clear [simp]: "locked (clear_conf s) \<longleftrightarrow> locked s"
  by (simp add: locked_def)

lemma blk_len_clear [simp]: "blk_len (blk_clear b) = blk_len b"
  by (cases b) simp_all

lemma blk_get_clear: "blk_get b i = Inr v \<Longrightarrow> blk_get (blk_clear b) i = Inr v"
  by (cases b) (auto split: if_splits option.splits)

lemma blk_get_clear_True [simp]: "blk_get (blk_clear b) i = Inr True \<longleftrightarrow> blk_get b i = Inr True"
  by (cases b) (auto split: if_splits option.splits)

lemma blk_set_clear: "blk_set b i True = Inr c \<Longrightarrow> blk_set (blk_clear b) i True = Inr (blk_clear c)"
  by (cases b) (auto simp: map_update split: if_splits)

lemma marked_clear [simp]: "marked (clear_flags r) = marked r"
  by (simp add: marked_def)

lemma flags_set_clear: "blk_len (local_status r) = local_parts r \<Longrightarrow> 0 < local_parts r \<Longrightarrow> flags_set (clear_flags r)"
proof -
  assume a: "blk_len (local_status r) = local_parts r" "0 < local_parts r"
  then obtain xs where xs: "local_status r = Live xs" by (cases "local_status r") auto
  then have "local_status (clear_flags r) = filled (map (\<lambda>x. x = Some True) xs)" by (simp add: filled_def)
  with a xs show ?thesis by (simp add: flags_set_def)
qed

lemma prepared_clear [simp]: "prepared (clear_flags r) \<longleftrightarrow> prepared r"
  by (simp add: prepared_def)

lemma setup_ok_clear [simp]: "setup_ok (clear_flags r) \<longleftrightarrow> setup_ok r"
  by (simp add: setup_ok_def)

section \<open>The operations do not see the difference\<close>

lemma send_range_clear [simp]: "send_range p (clear_flags r) = send_range p r"
  by (simp add: send_range_def map_local_to_network_partitions_def)

lemma fetch_add_clear: "fetch_add i r = Inr (v, q) \<Longrightarrow> fetch_add i (clear_flags r) = Inr (v, clear_flags q)"
  by (auto simp: fetch_add_def clear_flags_def)

lemma start_message_clear: "start_message M i (r, h) = Inr (q, k) \<Longrightarrow> start_message M i (clear_flags r, h) = Inr (clear_flags q, k)"
  by (auto simp: start_message_def)

text \<open>The setup of the messages does not touch the flags, whatever they are.\<close>

lemma setup_one_flags:
  "setup_one M mes e i (r\<lparr>local_status := b\<rparr>, h)
     = bindE (setup_one M mes e i (r, h)) (\<lambda>(q, k). Inr (q\<lparr>local_status := b\<rparr>, k))"
  by (simp add: setup_one_def Let_def bindE_def split: sum.splits)

lemma setup_loop_flags:
  "for_up i n (setup_one M mes e) (r\<lparr>local_status := b\<rparr>, h)
     = bindE (for_up i n (setup_one M mes e) (r, h)) (\<lambda>(q, k). Inr (q\<lparr>local_status := b\<rparr>, k))"
proof (induction "nat (n - i)" arbitrary: i r h)
  case (Suc m)
  then have "i < n" "m = nat (n - (i + 1))" by auto
  then show ?case using Suc.hyps(1) [of "i + 1"]
    by (simp add: for_up_step setup_one_flags bindE_assoc split_def)
qed simp

lemma internal_setup_flags:
  "internal_setup M (r\<lparr>local_status := b\<rparr>, h) = bindE (internal_setup M (r, h)) (\<lambda>(q, k). Inr (q\<lparr>local_status := b\<rparr>, k))"
proof -
  have u: "r\<lparr>local_status := b, request := x, internal_status := y\<rparr> = r\<lparr>request := x, internal_status := y\<rparr>\<lparr>local_status := b\<rparr>" for x y
    by simp
  show ?thesis
    unfolding internal_setup_def split_conv Let_def
    by (simp add: bindE_assoc u setup_loop_flags del: mpip.update_defs)
qed

lemma sync_setup_flags:
  "bindE (sync_side M d (r\<lparr>local_status := b\<rparr>, h)) (internal_setup M)
     = bindE (bindE (sync_side M d (r, h)) (internal_setup M)) (\<lambda>(q, k). Inr (q\<lparr>local_status := b\<rparr>, k))"
proof -
  have "sync_side M d (r\<lparr>local_status := b\<rparr>, h) = bindE (sync_side M d (r, h)) (\<lambda>(q, k). Inr (q\<lparr>local_status := b\<rparr>, k))"
    by (simp add: sync_side_def bindE_def split: sum.splits option.splits)
  then show ?thesis
    by (simp add: bindE_assoc split_def) (simp add: bindE_def internal_setup_flags split: sum.splits prod.splits)
qed

lemma sync_setup_keeps:
  assumes "bindE (sync_side M d (r, h)) (internal_setup M) = Inr (q, k)"
  shows "local_status q = local_status r" "local_parts q = local_parts r" "state q = state r" "threaded q = threaded r"
proof -
  have "Inr (q, k) = Inr (q\<lparr>local_status := local_status r\<rparr>, k)"
    using sync_setup_flags [of M d "local_status r" r h] assms by simp
  then show "local_status q = local_status r" by (metis Pair_inject mpip.select_convs(3) mpip.surjective mpip.update_convs(3) sum.inject(2))
  obtain r1 h1 where r1: "sync_side M d (r, h) = Inr (r1, h1)" "internal_setup M (r1, h1) = Inr (q, k)"
    using assms by auto
  let ?P = "\<lambda>(u, j). local_parts u = local_parts r \<and> state u = state r \<and> threaded u = threaded r"
  obtain a b c where "r1 = r\<lparr>parts := a, psize := b\<rparr>" using sync_side_fields [OF r1(1)] by blast
  with r1(2) obtain mes e j where "for_up 0 a (setup_one M mes e)
      (r\<lparr>parts := a, psize := b, request := blk_malloc a, internal_status := blk_malloc a\<rparr>, j) = Inr (q, k)"
    by (auto simp: internal_setup_def Let_def)
  then have "?P (q, k)"
    by (rule for_up_preserves) (auto simp: setup_one_def Let_def)
  then show "local_parts q = local_parts r" "state q = state r" "threaded q = threaded r" by auto
qed

section \<open>The simulation\<close>

lemma step_clear:
  assumes "step M s s'"
  shows "step M (clear_conf s) (clear_conf s')"
  using assms
proof cases
  case (mark u p st)
  have "step M (clear_conf s) (goto (User u) (Marked p) ((clear_conf s)\<lparr>req := (req (clear_conf s))\<lparr>local_status := blk_clear st\<rparr>\<rparr>))"
    by (rule step.mark) (use mark blk_set_clear in simp_all)
  then show ?thesis by (simp add: mark(1) clear_flags_def)
next
  case (delay u p)
  with step.delay [of "clear_conf s" u p M] show ?thesis by simp
next
  case (go u p i e t)
  with step.go [of "clear_conf s" u p i e t M] show ?thesis by simp
next
  case (count a p i e t v r w)
  with step.count [of "clear_conf s" a p i e t v "clear_flags r" w M] fetch_add_clear [OF count(4)]
  show ?thesis by simp
next
  case (fire a p i e t r h)
  with step.fire [of "clear_conf s" a p i e t M "clear_flags r" h] start_message_clear [OF fire(3)]
  show ?thesis by simp
next
  case (sent a p i e t)
  with step.sent [of "clear_conf s" a p i e t M] show ?thesis by simp
next
  case (sync r h)
  have "bindE (sync_side M (not_side (side (req s))) (clear_flags (req s), log s)) (internal_setup M) = Inr (clear_flags r, h)"
    unfolding clear_flags_def sync_setup_flags sync(3) by (simp add: sync_setup_keeps(1) [OF sync(3)])
  with sync step.sync [of "clear_conf s" M "clear_flags r" h] show ?thesis by simp
next
  case acquire
  with step.acquire [of "clear_conf s" M] show ?thesis by (cases "state (req s) = ACTIVE") simp_all
next
  case (skip p)
  with step.skip [of "clear_conf s" p M] blk_get_clear [OF skip(4)] show ?thesis by simp
next
  case (send p i e t)
  with step.send [of "clear_conf s" p i e t M] blk_get_clear [OF send(4)] show ?thesis by simp
next
  case (finish p)
  with step.finish [of "clear_conf s" p M] show ?thesis by simp
qed

interpretation clear: step_map "step M" "step M" clear_conf for M
  by unfold_locales (rule step_clear)

section \<open>The scan of uninitialised flags\<close>

text \<open>
  No flag holds \<open>False\<close>, and the background thread has found every flag it has passed stored.
\<close>

definition never_cleared :: "bool block \<Rightarrow> bool" where
  "never_cleared b \<longleftrightarrow> (\<forall>i. blk_get b i \<noteq> Inr False)"

fun passed :: "int \<Rightarrow> pc \<Rightarrow> int set" where
  "passed lp (Scan q) = {0..<min q lp}"
| "passed lp (Sending p i e t) = {0..p}"
| "passed lp (Firing p i e t) = {0..p}"
| "passed lp Done = {0..<lp}"
| "passed lp _ = {}"

definition scan_inv :: "conf \<Rightarrow> bool" where
  "scan_inv s \<longleftrightarrow> never_cleared (local_status (req s)) \<and> state (req s) = ACTIVE
     \<and> passed (local_parts (req s)) (pcs s Background) \<subseteq> marked (req s)"

lemma never_cleared_malloc: "never_cleared (blk_malloc n)"
  by (simp add: never_cleared_def blk_malloc_def)

lemma never_cleared_set: "never_cleared b \<Longrightarrow> blk_set b p True = Inr c \<Longrightarrow> never_cleared c"
  by (cases b) (auto simp: never_cleared_def nth_list_update split: if_splits option.splits)

lemma marked_set:
  "blk_set (local_status r) p True = Inr st \<Longrightarrow> marked r \<subseteq> marked (r\<lparr>local_status := st\<rparr>)"
  by (cases "local_status r") (auto simp: marked_def nth_list_update split: if_splits option.splits)

lemma scan_inv_step:
  assumes "step M s s'" "scan_inv s"
  shows "scan_inv s'"
  using assms(1)
proof cases
  case (mark u p st)
  with assms(2) never_cleared_set [OF _ mark(5)] marked_set [OF mark(5)] show ?thesis
    by (auto simp: scan_inv_def)
next
  case (count a p i e t v r w)
  then have "\<exists>x. r = (req s)\<lparr>internal_status := x\<rparr>" by (auto simp: fetch_add_def)
  with count assms(2) show ?thesis by (cases "a = Background") (auto simp: scan_inv_def marked_def)
next
  case (fire a p i e t r h)
  then have "r = req s" by (auto simp: start_message_def)
  with fire assms(2) show ?thesis by (cases "a = Background") (auto simp: scan_inv_def)
next
  case (sent a p i e t)
  with assms(2) show ?thesis by (cases a) (auto simp: scan_inv_def)
next
  case (sync r h)
  with assms(2) sync_setup_keeps [OF sync(3)] show ?thesis by (simp add: scan_inv_def)
next
  case (skip p)
  with assms(2) show ?thesis by (simp add: scan_inv_def never_cleared_def)
next
  case (send p i e t)
  then have "p \<in> marked (req s)" by (simp add: marked_def)
  moreover have "{0..p} \<subseteq> insert p {0..<min p (local_parts (req s))}" using send(3) by auto
  ultimately have "{0..p} \<subseteq> marked (req s)" using send(2) assms(2) unfolding scan_inv_def by force
  with send assms(2) show ?thesis by (simp add: scan_inv_def)
next
  case (finish p)
  with assms(2) show ?thesis by (auto simp: scan_inv_def marked_def)
qed (use assms(2) in \<open>auto simp: scan_inv_def\<close>)

lemma scan_inv_reaches: "reaches M s s' \<Longrightarrow> scan_inv s \<Longrightarrow> scan_inv s'"
  by (induction rule: rtranclp_induct) (auto intro: scan_inv_step)

text \<open>So a run from uninitialised flags only ends when every partition has been marked.\<close>

lemma quiescent_all_marked:
  assumes "reaches M s s'" "scan_inv s" "quiescent s'"
  shows "{0..<local_parts (req s')} \<subseteq> marked (req s')"
  using scan_inv_reaches [OF assms(1,2)] assms(3) by (simp add: scan_inv_def quiescent_def)

section \<open>A round that begins with any flags\<close>

lemma clear_conf_of [simp]: "clear_conf (conf_of r h c) = conf_of (clear_flags r) h c"
  by (simp add: conf_of_def clear_conf_def)

lemma clear_flags_same: "flags_set r \<Longrightarrow> clear_flags r = r"
  by (rule mpip.equality) (auto simp: flags_set_def filled_def comp_def elim!: is_filledE)

lemma waiting_cleared:
  assumes "waiting_sender M h r n"
  shows "waiting_sender M h (clear_flags r) n" "flags_set (clear_flags r)"
proof -
  from assms have "prepared r" by (simp add: waiting_sender_def delayed_def held_def)
  then show "flags_set (clear_flags r)" by (intro flags_set_clear) (simp_all add: prepared_def)
  show "waiting_sender M h (clear_flags r) n" using assms by (simp add: waiting_sender_def delayed_def held_def)
qed

lemma begun_in_round:
  assumes b: "(c = Done \<and> ready_sender r \<and> n = parts r) \<or> (c = Setup \<and> waiting_sender M h r n)"
    and M: "mpi_succeeds M" "fresh_handles M"
  shows "in_round M h n (clear_conf (conf_of r h c))"
  unfolding clear_conf_of
proof (rule in_round_start [OF _ M])
  show "(c = Done \<and> ready_sender (clear_flags r) \<and> n = parts (clear_flags r))
      \<or> (c = Setup \<and> waiting_sender M h (clear_flags r) n \<and> flags_set (clear_flags r))"
    using b waiting_cleared [of M h r n] clear_flags_same [of r] by (auto simp: ready_sender_def)
qed

section \<open>What can stop an actor\<close>

text \<open>The background thread is about to read a flag that nobody has stored.\<close>

definition reads_uninit :: "conf \<Rightarrow> bool" where
  "reads_uninit s \<longleftrightarrow> (\<exists>p. pcs s Background = Scan p \<and> p < local_parts (req s)
     \<and> blk_get (local_status (req s)) p = Inl (Undefined UninitRead))"

lemma blk_set_unclear: "blk_set (blk_clear b) i v = Inr c \<Longrightarrow> \<exists>d. blk_set b i v = Inr d"
  by (cases b) (auto split: if_splits)

lemma blk_get_unclear:
  "blk_get (blk_clear b) i = Inr v \<Longrightarrow> blk_get b i = Inr v \<or> blk_get b i = Inl (Undefined UninitRead)"
  by (cases b) (auto split: if_splits option.splits)

text \<open>Apart from that, a step from cleared flags is one from the flags as they are.\<close>

lemma step_unclear:
  assumes "step M (clear_conf s) t"
  shows "(\<exists>s'. step M s s' \<and> pcs s' = pcs t) \<or> (reads_uninit s \<and> (\<forall>u. pcs t (User u) = pcs s (User u)))"
  using assms
proof cases
  case (mark u p st)
  from blk_set_unclear [of "local_status (req s)" p True st] mark obtain d where
    "blk_set (local_status (req s)) p True = Inr d" by auto
  with step.mark [of s u p d M] mark show ?thesis by fastforce
next
  case (delay u p)
  with step.delay [of s u p M] show ?thesis by fastforce
next
  case (go u p i e v)
  with step.go [of s u p i e v M] show ?thesis by fastforce
next
  case (count a p i e v x r w)
  then have "\<exists>q. fetch_add i (req s) = Inr (x, q)" by (auto simp: fetch_add_def)
  then obtain q where "fetch_add i (req s) = Inr (x, q)" by blast
  from step.count [of s a p i e v x q w M, OF _ count(3) this count(5)] count(1,2) show ?thesis by fastforce
next
  case (fire a p i e v r h)
  then have "\<exists>q. start_message M i (req s, log s) = Inr (q, h)" by (auto simp: start_message_def)
  then obtain q where "start_message M i (req s, log s) = Inr (q, h)" by blast
  from step.fire [of s a p i e v M q h, OF _ this] fire(1,2) show ?thesis by fastforce
next
  case (sent a p i e v)
  with step.sent [of s a p i e v M] show ?thesis by fastforce
next
  case (sync r h)
  then have "\<exists>q. bindE (sync_side M (not_side (side (req s))) (req s, log s)) (internal_setup M) = Inr (q, h)"
    unfolding clear_conf_simps clear_flags_def sync_setup_flags by auto
  then obtain q where "bindE (sync_side M (not_side (side (req s))) (req s, log s)) (internal_setup M) = Inr (q, h)" by blast
  from step.sync [OF _ this] sync(1,2) show ?thesis by fastforce
next
  case acquire
  with step.acquire [of s M] show ?thesis by fastforce
next
  case (skip p)
  then show ?thesis
    using blk_get_unclear [of "local_status (req s)" p False] step.skip [of s p M] by (fastforce simp: reads_uninit_def)
next
  case (send p i e v)
  then show ?thesis using step.send [of s p i e v M] by fastforce
next
  case (finish p)
  with step.finish [of s p M] show ?thesis by fastforce
qed

lemma actor_stopped:
  assumes g: "in_round M h n (clear_conf s)" and a: "pcs s a \<noteq> Idle" "pcs s a \<noteq> Done"
  shows "(\<exists>s'. step M s s' \<and> pcs s' a \<noteq> pcs s a) \<or> (a \<noteq> Background \<and> locked s) \<or> (a = Background \<and> reads_uninit s)"
proof -
  have "(\<exists>t. step M (clear_conf s) t \<and> pcs t a \<noteq> pcs s a) \<or> (a \<noteq> Background \<and> locked s)"
    using actor_moves [of M h "clear_conf s" a] g a by (simp add: in_round_def)
  then show ?thesis
  proof (elim disjE exE conjE)
    fix t assume t: "step M (clear_conf s) t" "pcs t a \<noteq> pcs s a"
    from step_unclear [OF t(1)] t(2) show ?thesis by (cases a) auto
  qed simp
qed

lemma no_uninit: "in_round M h n s \<Longrightarrow> \<not> reads_uninit s"
proof
  assume r: "in_round M h n s" and "reads_uninit s"
  then obtain p where p: "pcs s Background = Scan p" "p < local_parts (req s)" "blk_get (local_status (req s)) p = Inl (Undefined UninitRead)"
    by (auto simp: reads_uninit_def)
  have I: "inv M h s" using r by (simp add: in_round_def good_def)
  have "0 \<le> p" using invD(5) [OF I, of Background] p(1) by (simp add: actor_ok_def)
  then show False using flags_setD [of "req s" p] invD(1) [OF I] p(2,3) by (simp add: base_ok_def)
qed

section \<open>Every round can end\<close>

lemma round_flags:
  assumes "in_round M h n (clear_conf s)"
  shows "side (req s) = SENDER \<and> state (req s) = ACTIVE" "blk_len (local_status (req s)) = local_parts (req s)"
    "0 < local_parts (req s)"
proof -
  have b: "base_ok (clear_conf s)" "phase_ok M h (clear_conf s)" using assms by (auto simp: in_round_def good_def inv_def)
  then show "side (req s) = SENDER \<and> state (req s) = ACTIVE" by (simp add: base_ok_def)
  have "is_filled (blk_clear (local_status (req s))) (local_parts (req s))" using b(1) by (simp add: base_ok_def flags_set_def)
  then obtain xs where "blk_clear (local_status (req s)) = filled xs" "int (length xs) = local_parts (req s)" by (auto elim: is_filledE)
  then show "blk_len (local_status (req s)) = local_parts (req s)" by (metis blk_len_clear blk_len_filled)
  show "0 < local_parts (req s)"
    using b(2) by (auto simp: phase_ok_def prepared_def setup_ok_def split: if_splits)
qed

text \<open>Users can store all flags that are missing; then there is nothing uninitialised left.\<close>

lemma mark_rest:
  assumes "in_round M h n (clear_conf s)"
  shows "\<exists>t. reaches M s t \<and> {0..<local_parts (req t)} \<subseteq> marked (req t)"
  using assms
proof (induction "card ({0..<local_parts (req s)} - marked (req s))" arbitrary: s rule: less_induct)
  case less
  show ?case
  proof (cases "{0..<local_parts (req s)} \<subseteq> marked (req s)")
    case False
    then obtain p where "p \<in> {0..<local_parts (req s)}" "p \<notin> marked (req s)" by blast
    then have p: "0 \<le> p" "p < local_parts (req s)" "p \<notin> marked (req s)" by simp_all
    note b = round_flags [OF less.prems]
    have fin: "finite (busy_users (pcs s))" using less.prems by (simp add: in_round_def)
    from fin obtain u where u: "pcs s (User u) = Idle" using ex_new_if_finite [OF infinite_UNIV_nat fin] by (auto simp: busy_users_def)
    obtain st where st: "blk_set (local_status (req s)) p True = Inr st"
      using blk.put_ok [of p "local_status (req s)"] p b(2) by metis
    let ?t = "goto (User u) (Marked p) (s\<lparr>req := (req s)\<lparr>local_status := st\<rparr>\<rparr>)"
    have s: "step M s ?t" by (rule step.mark [OF u b(1) p(3) st])
    have "marked (req ?t) = insert p (marked (req s))" using mark_partition [OF b(2) p(1,2)] st by auto
    then have "card ({0..<local_parts (req ?t)} - marked (req ?t)) < card ({0..<local_parts (req s)} - marked (req s))"
      using p by (intro psubset_card_mono) auto
    moreover have "in_round M h n (clear_conf ?t)" using round.step_ok [OF step_clear [OF s] less.prems] .
    ultimately obtain t where "reaches M ?t t" "{0..<local_parts (req t)} \<subseteq> marked (req t)" using less.hyps by blast
    with s show ?thesis by (meson converse_rtranclp_into_rtranclp)
  qed blast
qed

lemma can_finish:
  assumes "in_round M h n (clear_conf s)"
  shows "\<exists>t. reaches M s t \<and> quiescent t"
proof -
  obtain t where t: "reaches M s t" "{0..<local_parts (req t)} \<subseteq> marked (req t)" using mark_rest [OF assms] by blast
  have r: "in_round M h n (clear_conf t)" by (rule round.run_ok [OF clear.run_abs [OF t(1)] assms])
  note b = round_flags [OF r]
  have "marked (req t) \<subseteq> {0..<local_parts (req t)}" using marked_bounds b(2) by fastforce
  with t(2) have "flags_set (req t)" using b(2,3) by (intro marked_all_flags_set) auto
  then have "clear_conf t = t" by (simp add: clear_conf_def clear_flags_same)
  with r have "in_round M h n t" by simp
  from round.run_to_end [OF this] t(1) show ?thesis by (meson rtranclp_trans)
qed

section \<open>What is sent is ready\<close>

text \<open>Until the thread is done, it is the only one that counts.\<close>

lemma thread_counts:
  assumes "reaches M s s'" "in_round M h n (clear_conf s)" "\<forall>p i. (False, p, i) \<notin> counted s"
  shows "pcs s' Background = Done \<or> (\<forall>p i. (False, p, i) \<notin> counted s')"
  using assms(1)
proof (induction rule: rtranclp_induct)
  case (step t u)
  have I: "inv M h (clear_conf t)"
    using round.run_ok [OF clear.run_abs [OF step.hyps(1)] assms(2)] by (simp add: in_round_def good_def)
  have d: "pcs t Background = Done" if "pcs t (User v) = Sending p i e x" for v p i e x
    using invD(5) [OF I, of "User v"] that by (simp add: actor_ok_def in_loop_def)
  from step.hyps(2) step.IH show ?case
  proof cases
    case (count a p i e x y r w)
    with step.IH d show ?thesis by (cases a) auto
  qed (auto elim!: stepE)
qed (use assms(3) in simp)

lemma never_cleared_safe:
  assumes w: "waiting_sender M h r n" "never_cleared (local_status r)" and M: "mpi_succeeds M" "fresh_handles M"
    and run: "reaches M (conf_of r h Setup) s" and bg: "pcs s Background \<noteq> Setup" and i: "0 \<le> i" "i < parts (req s)"
    and st: "starts (log s) (handles (req s) ! nat i) \<noteq> starts h (handles (req s) ! nat i)"
  shows "deps (local_parts (req s)) (parts (req s)) i \<subseteq> marked (req s)"
proof -
  have r: "in_round M h n (clear_conf (conf_of r h Setup))" using w(1) M by (intro begun_in_round) simp_all
  have g: "good M h (clear_conf s)" using round.run_ok [OF clear.run_abs [OF run] r] by (simp add: in_round_def)
  have "scan_inv (conf_of r h Setup)"
    using w by (simp add: scan_inv_def conf_of_def waiting_sender_def delayed_def held_def)
  from scan_inv_reaches [OF run this] have sc: "passed (local_parts (req s)) (pcs s Background) \<subseteq> marked (req s)"
    by (simp add: scan_inv_def)
  from thread_counts [OF run r] have "pcs s Background = Done \<or> (\<forall>p i. (False, p, i) \<notin> counted s)" by (simp add: conf_of_def)
  then show ?thesis
  proof
    assume "pcs s Background = Done"
    with sc show ?thesis by (force simp: deps_def)
  next
    assume "\<forall>p i. (False, p, i) \<notin> counted s"
    then show ?thesis using good_safe_one [OF g, of i True] bg i st by simp
  qed
qed

end
