(* ===== verification/Uninterrupted.thy ===== *)
theory Uninterrupted
  imports Run_Length Ready_Order
begin

text \<open>
  A call that runs without interruption is one of the schedules of \<open>Concurrency\<close>: the functions of
  \<open>Send\<close>, \<open>Sync_Thread\<close> and \<open>Api\<close>, which execute a call as a whole, and the step relation, which
  takes it apart, have the same results.
\<close>

section \<open>Runs of one actor\<close>

text \<open>
  \<open>solo M a s c t\<close>: from \<open>s\<close>, actor \<open>a\<close> alone can take the system to a configuration where it is at
  \<open>c\<close> and the request and the history are \<open>t\<close>.
\<close>

definition solo :: "mpi \<Rightarrow> actor \<Rightarrow> conf \<Rightarrow> pc \<Rightarrow> mpip \<times> hist \<Rightarrow> bool" where
  "solo M a s c t \<longleftrightarrow> (\<exists>s'. reaches M s s' \<and> (req s', log s') = t \<and> pcs s' = (pcs s)(a := c))"

lemma solo_refl: "pcs s a = c \<Longrightarrow> solo M a s c (req s, log s)"
  by (auto simp: solo_def intro!: exI [of _ s])

lemma solo_step:
  assumes "step M s s'" "pcs s' = (pcs s)(a := c)" "solo M a s' d t"
  shows "solo M a s d t"
  using assms by (auto simp: solo_def intro: converse_rtranclp_into_rtranclp)

lemma solo_last:
  assumes "step M s s'" "pcs s' = (pcs s)(a := c)" "(req s', log s') = t"
  shows "solo M a s c t"
  using assms by (auto simp: solo_def)

lemma solo_trans:
  assumes "solo M a s c (r, h)" "\<And>s'. pcs s' = (pcs s)(a := c) \<Longrightarrow> (req s', log s') = (r, h) \<Longrightarrow> solo M a s' d t"
  shows "solo M a s d t"
proof -
  obtain s' where s': "reaches M s s'" "(req s', log s') = (r, h)" "pcs s' = (pcs s)(a := c)"
    using assms(1) by (auto simp: solo_def)
  then obtain s'' where "reaches M s' s''" "(req s'', log s'') = t" "pcs s'' = (pcs s')(a := d)"
    using assms(2) by (auto simp: solo_def)
  with s' show ?thesis by (auto simp: solo_def intro: rtranclp_trans)
qed

lemma for_up_first:
  assumes "i < e" "for_up i e body t = Inr t'"
  obtains q k where "body i t = Inr (q, k)" "for_up (i + 1) e body (q, k) = Inr t'"
  using assms(2) for_up_step [OF assms(1), of body t] that by auto

section \<open>general_send\<close>

lemma send_one_solo:
  assumes "pcs s a = Sending p i e t" "i < e" "send_one M t i (req s, log s) = Inr (r, h)"
  shows "solo M a s (Sending p (i + 1) e t) (r, h)"
proof -
  obtain v q w where v: "fetch_add i (req s) = Inr (v, q)" "c_add v 1 = Inr w"
    "(if w = t then start_message M i (q, log s) else Inr (q, log s)) = Inr (r, h)"
    using assms(3) by (auto simp: send_one_def)
  note c = step.count [OF assms(1,2) v(1,2), of M]
  show ?thesis
  proof (cases "w = t")
    case True
    let ?s = "goto a (Firing p i e t) (s\<lparr>req := q, counted := insert (a = Background, p, i) (counted s)\<rparr>)"
    from True v(3) have "start_message M i (req ?s, log ?s) = Inr (r, h)" by simp
    from step.fire [OF _ this, of a p e t] have "step M ?s (goto a (Sending p (i + 1) e t) (?s\<lparr>req := r, log := h\<rparr>))" by simp
    with c True show ?thesis
      by (intro solo_step [where s = s and s' = ?s] solo_step [where s = ?s]) (auto intro!: solo_refl simp: solo_def)
  next
    case False
    with c v(3) show ?thesis by (auto simp: solo_def)
  qed
qed

lemma send_loop_solo:
  assumes "pcs s a = Sending p i e t" "for_up i e (send_one M t) (req s, log s) = Inr (r, h)"
  shows "solo M a s (after_send a p) (r, h)"
  using assms
proof (induction "nat (e - i)" arbitrary: s i)
  case 0
  then have "\<not> i < e" by simp
  from step.sent [OF 0(2) this, of M] show ?case by (rule solo_last) (use 0 in simp_all)
next
  case (Suc n)
  then have lt: "i < e" by simp
  obtain q k where q: "send_one M t i (req s, log s) = Inr (q, k)" "for_up (i + 1) e (send_one M t) (q, k) = Inr (r, h)"
    by (rule for_up_first [OF lt Suc.prems(2)])
  show ?case
  proof (rule solo_trans [OF send_one_solo [OF Suc.prems(1) lt q(1)]])
    fix s' :: conf assume s': "pcs s' = (pcs s)(a := Sending p (i + 1) e t)" "(req s', log s') = (q, k)"
    with Suc(2) q(2) show "solo M a s' (after_send a p) (r, h)" by (intro Suc(1)) auto
  qed
qed

text \<open>\<open>MPIP_Pready\<close> on its own, whether the setup is over or not.\<close>

lemma pready_solo:
  assumes u: "pcs s (User u) = Idle" "\<not> locked s" and p: "p \<notin> marked (req s)"
    and call: "MPIP_Pready M p (req s, log s) = Inr (v, r, h)"
  shows "solo M (User u) s Idle (r, h)"
proof -
  let ?s = "\<lambda>st. goto (User u) (Marked p) (s\<lparr>req := (req s)\<lparr>local_status := st\<rparr>\<rparr>)"
  obtain st where st: "side (req s) = SENDER \<and> state (req s) = ACTIVE" "blk_set (local_status (req s)) p True = Inr st"
    "(if threaded (req s) \<noteq> RUNNING then general_send M p (req (?s st), log s) else Inr (req (?s st), log s)) = Inr (r, h)"
    using call by (auto simp: MPIP_Pready_def Let_def split: if_splits)
  have l: "\<not> locked (?s st)" using u(2) by (simp add: locked_def)
  have "solo M (User u) (?s st) Idle (r, h)"
  proof (cases "threaded (req s) = RUNNING")
    case True
    then have "step M (?s st) (goto (User u) Idle (?s st))" using step.delay [of "?s st" u p M] l by simp
    then show ?thesis by (rule solo_last) (use st(3) True in simp_all)
  next
    case False
    then obtain i e t where g: "send_range p (req (?s st)) = Inr (i, e, t)"
      "for_up i e (send_one M t) (req (?s st), log s) = Inr (r, h)"
      using st(3) by (auto simp: general_send_def)
    let ?g = "goto (User u) (Sending p i e t) (?s st)"
    have go: "step M (?s st) ?g" using step.go [of "?s st" u p i e t M] l False g(1) by simp
    have "solo M (User u) ?g Idle (r, h)"
      using send_loop_solo [of ?g "User u" p i e t M r h] g(2) by simp
    then show ?thesis by (rule solo_step [OF go, rotated]) simp
  qed
  then show ?thesis by (intro solo_step [OF step.mark [OF u(1) st(1) p st(2)]]) auto
qed

section \<open>The background thread\<close>

abbreviation ready_body :: "mpi \<Rightarrow> int \<Rightarrow> mpip \<times> hist \<Rightarrow> (mpip \<times> hist) res" where
  "ready_body M \<equiv> \<lambda>i (r, h). bindE (blk_get (local_status r) i) (\<lambda>ready.
     if ready then general_send M i (r, h) else Inr (r, h))"

lemma scan_solo:
  assumes "pcs s Background = Scan k" "n = local_parts (req s)" "for_up k n (ready_body M) (req s, log s) = Inr (r, h)"
  shows "solo M Background s Done (r\<lparr>threaded := FINISHED\<rparr>, h)"
  using assms
proof (induction "nat (n - k)" arbitrary: s k)
  case 0
  then have k: "\<not> k < local_parts (req s)" by simp
  from step.finish [OF 0(2) k, of M] show ?case by (rule solo_last) (use 0 in simp_all)
next
  case (Suc m)
  then have lt: "k < n" "k < local_parts (req s)" by simp_all
  obtain q g where q: "ready_body M k (req s, log s) = Inr (q, g)" "for_up (k + 1) n (ready_body M) (q, g) = Inr (r, h)"
    by (rule for_up_first [OF lt(1) Suc.prems(3)])
  have "solo M Background s (Scan (k + 1)) (q, g) \<and> local_parts q = n"
  proof (cases "blk_get (local_status (req s)) k = Inr False")
    case True
    from step.skip [OF Suc.prems(1) lt(2) True, of M] have "solo M Background s (Scan (k + 1)) (q, g)"
      by (rule solo_last) (use q(1) True in simp_all)
    with q(1) True Suc.prems(2) show ?thesis by simp
  next
    case False
    with q(1) have f: "blk_get (local_status (req s)) k = Inr True" "general_send M k (req s, log s) = Inr (q, g)" by auto
    then obtain i e t where g: "send_range k (req s) = Inr (i, e, t)" "for_up i e (send_one M t) (req s, log s) = Inr (q, g)"
      by (auto simp: general_send_def)
    let ?g = "goto Background (Sending k i e t) s"
    have "solo M Background ?g (Scan (k + 1)) (q, g)"
      using send_loop_solo [of ?g Background k i e t M q g] g(2) by simp
    then have "solo M Background s (Scan (k + 1)) (q, g)"
      by (rule solo_step [OF step.send [OF Suc.prems(1) lt(2) f(1) g(1)], rotated]) simp
    moreover have "local_parts q = n" using general_send_marking [OF f(2)] Suc.prems(2) by (auto simp: marking_def)
    ultimately show ?thesis by blast
  qed
  then have first: "solo M Background s (Scan (k + 1)) (q, g)" and n: "local_parts q = n" by auto
  show ?case
  proof (rule solo_trans [OF first])
    fix s' :: conf assume s': "pcs s' = (pcs s)(Background := Scan (k + 1))" "(req s', log s') = (q, g)"
    with Suc(2) q(2) n show "solo M Background s' Done (r\<lparr>threaded := FINISHED\<rparr>, h)" by (intro Suc(1)) auto
  qed
qed

lemma thread_setup_keeps:
  assumes "bindE (sync_side M d (r, h)) (internal_setup M) = Inr (q, g)"
  shows "side q = side r \<and> state q = state r \<and> local_parts q = local_parts r"
proof -
  let ?P = "\<lambda>(q :: mpip, g :: hist). side q = side r \<and> state q = state r \<and> local_parts q = local_parts r"
  have one: "?P t'" if "?P t" "setup_one M mes e i t = Inr t'" for mes e i t t'
    using that by (cases t; cases t') (auto simp: setup_one_def Let_def)
  obtain b k where b: "sync_side M d (r, h) = Inr (b, k)" "internal_setup M (b, k) = Inr (q, g)"
    using assms by auto
  have "?P (b, k)" using b(1) by (auto simp: sync_side_def split: if_splits option.splits)
  moreover obtain mes e rq st l n where "for_up 0 n (setup_one M mes e) (b\<lparr>request := rq, internal_status := st\<rparr>, l) = Inr (q, g)"
    using b(2) by (auto simp: internal_setup_def Let_def)
  ultimately have "?P (q, g)" by (elim for_up_preserves) (use one in auto)
  then show ?thesis by simp
qed

lemma thread_solo:
  assumes t: "pcs s Background = Setup" "side (req s) = SENDER"
    and call: "threaded_sync_driver M (req s, log s) = Inr (r, h)"
  shows "solo M Background s Done (r, h)"
proof -
  obtain q g where q: "bindE (sync_side M (not_side (side (req s))) (req s, log s)) (internal_setup M) = Inr (q, g)"
    "thread_catch_up M (q, g) = Inr (r, h)"
    using call by (fastforce simp: threaded_sync_driver_def)
  note k = thread_setup_keeps [OF q(1)]
  obtain r0 where r0: "r = r0\<lparr>threaded := FINISHED\<rparr>"
    "if state q = ACTIVE then send_ready M (q, g) = Inr (r0, h) else (q, g) = (r0, h)"
    using q(2) k t(2) by (auto simp: thread_catch_up_def split: if_splits)
  let ?s = "goto Background Locking (s\<lparr>req := q, log := g\<rparr>)"
  let ?t = "goto Background (Scan (if state q = ACTIVE then 0 else local_parts q)) ?s"
  have s1: "step M s ?s" by (rule step.sync [OF t(1) q(1)])
  have s2: "step M ?s ?t" using step.acquire [of ?s M] k t(2) by (auto split: if_splits)
  have "for_up (if state q = ACTIVE then 0 else local_parts q) (local_parts q) (ready_body M) (q, g) = Inr (r0, h)"
    using r0(2) by (simp add: send_ready_def split: if_splits)
  then have "solo M Background ?t Done (r, h)"
    unfolding r0(1) by (intro scan_solo [where k = "if state q = ACTIVE then 0 else local_parts q" and n = "local_parts q"]) simp_all
  then have "solo M Background ?s Done (r, h)" by (rule solo_step [OF s2, rotated]) simp
  then show ?thesis by (rule solo_step [OF s1, rotated]) simp
qed

end
