(* ===== verification/Rounds.thy ===== *)
theory Rounds
  imports Uninterrupted
begin

text \<open>
  Sequences of rounds, each of them an arbitrary schedule of user threads between \<open>MPIP_Start\<close> and
  \<open>MPIP_Wait\<close>: what a round leaves is a request the next round can start from.
\<close>

section \<open>What no step changes\<close>

lemma start_message_req: "start_message M i (r, h) = Inr (r', h') \<Longrightarrow> r' = r"
  by (auto simp: start_message_def)

lemma fetch_add_req: "fetch_add i r = Inr (v, r') \<Longrightarrow> \<exists>st. r' = r\<lparr>internal_status := st\<rparr>"
  by (auto simp: fetch_add_def)

lemma step_same_messages:
  assumes "step M s s'" "pcs s Background = Done"
  shows "same_messages (req s) (req s') \<and> state (req s') = state (req s) \<and> pcs s' Background = Done"
  using assms by cases (auto simp: same_messages_def dest!: start_message_req fetch_add_req split: if_splits)

lemma reaches_same_messages:
  assumes "reaches M s s'" "pcs s Background = Done"
  shows "same_messages (req s) (req s') \<and> state (req s') = state (req s) \<and> pcs s' Background = Done"
  using assms(1)
proof (induction rule: rtranclp_induct)
  case (step t u)
  with step_same_messages [OF step.hyps(2)] show ?case by (auto intro: same_messages_trans)
qed (simp add: assms(2))

section \<open>A round from the outside\<close>

text \<open>A sender between two rounds.\<close>

definition at_rest :: "mpip \<Rightarrow> bool" where
  "at_rest r \<longleftrightarrow> setup_ok r \<and> aligned (local_parts r) (parts r) \<and> 2 * local_parts r \<le> INT_MAX
     \<and> side r = SENDER \<and> threaded r \<noteq> RUNNING"

lemma start_ready:
  assumes r: "at_rest r" and M: "mpi_succeeds M"
  obtains r' where "MPIP_Start M (r, h) = Inr (MPI_SUCCESS, r', h)" "ready_sender r'"
    "sender_at h {} (r', h)" "same_messages r r'"
proof -
  have ok: "setup_ok r" "threaded r \<noteq> RUNNING" "side r = SENDER" "aligned (local_parts r) (parts r)"
    using r by (auto simp: at_rest_def)
  obtain r' where r': "MPIP_Start M (r, h) = Inr (MPI_SUCCESS, r', h)" "sender_at h {} (r', h)" "same_messages r r'"
    using start_sender [OF ok(1,4,3,2) M] by blast
  moreover have "internal_status r' = filled (replicate (nat (parts r')) 0)"
    using MPIP_Start_eq [OF ok(1,2) M, of h] r'(1) by auto
  ultimately have "ready_sender r'"
    using sender_atD [OF r'(2)] r by (simp add: ready_sender_def at_rest_def same_messages_def)
  with r' that show thesis by blast
qed

lemma quiescent_after_round:
  assumes r: "ready_sender r" and run: "reaches M (conf_of r h Done) s" and q: "quiescent s"
    and M: "mpi_succeeds M" "fresh_handles M"
  shows "at_rest (req s)" "same_messages r (req s)"
    "0 \<le> i \<Longrightarrow> i < parts r \<Longrightarrow> starts (log s) (handles r ! nat i)
       = starts h (handles r ! nat i) + (if deps (local_parts r) (parts r) i \<subseteq> marked (req s) then 1 else 0)"
proof -
  have g: "good M h s" by (rule good_reaches [OF run good_ready [OF r] M])
  have bg: "pcs s Background = Done" using q by (simp add: quiescent_def)
  note G = goodD [OF g]
  show sm: "same_messages r (req s)" using reaches_same_messages [OF run] by (simp add: conf_of_def)
  have b: "base_ok s" using g by (simp add: good_def inv_def)
  then show "at_rest (req s)" using G(1,2) bg by (simp add: at_rest_def base_ok_def)
  show "starts (log s) (handles r ! nat i)
      = starts h (handles r ! nat i) + (if deps (local_parts r) (parts r) i \<subseteq> marked (req s) then 1 else 0)"
    if i: "0 \<le> i" "i < parts r"
  proof (cases "deps (local_parts r) (parts r) i \<subseteq> marked (req s)")
    case True
    with good_quiescent [OF g q, of i] i sm show ?thesis by (simp add: same_messages_def)
  next
    case False
    have "\<forall>p i. (True, p, i) \<notin> counted s" using reaches_users_only [OF run] by (simp add: conf_of_def)
    with good_safe_users [OF g, of i] False i sm bg show ?thesis by (auto simp: same_messages_def)
  qed
qed

lemma wait_at_rest:
  assumes "at_rest r" "mpi_succeeds M" "waitall_ret M h (handles r)"
  shows "MPIP_Wait M (r, h) = Inr (MPI_SUCCESS, r\<lparr>state := INACTIVE\<rparr>, CWaitall (handles r) # h)"
    "at_rest (r\<lparr>state := INACTIVE\<rparr>)" "same_messages r (r\<lparr>state := INACTIVE\<rparr>)"
  using MPIP_Wait_eq [of r M h] assms by (auto simp: at_rest_def setup_ok_def same_messages_def)

text \<open>Any partitions can be marked, for example by one thread.\<close>

lemma pready_list_solo:
  assumes "sender_at h0 R (req s, log s)" "pcs s (User u) = Idle" "\<not> locked s"
    and "distinct ps" "set ps \<subseteq> {0..<local_parts (req s)}" "set ps \<inter> R = {}" and M: "mpi_succeeds M"
  shows "\<exists>r h. solo M (User u) s Idle (r, h) \<and> marked r = R \<union> set ps"
  using assms(1-6)
proof (induction ps arbitrary: R s)
  case Nil
  then show ?case using solo_refl [of s "User u" Idle M] by (auto simp: sender_at_def)
next
  case (Cons p ps)
  obtain r h where p: "MPIP_Pready M p (req s, log s) = Inr (MPI_SUCCESS, r, h)"
    "sender_at h0 (insert p R) (r, h)" "same_messages (req s) r"
    using pready_sender [OF Cons.prems(1) _ _ _ M, of p] Cons.prems(5,6) by auto
  have "p \<notin> marked (req s)" using sender_atD(3) [OF Cons.prems(1)] Cons.prems(6) by simp
  from pready_solo [OF Cons.prems(2,3) this p(1)]
  obtain t where t: "reaches M s t" "(req t, log t) = (r, h)" "pcs t = pcs s"
    using Cons.prems(2) by (auto simp: solo_def fun_upd_idem)
  have "\<exists>q k. solo M (User u) t Idle (q, k) \<and> marked q = insert p R \<union> set ps"
    using t p(2,3) Cons.prems by (intro Cons.IH) (auto simp: same_messages_def locked_def)
  then obtain q k where q: "solo M (User u) t Idle (q, k)" "marked q = R \<union> set (p # ps)" by auto
  have "solo M (User u) s Idle (q, k)"
    using q(1) t(1,3) by (auto simp: solo_def intro: rtranclp_trans)
  with q(2) show ?case by blast
qed

lemma round_exists:
  assumes r: "at_rest r" and R: "R \<subseteq> {0..<local_parts r}" and M: "mpi_succeeds M"
  shows "\<exists>r1 s. MPIP_Start M (r, h) = Inr (MPI_SUCCESS, r1, h) \<and> ready_sender r1
    \<and> reaches M (conf_of r1 h Done) s \<and> quiescent s \<and> marked (req s) = R"
proof -
  obtain r1 where r1: "MPIP_Start M (r, h) = Inr (MPI_SUCCESS, r1, h)" "ready_sender r1"
    "sender_at h {} (r1, h)" "same_messages r r1" using start_ready [OF r M] .
  let ?s = "conf_of r1 h Done"
  have "finite R" using R by (rule finite_subset) simp
  then obtain ps where ps: "set ps = R" "distinct ps" using finite_distinct_list by blast
  have "\<exists>q k. solo M (User 0) ?s Idle (q, k) \<and> marked q = {} \<union> set ps"
    using r1(3,4) ps R by (intro pready_list_solo [OF _ _ _ ps(2) _ _ M])
      (auto simp: conf_of_def locked_def same_messages_def)
  then obtain s where "reaches M ?s s" "marked (req s) = R" "pcs s = (pcs ?s)(User 0 := Idle)"
    using ps(1) by (auto simp: solo_def)
  moreover from this(3) have "quiescent s" by (simp add: quiescent_def conf_of_def)
  ultimately show ?thesis using r1 by blast
qed

section \<open>Sequences of rounds\<close>

text \<open>
  \<open>threaded_rounds M Rs\<close>: rounds one after the other, in which the partitions \<open>Rs\<close> have been marked,
  each by threads in some schedule between start and wait.
\<close>

inductive threaded_rounds :: "mpi \<Rightarrow> int set list \<Rightarrow> mpip \<times> hist \<Rightarrow> mpip \<times> hist \<Rightarrow> bool" for M :: mpi where
  none: "threaded_rounds M [] t t"
| more: "MPIP_Start M (r, h) = Inr (v, r1, h1) \<Longrightarrow> reaches M (conf_of r1 h1 Done) s \<Longrightarrow> quiescent s \<Longrightarrow>
    MPIP_Wait M (req s, log s) = Inr (w, u) \<Longrightarrow> threaded_rounds M Rs u t \<Longrightarrow>
    threaded_rounds M (marked (req s) # Rs) (r, h) t"

lemma threaded_rounds_exist:
  assumes "at_rest r" "\<forall>R\<in>set Rs. R \<subseteq> {0..<local_parts r}"
    and M: "mpi_succeeds M" "fresh_handles M" "\<And>h xs. waitall_ret M h xs"
  shows "\<exists>t. threaded_rounds M Rs (r, h) t"
  using assms(1,2)
proof (induction Rs arbitrary: r h)
  case Nil
  show ?case using threaded_rounds.none by blast
next
  case (Cons R Rs)
  obtain r1 s where s: "MPIP_Start M (r, h) = Inr (MPI_SUCCESS, r1, h)" "ready_sender r1"
    "reaches M (conf_of r1 h Done) s" "quiescent s" "marked (req s) = R"
    using round_exists [OF Cons.prems(1) _ M(1), of R h] Cons.prems(2) by auto
  obtain r1' where "MPIP_Start M (r, h) = Inr (MPI_SUCCESS, r1', h)" "same_messages r r1'"
    using start_ready [OF Cons.prems(1) M(1), of h] by blast
  with s(1) have sm: "same_messages r r1" by simp
  note Q = quiescent_after_round [OF s(2-4) M(1,2)]
  note W = wait_at_rest [OF Q(1) M(1,3)]
  have "\<forall>R\<in>set Rs. R \<subseteq> {0..<local_parts ((req s)\<lparr>state := INACTIVE\<rparr>)}"
    using Cons.prems(2) sm Q(2) by (simp add: same_messages_def)
  then obtain t where "threaded_rounds M Rs ((req s)\<lparr>state := INACTIVE\<rparr>, CWaitall (handles (req s)) # log s) t"
    using Cons.IH [OF W(2)] by blast
  from threaded_rounds.more [OF s(1,3,4) W(1) this] s(5) show ?case by blast
qed

lemma threaded_rounds_count:
  assumes "threaded_rounds M Rs t t'" "at_rest (fst t)" "mpi_succeeds M" "fresh_handles M"
  shows "at_rest (fst t') \<and> same_messages (fst t) (fst t')
    \<and> (\<forall>i. 0 \<le> i \<and> i < parts (fst t) \<longrightarrow> starts (snd t') (handles (fst t) ! nat i)
        = starts (snd t) (handles (fst t) ! nat i)
          + length (filter (\<lambda>R. deps (local_parts (fst t)) (parts (fst t)) i \<subseteq> R) Rs))"
  using assms(1,2)
proof (induction rule: threaded_rounds.induct)
  case (more r h v r1 h1 s w u Rs t)
  obtain r2 where "MPIP_Start M (r, h) = Inr (MPI_SUCCESS, r2, h)" "ready_sender r2" "same_messages r r2"
    using start_ready [OF _ assms(3), of r h] more.prems by auto
  with more.hyps(1) have st: "ready_sender r1" "same_messages r r1" "h1 = h" by auto
  note Q = quiescent_after_round [OF st(1) more.hyps(2,3) assms(3,4)]
  have "waitall_ret M (log s) (handles (req s))"
    using MPIP_Wait_blocks [of "req s" M "log s"] Q(1) more.hyps(4) by (auto simp: at_rest_def)
  note W = wait_at_rest [OF Q(1) assms(3) this]
  have u: "u = ((req s)\<lparr>state := INACTIVE\<rparr>, CWaitall (handles (req s)) # log s)" using W(1) more.hyps(4) by simp
  have IH: "at_rest (fst t) \<and> same_messages (fst u) (fst t) \<and> (\<forall>i. 0 \<le> i \<and> i < parts (fst u) \<longrightarrow> starts (snd t) (handles (fst u) ! nat i)
        = starts (snd u) (handles (fst u) ! nat i)
          + length (filter (\<lambda>R. deps (local_parts (fst u)) (parts (fst u)) i \<subseteq> R) Rs))"
    using more.IH W(2) u by simp
  have sm: "same_messages r (req s)" using same_messages_trans [OF st(2) Q(2)] .
  then have "same_messages r (fst t)" using IH W(3) u by (auto simp: same_messages_def)
  moreover have "starts (snd t) (handles r ! nat i) = starts h (handles r ! nat i)
      + length (filter (\<lambda>R. deps (local_parts r) (parts r) i \<subseteq> R) (marked (req s) # Rs))"
    if i: "0 \<le> i" "i < parts r" for i
  proof -
    have "starts (snd t) (handles r ! nat i) = starts (log s) (handles r ! nat i)
        + length (filter (\<lambda>R. deps (local_parts r) (parts r) i \<subseteq> R) Rs)"
      using IH u sm i by (simp add: same_messages_def)
    with Q(3) [of i] st(2,3) i show ?thesis by (simp add: same_messages_def)
  qed
  ultimately show ?case using IH by simp
qed simp

end
