(* ===== verification/Sender_Start.thy ===== *)
theory Sender_Start
  imports Lifecycle Examples
begin

text \<open>
  The first start of a sender whose peer decides the partitioning, in every interleaving with its
  background thread (the steps of \<open>Lifecycle\<close>). Nobody initialises the ready flags between the init
  function and a start that finds the thread running, so the catch-up of the thread after such a
  start reads an uninitialised flag, unless the partitions are marked before it comes to them.
\<close>

section \<open>The invariant of a sender\<close>

text \<open>What a start leaves that has reset the request.\<close>

definition reset_done :: "mpip \<Rightarrow> bool" where
  "reset_done r \<longleftrightarrow> flags_set r \<and> marked r = {} \<and> internal_status r = filled (replicate (nat (parts r)) 0)"

definition send_inv :: "mpi \<Rightarrow> hist \<Rightarrow> int \<Rightarrow> life \<Rightarrow> bool" where
  "send_inv M h0 n s \<longleftrightarrow>
     side (lreq s) = SENDER
     \<and> (state (lreq s) = ACTIVE \<longleftrightarrow> luser s \<noteq> InInit \<and> luser s \<noteq> Inited)
     \<and> (luser s \<noteq> InInit \<and> lthread s \<noteq> Ended \<longrightarrow> threaded (lreq s) = RUNNING)
     \<and> (lthread s = Ended \<longrightarrow> threaded (lreq s) = FINISHED \<or> luser s \<noteq> InInit \<and> threaded (lreq s) = RUNNING)
     \<and> (\<forall>st. luser s = Starting st \<longrightarrow> st = RUNNING \<and> (lthread s = Ended \<longrightarrow> threaded (lreq s) = RUNNING)
          \<or> st = FINISHED \<and> lthread s = Ended \<and> threaded (lreq s) = FINISHED)
     \<and> (lthread s = InLock \<longrightarrow> state (lreq s) = INACTIVE)
     \<and> (if luser s = Started \<and> lthread s = Ended \<and> threaded (lreq s) = FINISHED then reset_done (lreq s)
        else local_status (lreq s) = blk_malloc (local_parts (lreq s)))
     \<and> (if lthread s = ToSetup then awaits M h0 n (lreq s) \<and> llog s = h0
        else setup_ok (lreq s) \<and> parts (lreq s) = n \<and> (\<forall>x. starts (llog s) x = starts h0 x))"

lemma send_invD:
  assumes "send_inv M h0 n s"
  shows "side (lreq s) = SENDER" "state (lreq s) = ACTIVE \<longleftrightarrow> luser s \<noteq> InInit \<and> luser s \<noteq> Inited"
    "luser s \<noteq> InInit \<Longrightarrow> lthread s \<noteq> Ended \<Longrightarrow> threaded (lreq s) = RUNNING"
    "luser s = Starting st \<Longrightarrow> st = RUNNING \<and> (lthread s = Ended \<longrightarrow> threaded (lreq s) = RUNNING)
       \<or> st = FINISHED \<and> lthread s = Ended \<and> threaded (lreq s) = FINISHED"
    "lthread s = InLock \<Longrightarrow> state (lreq s) = INACTIVE"
    "lthread s \<noteq> Ended \<Longrightarrow> local_status (lreq s) = blk_malloc (local_parts (lreq s))"
    "lthread s = ToSetup \<Longrightarrow> awaits M h0 n (lreq s) \<and> llog s = h0"
    "lthread s \<noteq> ToSetup \<Longrightarrow> setup_ok (lreq s) \<and> parts (lreq s) = n \<and> (\<forall>x. starts (llog s) x = starts h0 x)"
    "lthread s = Ended \<Longrightarrow> threaded (lreq s) = FINISHED \<or> luser s \<noteq> InInit \<and> threaded (lreq s) = RUNNING"
  using assms by (auto simp: send_inv_def split: if_splits)

lemma send_inv_start:
  assumes "awaits M h n r" "side r = SENDER" "state r = INACTIVE" "local_status r = blk_malloc (local_parts r)"
  shows "send_inv M h n (spawned r h)"
  using assms by (simp add: send_inv_def spawned_def pthread_create_def awaits_def prepared_def)

text \<open>The catch-up of a sender that has not been started does nothing; of one that has, it fails.\<close>

lemma catch_up_sender:
  assumes "side r = SENDER" "local_status r = blk_malloc (local_parts r)" "0 < local_parts r"
  shows "catch_up M (r, h) = (if state r = ACTIVE then Inl (Undefined UninitRead) else Inr (r, h))"
  using assms by (simp add: catch_up_def send_ready_def for_up_step blk_malloc_def)

lemma start_rest_sender:
  assumes "setup_ok r" "side r = SENDER" "state r = ACTIVE" "threaded r = FINISHED" "mpi_succeeds M"
  shows "\<exists>q. start_rest M FINISHED (r, h) = Inr (MPI_SUCCESS, q, h) \<and> setup_ok q \<and> reset_done q
    \<and> side q = SENDER \<and> state q = ACTIVE \<and> threaded q = FINISHED \<and> parts q = parts r
    \<and> local_parts q = local_parts r \<and> sync_thread q = sync_thread r"
proof -
  let ?q = "r\<lparr>state := ACTIVE, internal_status := filled (replicate (nat (parts r)) 0),
      local_status := filled (replicate (nat (local_parts r)) False)\<rparr>"
  have "r\<lparr>state := ACTIVE\<rparr> = r" using assms(3) by simp
  then have "start_rest M FINISHED (r, h) = MPIP_Start M (r, h)"
    using MPIP_Start_split [of M r h] setup_okD(11) [OF assms(1)] assms(4) by simp
  then have "start_rest M FINISHED (r, h) = Inr (MPI_SUCCESS, ?q, h)"
    using MPIP_Start_eq [OF assms(1) _ assms(5), of h] assms(2,4) by simp
  moreover have "setup_ok ?q" using assms(1) by (simp add: setup_ok_def)
  moreover have "flags_set ?q \<and> marked ?q = {}" using setup_okD(1) [OF assms(1)] by (intro flags_set_replicate) auto
  ultimately show ?thesis using assms by (simp add: reset_done_def)
qed

lemma send_inv_step:
  assumes step: "life_step M s s'" and I: "send_inv M h0 n s" and M: "mpi_succeeds M" "fresh_handles M"
  shows "send_inv M h0 n s'"
  using step
proof cases
  case store
  then show ?thesis using I
    by (auto simp: send_inv_def set_running_def awaits_def prepared_def setup_ok_def reset_done_def)
next
  case read_status
  then show ?thesis using I
    by (auto simp: send_inv_def awaits_def prepared_def setup_ok_def reset_done_def)
next
  case (start st v r h)
  note D = send_invD [OF I]
  show ?thesis
  proof (cases "st = RUNNING")
    case True
    with start have "r = lreq s" "h = llog s" by auto
    with True start I show ?thesis by (auto simp: send_inv_def split: if_splits)
  next
    case False
    with D(4) start have st: "st = FINISHED" "lthread s = Ended" "threaded (lreq s) = FINISHED" by auto
    then have ok: "setup_ok (lreq s)" "state (lreq s) = ACTIVE" using D(2,8) start by auto
    from start_rest_sender [OF ok(1) D(1) ok(2) st(3) M(1), of "llog s"] start(3) st(1)
    have "setup_ok r" "reset_done r" "side r = SENDER" "state r = ACTIVE" "threaded r = FINISHED"
      "parts r = parts (lreq s)" "h = llog s" by auto
    then show ?thesis using st D(8) start by (simp add: send_inv_def)
  qed
next
  case (sync r h)
  note D = send_invD [OF I]
  obtain xs sz where r: "r = with_messages n sz xs (lreq s)" "h = thread_setup_log M (lreq s) n sz xs h0" "setup_ok r"
    using life_setup_eq [of M h0 n "lreq s"] D(7) sync M by auto
  then show ?thesis using sync D I by (auto simp: send_inv_def with_messages_def)
next
  case (catch r h)
  note D = send_invD [OF I]
  have "setup_ok (lreq s)" "local_status (lreq s) = blk_malloc (local_parts (lreq s))" using D(6,8) catch by auto
  then have "state (lreq s) = INACTIVE" "r = lreq s" "h = llog s"
    using catch_up_sender [OF D(1) _ setup_okD(1), of M "llog s"] catch(3)
    by (auto split: if_splits intro: activation.exhaust [of "state (lreq s)"])
  then show ?thesis using catch D I by (auto simp: send_inv_def)
next
  case finish
  note D = send_invD [OF I]
  show ?thesis using finish D I
    by (cases "luser s") (auto simp: send_inv_def setup_ok_def)
qed

lemma send_inv_reaches:
  assumes "lives M s s'" "send_inv M h n s" "mpi_succeeds M" "fresh_handles M"
  shows "send_inv M h n s'"
  using assms(1,2) by (induction rule: rtranclp_induct) (auto intro: send_inv_step [OF _ _ assms(3,4)])

section \<open>A start that comes too early\<close>

definition too_early :: "life \<Rightarrow> bool" where
  "too_early s \<longleftrightarrow> luser s \<in> {Starting RUNNING, Started} \<and> lthread s \<in> {ToSetup, ToLock}"

lemma too_early_step:
  assumes step: "life_step M s s'" and I: "send_inv M h0 n s" and e: "too_early s"
  shows "too_early s'"
proof -
  note D = send_invD [OF I]
  have a: "state (lreq s) = ACTIVE" using D(2) e by (auto simp: too_early_def)
  have "catch_up M (lreq s, llog s) \<noteq> Inr (r, h)" if "lthread s = ToLock" for r h
    using catch_up_sender [OF D(1) D(6) setup_okD(1), of M "llog s"] D(8) that a by simp
  with step e show ?thesis by (auto elim!: life_stepE simp: too_early_def)
qed

lemma too_early_reaches:
  assumes "lives M s s'" "send_inv M h0 n s" "too_early s" "mpi_succeeds M" "fresh_handles M"
  shows "too_early s'"
  using assms(1-3)
proof (induction rule: rtranclp_induct)
  case (step t u)
  with too_early_step [OF step.hyps(2)] send_inv_reaches [OF step.hyps(1) _ assms(4,5)] show ?case by blast
qed

lemma too_early_fails:
  assumes I: "send_inv M h0 n s" and e: "too_early s" and M: "mpi_succeeds M" "fresh_handles M"
  shows "\<exists>t. lives M s t \<and> lthread t = ToLock \<and> state (lreq t) = ACTIVE"
proof (cases "lthread s = ToLock")
  case True
  then show ?thesis using e send_invD(2) [OF I] by (intro exI [of _ s]) (auto simp: too_early_def)
next
  case False
  then have t: "lthread s = ToSetup" using e by (auto simp: too_early_def)
  then obtain xs sz where b: "bindE (sync_side M (not_side (side (lreq s))) (lreq s, llog s)) (internal_setup M)
      = Inr (with_messages n sz xs (lreq s), thread_setup_log M (lreq s) n sz xs h0)"
    using life_setup_eq [of M h0 n "lreq s"] send_invD(7) [OF I] M by fastforce
  have "state (lreq s) = ACTIVE" using e send_invD(2) [OF I] by (auto simp: too_early_def)
  then show ?thesis
    using life_step.sync [OF t b] by (intro exI conjI) (rule r_into_rtranclp, assumption, simp_all add: with_messages_def)
qed

text \<open>Otherwise some order of the two threads lets both finish: the thread first, then the user.\<close>

lemma not_too_early_progress:
  assumes I: "send_inv M h0 n s" and e: "\<not> too_early s" and d: "\<not> both_done s"
    and M: "mpi_succeeds M" "fresh_handles M"
  shows "\<exists>s'. life_step M s s' \<and> \<not> too_early s'"
proof -
  note D = send_invD [OF I]
  have u: "luser s \<in> {InInit, Inited}" if "lthread s \<in> {ToSetup, ToLock}"
    using that e D(4) by (cases "luser s") (auto simp: too_early_def)
  show ?thesis
  proof (cases "lthread s")
    case ToSetup
    then obtain r h where "bindE (sync_side M (not_side (side (lreq s))) (lreq s, llog s)) (internal_setup M) = Inr (r, h)"
      using life_setup_eq [of M h0 n "lreq s"] D(7) M by fastforce
    from life_step.sync [OF ToSetup this] u ToSetup show ?thesis by (intro exI conjI) (assumption, auto simp: too_early_def)
  next
    case ToLock
    then have ok: "setup_ok (lreq s)" using D(8) by simp
    have "state (lreq s) \<noteq> ACTIVE" using u D(2) ToLock by auto
    then have "catch_up M (lreq s, llog s) = Inr (lreq s, llog s)"
      using catch_up_sender [OF D(1) D(6) setup_okD(1) [OF ok], of M "llog s"] ToLock by simp
    from life_step.catch [OF ToLock this] show ?thesis by (intro exI conjI) (assumption, simp add: too_early_def)
  next
    case InLock
    from life_step.finish [OF this] show ?thesis by (intro exI conjI) (assumption, simp add: too_early_def)
  next
    case Ended
    have "\<exists>s'. life_step M s s' \<and> lthread s' = Ended"
    proof (cases "luser s")
      case InInit
      from life_step.store [OF this] Ended show ?thesis by (intro exI conjI) (assumption, simp)
    next
      case Inited
      show ?thesis by (intro exI conjI, rule life_step.read_status [OF Inited]) (simp_all add: Ended)
    next
      case (Starting st)
      have ok: "setup_ok (lreq s)" "state (lreq s) = ACTIVE" using D(2,8) Ended Starting by auto
      consider "st = RUNNING" | "st = FINISHED" "threaded (lreq s) = FINISHED" using D(4) [OF Starting] by auto
      then obtain r h where "start_rest M st (lreq s, llog s) = Inr (MPI_SUCCESS, r, h)"
        using start_rest_sender [OF ok(1) D(1) ok(2) _ M(1), of "llog s"] by cases auto
      from life_step.start [OF Starting this] Ended show ?thesis by (intro exI conjI) (assumption, simp)
    qed (use d Ended in \<open>simp add: both_done_def\<close>)
    then show ?thesis by (auto simp: too_early_def)
  qed
qed

definition in_time :: "mpi \<Rightarrow> hist \<Rightarrow> int \<Rightarrow> life \<Rightarrow> bool" where
  "in_time M h0 n s \<longleftrightarrow> send_inv M h0 n s \<and> \<not> too_early s \<and> mpi_succeeds M \<and> fresh_handles M"

interpretation on_time: measured_steps "\<lambda>s s'. life_step M s s' \<and> \<not> too_early s'" "in_time M h0 n" both_done
    "\<lambda>s. user_steps (luser s) + thread_steps (lthread s)" for M h0 n
proof
  fix s s' assume s: "life_step M s s' \<and> \<not> too_early s'" "in_time M h0 n s"
  then show "in_time M h0 n s'" by (auto simp: in_time_def intro: send_inv_step)
  show "user_steps (luser s') + thread_steps (lthread s') < user_steps (luser s) + thread_steps (lthread s)"
    using life_steps_left [of M s s'] s by simp
qed (auto simp: in_time_def intro: not_too_early_progress)

lemma not_too_early_ends:
  assumes "send_inv M h0 n s" "\<not> too_early s" "mpi_succeeds M" "fresh_handles M"
  shows "\<exists>t. lives M s t \<and> both_done t"
proof -
  obtain t where "(\<lambda>s s'. life_step M s s' \<and> \<not> too_early s')\<^sup>*\<^sup>* s t" "both_done t"
    using on_time.run_to_end [of M h0 n s] assms by (auto simp: in_time_def)
  moreover have "(\<lambda>s s'. life_step M s s' \<and> \<not> too_early s')\<^sup>*\<^sup>* \<le> lives M" by (rule rtranclp_mono) auto
  ultimately show ?thesis by blast
qed

lemma both_done_sender:
  assumes "send_inv M h0 n s" "both_done s"
  shows "(threaded (lreq s) = FINISHED \<and> reset_done (lreq s) \<or> threaded (lreq s) = RUNNING)
    \<and> setup_ok (lreq s) \<and> state (lreq s) = ACTIVE \<and> parts (lreq s) = n \<and> (\<forall>x. starts (llog s) x = starts h0 x)"
  using assms send_invD [OF assms(1)] by (auto simp: send_inv_def both_done_def)

text \<open>
  The first start of a sender whose background thread has just been created, in every
  interleaving of the two threads while no partition is marked. Once \<open>MPIP_Start\<close> has read \<open>RUNNING\<close>
  before the catch-up of the thread, the thread can only go on after a partition has been marked: in
  its scan of the ready flags it reads an uninitialised one (\<open>First_Round\<close> has the runs in which
  partitions are marked meanwhile). Without marks a run can end if and only if this has not happened; at its end the request is active and set up, nothing has been started, and either its
  flags and counters are reset or the status is \<open>RUNNING\<close> for ever.
\<close>

lemma sender_start_in_any_order:
  assumes r: "awaits M h n r" "side r = SENDER" "state r = INACTIVE" "local_status r = blk_malloc (local_parts r)"
    and M: "mpi_succeeds M" "fresh_handles M" and run: "lives M (spawned r h) s"
  shows "((\<exists>t. lives M s t \<and> both_done t) \<longleftrightarrow> \<not> too_early s)
    \<and> (too_early s \<longrightarrow> (\<exists>t. lives M s t \<and> lthread t = ToLock \<and> catch_up M (lreq t, llog t) = Inl (Undefined UninitRead)))
    \<and> (\<forall>t. lives M s t \<longrightarrow> both_done t \<longrightarrow>
        (threaded (lreq t) = FINISHED \<and> reset_done (lreq t) \<or> threaded (lreq t) = RUNNING)
        \<and> setup_ok (lreq t) \<and> state (lreq t) = ACTIVE \<and> parts (lreq t) = n \<and> (\<forall>x. starts (llog t) x = starts h x))"
proof (intro conjI iffI impI allI)
  have I: "send_inv M h n s" by (rule send_inv_reaches [OF run send_inv_start [OF r] M])
  show "\<not> too_early s" if ends: "\<exists>t. lives M s t \<and> both_done t"
  proof
    assume e: "too_early s"
    obtain t where t: "lives M s t" "both_done t" using ends by blast
    from too_early_reaches [OF t(1) I e M] t(2) show False by (simp add: too_early_def both_done_def)
  qed
  show "\<exists>t. lives M s t \<and> both_done t" if "\<not> too_early s" by (rule not_too_early_ends [OF I that M])
  show "\<exists>t. lives M s t \<and> lthread t = ToLock \<and> catch_up M (lreq t, llog t) = Inl (Undefined UninitRead)" if e: "too_early s"
  proof -
    obtain t where t: "lives M s t" "lthread t = ToLock" "state (lreq t) = ACTIVE"
      using too_early_fails [OF I e M] by blast
    note D = send_invD [OF send_inv_reaches [OF t(1) I M]]
    show ?thesis using t catch_up_sender [OF D(1) D(6) setup_okD(1), of M "llog t"] D(8) by auto
  qed
  fix t assume t: "lives M s t" "both_done t"
  note B = both_done_sender [OF send_inv_reaches [OF t(1) I M] t(2)]
  show "threaded (lreq t) = FINISHED \<and> reset_done (lreq t) \<or> threaded (lreq t) = RUNNING" "setup_ok (lreq t)"
    "state (lreq t) = ACTIVE" "parts (lreq t) = n" "starts (llog t) x = starts h x" for x using B by auto
qed

text \<open>The user's start takes its two steps before the thread takes any.\<close>

lemma sender_start_in_any_order_witness:
  "\<exists>s. lives (mpi_answers 2 1) (spawned ((demo_plan SENDER 4 1 4 7)\<lparr>state := INACTIVE, local_status := blk_malloc 4\<rparr>) []) s
     \<and> luser s = Starting RUNNING
     \<and> (\<exists>t. lives (mpi_answers 2 1) s t \<and> catch_up (mpi_answers 2 1) (lreq t, llog t) = Inl (Undefined UninitRead))"
proof -
  let ?r = "(demo_plan SENDER 4 1 4 7)\<lparr>state := INACTIVE, local_status := blk_malloc 4\<rparr>" and ?M = "mpi_answers 2 1"
  let ?i = "spawned ?r []"
  let ?j = "?i\<lparr>lreq := set_running (lreq ?i), luser := Inited\<rparr>"
  let ?s = "?j\<lparr>lreq := (lreq ?j)\<lparr>state := ACTIVE\<rparr>, luser := Starting (threaded (lreq ?j))\<rparr>"
  have m: "the_meta ?r = demo_meta\<lparr>tag := 7\<rparr>" by (simp add: demo_plan_def)
  have "prepared ?r" by (simp add: demo_plan_def demo_def prepared_def blk_malloc_def)
  moreover have "fits ?M (the_meta ?r) 2 1" unfolding m by (rule demo_plan_fits) simp_all
  ultimately have a: "awaits ?M [] 2 ?r" unfolding awaits_def by fastforce
  have l: "local_status ?r = blk_malloc (local_parts ?r)" "side ?r = SENDER" "state ?r = INACTIVE"
    by (simp_all add: demo_plan_def)
  have s: "lives ?M ?i ?s"
    using life_step.store [of ?i ?M] life_step.read_status [of ?j ?M]
    by (intro converse_rtranclp_into_rtranclp [of _ ?i ?j] r_into_rtranclp) (simp_all add: spawned_def)
  have "luser ?s = Starting RUNNING" "too_early ?s"
    by (simp_all add: spawned_def set_running_def pthread_create_def demo_plan_def too_early_def)
  with sender_start_in_any_order [OF a l(2,3,1) mpi_run_succeeds mpi_run_fresh s] s show ?thesis by blast
qed

end
