(* ===== verification/First_Round.thy ===== *)
theory First_Round
  imports Cleared_Flags Rounds Sender_Start
begin

text \<open>
  The first round of a sender whose peer decides the partitioning, from \<open>pthread_create\<close> on: the
  init function and \<open>MPIP_Start\<close> interleaved with the background thread (the steps of \<open>Lifecycle\<close>),
  then the \<open>MPIP_Pready\<close> calls of any threads interleaved with what is left of the background
  thread (the steps of \<open>Concurrency\<close>).
\<close>

section \<open>From the start to the round\<close>

text \<open>Where the background thread is, in the terms of \<open>Concurrency\<close>.\<close>

fun thread_at :: "int \<Rightarrow> thread_pc \<Rightarrow> pc" where
  "thread_at lp ToSetup = Setup"
| "thread_at lp ToLock = Locking"
| "thread_at lp InLock = Scan lp"
| "thread_at lp Ended = Done"

definition round_of :: "life \<Rightarrow> conf" where
  "round_of s = conf_of (lreq s) (llog s) (thread_at (local_parts (lreq s)) (lthread s))"

text \<open>What the steps before the round keep beside \<open>send_inv\<close>.\<close>

definition start_kept :: "int \<Rightarrow> life \<Rightarrow> bool" where
  "start_kept lp s \<longleftrightarrow> local_parts (lreq s) = lp \<and> sync_thread (lreq s) = Spawned
     \<and> (lthread s \<noteq> ToSetup \<longrightarrow> internal_status (lreq s) = filled (replicate (nat (parts (lreq s))) 0))"

lemma start_kept_step:
  assumes step: "life_step M s s'" and I: "send_inv M h0 n s" and k: "start_kept lp s"
    and M: "mpi_succeeds M" "fresh_handles M"
  shows "start_kept lp s'"
  using step
proof cases
  case (start st v r h)
  note D = send_invD [OF I]
  show ?thesis
  proof (cases "st = RUNNING")
    case True
    with start k show ?thesis by (auto simp: start_kept_def)
  next
    case False
    with D(4) start have st: "st = FINISHED" "lthread s = Ended" "threaded (lreq s) = FINISHED" by auto
    then have ok: "setup_ok (lreq s)" "state (lreq s) = ACTIVE" using D(2,8) start by auto
    from start_rest_sender [OF ok(1) D(1) ok(2) st(3) M(1), of "llog s"] start k st show ?thesis
      by (auto simp: start_kept_def reset_done_def)
  qed
next
  case (sync r h)
  then show ?thesis
    using life_setup_eq [of M h0 n "lreq s"] send_invD(7) [OF I] k M by (auto simp: start_kept_def with_messages_def)
next
  case (catch r h)
  note D = send_invD [OF I]
  have "setup_ok (lreq s)" "local_status (lreq s) = blk_malloc (local_parts (lreq s))" using D(6,8) catch by auto
  then have "r = lreq s" using catch_up_sender [OF D(1) _ setup_okD(1), of M "llog s"] catch(3) by (auto split: if_splits)
  with catch k show ?thesis by (simp add: start_kept_def)
qed (use k in \<open>auto simp: start_kept_def set_running_def\<close>)

lemma start_kept_reaches:
  assumes "lives M s s'" "send_inv M h n s" "start_kept lp s" "mpi_succeeds M" "fresh_handles M"
  shows "start_kept lp s'"
  using assms(1-3)
proof (induction rule: rtranclp_induct)
  case (step t u)
  then show ?case using start_kept_step [OF step.hyps(2)] send_inv_reaches [OF step.hyps(1) _ assms(4,5)] assms(4,5) by blast
qed

lemma started_cases:
  assumes I: "send_inv M h n s" and u: "luser s = Started"
  obtains (early) "too_early s" "lthread s = ToSetup \<or> lthread s = ToLock" "\<not> lost s"
    | (lost) "lost s" "lthread s = Ended" "\<not> too_early s" "threaded (lreq s) = RUNNING"
    | (ready) "\<not> lost s" "\<not> too_early s" "lthread s = Ended" "threaded (lreq s) = FINISHED" "reset_done (lreq s)"
proof -
  note D = send_invD [OF I]
  have "lthread s \<noteq> InLock" using D(2,5) u by auto
  moreover have "reset_done (lreq s)" if "lthread s = Ended" "threaded (lreq s) = FINISHED"
    using I u that by (simp add: send_inv_def)
  ultimately show thesis
    using that u D(9) by (cases "lthread s") (auto simp: too_early_def lost_def)
qed

section \<open>The round\<close>

lemma good_locking:
  assumes r: "setup_ok r" "aligned (local_parts r) (parts r)" "2 * local_parts r \<le> INT_MAX" "side r = SENDER" "state r = ACTIVE"
    "threaded r = RUNNING" "flags_set r" "marked r = {}" "internal_status r = filled (replicate (nat (parts r)) 0)"
  shows "good M h (conf_of r h Locking)"
proof -
  let ?s = "conf_of r h Locking"
  have cnt: "count_of ?s i = 0" for i by (simp add: count_of_def conf_of_def)
  have "actor_ok ?s a" for a by (cases a) (simp_all add: actor_ok_def conf_of_def)
  then have "inv M h ?s" using r cnt
    by (auto simp: inv_def base_ok_def phase_ok_def counts_ok_def unique_ok_def conf_of_def nat_less_iff)
  moreover have "firing ?s i = {}" for i by (auto simp: firing_def conf_of_def split: actor.splits)
  then have "fires_ok h ?s" using cnt net.thr_pos [OF r(2)] by (simp add: fires_ok_def message_ok_simps conf_of_def)
  moreover have "complete_ok ?s" using r(8) by (simp add: complete_ok_def conf_of_def)
  ultimately show ?thesis by (simp add: good_def)
qed

text \<open>A start that came too early, with cleared flags.\<close>

lemma early_in_round:
  assumes I: "send_inv M h n s" and k: "start_kept lp s" and e: "too_early s" "luser s = Started"
    and lp: "aligned lp n" "2 * lp \<le> INT_MAX" and M: "mpi_succeeds M" "fresh_handles M"
  shows "in_round M (llog s) n (clear_conf (round_of s))"
proof -
  note D = send_invD [OF I]
  let ?r = "lreq s"
  have t: "lthread s = ToSetup \<or> lthread s = ToLock" using e(1) by (auto simp: too_early_def)
  then have r: "threaded ?r = RUNNING" "state ?r = ACTIVE" "local_status ?r = blk_malloc (local_parts ?r)" "local_parts ?r = lp"
    using D(2,3,6) e(2) k by (auto simp: start_kept_def)
  have fl: "flags_set (clear_flags ?r)" "marked ?r = {}"
    using lp(1) r(3,4) by (auto simp: aligned_def blk_malloc_def marked_def intro!: flags_set_clear split: if_splits)
  have p: "2 * local_parts (clear_flags ?r) \<le> INT_MAX" "side (clear_flags ?r) = SENDER" using lp(2) r(4) D(1) by simp_all
  from t show ?thesis
  proof
    assume t: "lthread s = ToSetup"
    from D(7) [OF t] have a: "awaits M h n ?r" "llog s = h" by auto
    have "sync_thread ?r = Spawned" using k by (simp add: start_kept_def)
    with a r D(1) fl lp have "waiting_sender M (llog s) (clear_flags ?r) n"
      by (auto simp: waiting_sender_def delayed_def held_def awaits_def)
    from in_round_start [OF disjI2 [OF conjI [OF refl conjI [OF this fl(1)]]] M] show ?thesis using t by (simp add: round_of_def)
  next
    assume t: "lthread s = ToLock"
    then have ok: "setup_ok ?r" "parts ?r = n" using D(8) by auto
    have z: "internal_status ?r = filled (replicate (nat (parts ?r)) 0)" using k t by (simp add: start_kept_def)
    have "good M (llog s) (conf_of (clear_flags ?r) (llog s) Locking)"
      using ok r D(1) fl lp z by (intro good_locking) simp_all
    with ok M show ?thesis using t by (simp add: in_round_def round_of_def sized_def) (simp add: conf_of_def)
  qed
qed

lemma ready_in_round:
  assumes I: "send_inv M h n s" and k: "start_kept lp s" and e: "lthread s = Ended" "luser s = Started"
    "threaded (lreq s) = FINISHED" "reset_done (lreq s)"
    and lp: "aligned lp n" "2 * lp \<le> INT_MAX"
  shows "ready_sender (lreq s)" "parts (lreq s) = n"
  using send_invD(1,2,8) [OF I] k e lp by (auto simp: ready_sender_def start_kept_def reset_done_def)

text \<open>With the status \<open>RUNNING\<close> for ever, users store flags and nothing else happens.\<close>

lemma lost_run:
  assumes "reaches M s t" "pcs s Background = Done" "threaded (req s) = RUNNING" "\<forall>u. pcs s (User u) = Idle"
  shows "log t = log s \<and> pcs t Background = Done \<and> threaded (req t) = RUNNING
    \<and> (\<forall>a p i e v. pcs t a \<noteq> Sending p i e v \<and> pcs t a \<noteq> Firing p i e v)"
  using assms(1)
proof (induction rule: rtranclp_induct)
  case base
  have "pcs s a = Idle \<or> pcs s a = Done" for a using assms(2,4) by (cases a) auto
  then have "pcs s a \<noteq> Sending p i e v \<and> pcs s a \<noteq> Firing p i e v" for a p i e v by (metis pc.distinct)
  with assms(2,3) show ?case by blast
next
  case (step t u)
  from step.hyps(2) step.IH show ?case by (auto elim!: stepE split: if_splits)
qed

section \<open>Runs from uninitialised flags\<close>

text \<open>One user can mark everything before the thread scans.\<close>

lemma mark_all:
  assumes r: "side r = SENDER" "state r = ACTIVE" "threaded r = RUNNING" "local_status r = blk_malloc (local_parts r)"
    and c: "c = Setup \<or> c = Locking" and lp: "0 < local_parts r"
  shows "k \<le> nat (local_parts r) \<Longrightarrow> reaches M (conf_of r h c)
    (conf_of (r\<lparr>local_status := Live (replicate k (Some True) @ replicate (nat (local_parts r) - k) None)\<rparr>) h c)"
proof (induction k)
  case 0
  have "r\<lparr>local_status := Live (replicate (nat (local_parts r)) None)\<rparr> = r"
    using r(4) lp by (simp add: blk_malloc_def)
  then show ?case by simp
next
  case (Suc k)
  let ?b = "\<lambda>k. Live (replicate k (Some True) @ replicate (nat (local_parts r) - k) None)"
  let ?s = "conf_of (r\<lparr>local_status := ?b k\<rparr>) h c"
  obtain m where "nat (local_parts r) - k = Suc m" using Suc.prems by (cases "nat (local_parts r) - k") auto
  then have st: "blk_set (?b k) (int k) True = Inr (?b (Suc k))"
    by (simp add: list_update_append replicate_app_Cons_same Suc_diff_Suc)
  have um: "int k \<notin> marked (r\<lparr>local_status := ?b k\<rparr>)" using Suc.prems by (simp add: marked_def nth_append)
  have "step M ?s (goto (User 0) (Marked (int k)) (?s\<lparr>req := r\<lparr>local_status := ?b (Suc k)\<rparr>\<rparr>))"
    using step.mark [of ?s 0 "int k" "?b (Suc k)" M] st um r by (simp add: conf_of_def)
  moreover have "step M (goto (User 0) (Marked (int k)) (?s\<lparr>req := r\<lparr>local_status := ?b (Suc k)\<rparr>\<rparr>))
      (conf_of (r\<lparr>local_status := ?b (Suc k)\<rparr>) h c)"
    using step.delay [of "goto (User 0) (Marked (int k)) (?s\<lparr>req := r\<lparr>local_status := ?b (Suc k)\<rparr>\<rparr>)" 0 "int k" M] r c
    by (auto simp: conf_of_def locked_def fun_upd_idem)
  ultimately show ?case using Suc by (meson Suc_leD rtranclp.rtrancl_into_rtrancl)
qed

lemma early_can_finish:
  assumes I: "send_inv M h n s" and k: "start_kept lp s" and e: "too_early s" "luser s = Started"
    and lp: "aligned lp n" "2 * lp \<le> INT_MAX" and M: "mpi_succeeds M" "fresh_handles M"
  shows "\<exists>u. reaches M (round_of s) u \<and> quiescent u"
proof -
  note D = send_invD [OF I]
  let ?r = "lreq s" and ?c = "thread_at (local_parts (lreq s)) (lthread s)"
  have t: "lthread s \<noteq> Ended" "?c = Setup \<or> ?c = Locking" using e(1) by (auto simp: too_early_def)
  have r: "state ?r = ACTIVE" "threaded ?r = RUNNING" "local_status ?r = blk_malloc (local_parts ?r)" "0 < local_parts ?r"
    using D(2,3,6) t(1) e(2) k lp(1) by (auto simp: start_kept_def aligned_def)
  let ?q = "?r\<lparr>local_status := Live (replicate (nat (local_parts ?r)) (Some True))\<rparr>"
  have run: "reaches M (round_of s) (conf_of ?q (llog s) ?c)"
    using mark_all [OF D(1) r(1-3) t(2) r(4) order_refl, of M "llog s"] by (simp add: round_of_def)
  have "clear_conf (conf_of ?q (llog s) ?c) = conf_of ?q (llog s) ?c"
    by (simp add: clear_flags_def)
  with round.run_ok [OF clear.run_abs [OF run] early_in_round [OF assms]]
  have "in_round M (llog s) n (conf_of ?q (llog s) ?c)" by simp
  from round.run_to_end [OF this] run show ?thesis by (meson rtranclp_trans)
qed

lemma early_can_fail:
  assumes I: "send_inv M h n s" and k: "start_kept lp s" and e: "too_early s" "luser s = Started"
    and lp: "0 < lp" and M: "mpi_succeeds M" "fresh_handles M"
  shows "\<exists>u. reaches M (round_of s) u \<and> pcs u Background = Scan 0 \<and> blk_get (local_status (req u)) 0 = Inl (Undefined UninitRead)"
proof -
  note D = send_invD [OF I]
  have t: "lthread s = ToSetup \<or> lthread s = ToLock" using e(1) by (auto simp: too_early_def)
  then have r: "state (lreq s) = ACTIVE" "local_status (lreq s) = blk_malloc lp"
    using D(2,6) e(2) k by (auto simp: start_kept_def)
  have lock: "\<exists>u. reaches M v u \<and> pcs u Background = Scan 0 \<and> blk_get (local_status (req u)) 0 = Inl (Undefined UninitRead)"
    if "pcs v Background = Locking" "side (req v) = SENDER" "state (req v) = ACTIVE" "local_status (req v) = blk_malloc lp" for v
  proof -
    have "step M v (goto Background (Scan 0) v)" using step.acquire [OF that(1,2), of M] that(3) by simp
    then show ?thesis using that(4) lp by (intro exI [of _ "goto Background (Scan 0) v"]) (auto simp: blk_malloc_def)
  qed
  from t show ?thesis
  proof
    assume "lthread s = ToLock"
    then show ?thesis using r D(1) by (intro lock) (simp_all add: round_of_def conf_of_def)
  next
    assume t: "lthread s = ToSetup"
    then obtain xs sz where "bindE (sync_side M (not_side (side (lreq s))) (lreq s, llog s)) (internal_setup M)
        = Inr (with_messages n sz xs (lreq s), thread_setup_log M (lreq s) n sz xs h)"
      using life_setup_eq [of M h n "lreq s"] D(7) M by fastforce
    then have "step M (round_of s) (goto Background Locking ((round_of s)\<lparr>req := with_messages n sz xs (lreq s), log := thread_setup_log M (lreq s) n sz xs h\<rparr>))"
      using t by (intro step.sync) (simp_all add: round_of_def conf_of_def)
    moreover have "\<exists>u. reaches M (goto Background Locking ((round_of s)\<lparr>req := with_messages n sz xs (lreq s), log := thread_setup_log M (lreq s) n sz xs h\<rparr>)) u
        \<and> pcs u Background = Scan 0 \<and> blk_get (local_status (req u)) 0 = Inl (Undefined UninitRead)"
      using r D(1) by (intro lock) (simp_all add: with_messages_def)
    ultimately show ?thesis by (meson converse_rtranclp_into_rtranclp)
  qed
qed

text \<open>What a finished round has sent.\<close>

definition sent_exactly :: "hist \<Rightarrow> conf \<Rightarrow> bool" where
  "sent_exactly h t \<longleftrightarrow> (\<forall>i. 0 \<le> i \<and> i < parts (req t) \<longrightarrow>
     starts (log t) (handles (req t) ! nat i) = starts h (handles (req t) ! nat i)
       + (if deps (local_parts (req t)) (parts (req t)) i \<subseteq> marked (req t) then 1 else 0))"

lemma early_round:
  assumes I: "send_inv M h n s" and k: "start_kept lp s" and e: "too_early s" "luser s = Started"
    and lp: "aligned lp n" "2 * lp \<le> INT_MAX" and M: "mpi_succeeds M" "fresh_handles M"
    and run: "reaches M (round_of s) t" "quiescent t"
  shows "at_rest (req t) \<and> {0..<local_parts (req t)} \<subseteq> marked (req t) \<and> sent_exactly (llog s) t"
proof -
  have g: "good M (llog s) (clear_conf t)"
    using round.run_ok [OF clear.run_abs [OF run(1)] early_in_round [OF assms(1-8)]] by (simp add: in_round_def)
  have q: "quiescent (clear_conf t)" "pcs t Background = Done" using run(2) by (simp_all add: quiescent_def)
  have G: "setup_ok (req t)" "aligned (local_parts (req t)) (parts (req t))" "base_ok (clear_conf t)"
    using goodD(1,2) [OF g] g q by (simp_all add: good_def inv_def)
  note D = send_invD [OF I]
  have th: "lthread s \<noteq> Ended" "state (lreq s) = ACTIVE" using e D(2) by (auto simp: too_early_def)
  then have "scan_inv (round_of s)"
    using D(6) e(1) by (auto simp: scan_inv_def round_of_def conf_of_def never_cleared_malloc too_early_def)
  from quiescent_all_marked [OF run(1) this run(2)] have m: "{0..<local_parts (req t)} \<subseteq> marked (req t)" .
  have "deps (local_parts (req t)) (parts (req t)) i \<subseteq> marked (req t)" for i
    using m by (force simp: deps_def)
  with good_quiescent [OF g q(1)] have "sent_exactly (llog s) t" by (simp add: sent_exactly_def)
  with G m q(2) show ?thesis by (simp add: at_rest_def base_ok_def)
qed

lemma ready_round:
  assumes r: "ready_sender (lreq s)" "lthread s = Ended" and M: "mpi_succeeds M" "fresh_handles M"
    and run: "reaches M (round_of s) t"
  shows "(quiescent t \<longrightarrow> at_rest (req t) \<and> sent_exactly (llog s) t) \<and> (\<exists>u. reaches M t u \<and> quiescent u)"
proof -
  have run': "reaches M (conf_of (lreq s) (llog s) Done) t" using run r(2) by (simp add: round_of_def)
  have "in_round M (llog s) (parts (lreq s)) (conf_of (lreq s) (llog s) Done)" using r(1) M by (intro in_round_start) simp_all
  from round.run_to_end [OF round.run_ok [OF run' this]] have "\<exists>u. reaches M t u \<and> quiescent u" .
  moreover have "at_rest (req t) \<and> sent_exactly (llog s) t" if "quiescent t"
    using quiescent_after_round [OF r(1) run' that M] by (simp add: sent_exactly_def same_messages_def)
  ultimately show ?thesis by blast
qed

text \<open>No message starts more than once before the round is over either.\<close>

lemma first_round_once:
  assumes g: "good M g (clear_conf t)" and st: "\<And>x. starts g x = starts h x"
    and t: "pcs t Background \<noteq> Setup" "0 \<le> i" "i < parts (req t)"
  shows "starts (log t) (handles (req t) ! nat i) \<le> Suc (starts h (handles (req t) ! nat i))"
  using good_once [OF g, of i] t st by simp

text \<open>
  C5: the first round of a sender whose partner decides the partitioning, from the creation of its
  background thread to the end of its \<open>MPIP_Pready\<close> calls, in every interleaving. No message ever
  starts twice. If \<open>RUNNING\<close> is stored after the thread has finished (\<open>lost\<close>), none starts at all.
  Otherwise the round can end, and then exactly the messages whose partitions have all been marked
  have started once, and the request is ready for the next round. If the start came too early, the
  round can end only when every partition has been marked, and the thread can be scheduled to read
  an uninitialised flag instead.
\<close>

theorem first_round_under_any_schedule:
  assumes r: "awaits M h n r" "side r = SENDER" "state r = INACTIVE" "local_status r = blk_malloc (local_parts r)"
    and lp: "aligned (local_parts r) n" "2 * local_parts r \<le> INT_MAX" and M: "mpi_succeeds M" "fresh_handles M"
    and run: "lives M (spawned r h) s" "luser s = Started" "reaches M (round_of s) t"
  shows "(\<forall>i. pcs t Background \<noteq> Setup \<and> 0 \<le> i \<and> i < parts (req t)
        \<longrightarrow> starts (log t) (handles (req t) ! nat i) \<le> Suc (starts h (handles (req t) ! nat i)))
    \<and> (if lost s then \<forall>x. starts (log t) x = starts h x
       else (quiescent t \<longrightarrow> at_rest (req t) \<and> sent_exactly h t)
         \<and> (\<exists>u. reaches M (if too_early s then round_of s else t) u \<and> quiescent u))
    \<and> (too_early s \<longrightarrow> (quiescent t \<longrightarrow> marked (req t) = {0..<local_parts (req t)})
         \<and> (\<exists>u. reaches M (round_of s) u \<and> pcs u Background = Scan 0
                \<and> blk_get (local_status (req u)) 0 = Inl (Undefined UninitRead)))"
proof -
  have I0: "send_inv M h n (spawned r h)" by (rule send_inv_start [OF r])
  have I: "send_inv M h n s" by (rule send_inv_reaches [OF run(1) I0 M])
  have "start_kept (local_parts r) (spawned r h)" by (simp add: start_kept_def spawned_def pthread_create_def)
  from start_kept_reaches [OF run(1) I0 this M] have k: "start_kept (local_parts r) s" .
  note D = send_invD [OF I]
  have st: "starts (llog s) x = starts h x" for x using D(7,8) by (cases "lthread s = ToSetup") auto
  then have ex: "sent_exactly (llog s) t \<longleftrightarrow> sent_exactly h t" by (simp add: sent_exactly_def)
  show ?thesis
    using I run(2)
  proof (cases rule: started_cases)
    case early
    note E = early_in_round [OF I k early(1) run(2) lp M]
    have g: "good M (llog s) (clear_conf t)"
      using round.run_ok [OF clear.run_abs [OF run(3)] E] by (simp add: in_round_def)
    note once = first_round_once [OF g st]
    have "marked (req t) \<subseteq> {0..<local_parts (req t)}" if "at_rest (req t)"
      using that setup_okD(10) [of "req t"] marked_bounds by (force simp: at_rest_def)
    then have q: "at_rest (req t) \<and> sent_exactly h t \<and> marked (req t) = {0..<local_parts (req t)}" if "quiescent t"
      using early_round [OF I k early(1) run(2) lp M run(3) that] ex by blast
    have "0 < local_parts r" using lp(1) by (simp add: aligned_def)
    with once q early early_can_finish [OF I k early(1) run(2) lp M] early_can_fail [OF I k early(1) run(2) _ M]
    show ?thesis by simp
  next
    case lost
    have "log t = llog s" using lost_run [OF run(3)] lost by (simp add: round_of_def conf_of_def)
    with lost st show ?thesis by simp
  next
    case ready
    note R = ready_in_round [OF I k ready(3) run(2) ready(4,5) lp]
    have run': "reaches M (conf_of (lreq s) (llog s) Done) t" using run(3) ready(3) by (simp add: round_of_def)
    have g: "good M (llog s) t" by (rule good_reaches [OF run' good_ready [OF R(1)] M])
    note once = good_once [OF g, unfolded st]
    from ready_round [OF R(1) ready(3) M run(3)] ex once ready show ?thesis by simp
  qed
qed

text \<open>A start before the setup; all four partitions are marked, and both messages leave.\<close>

theorem first_round_under_any_schedule_witness:
  "\<exists>s u. lives (mpi_answers 2 1) (spawned ((demo_plan SENDER 4 1 4 7)\<lparr>state := INACTIVE, local_status := blk_malloc 4\<rparr>) []) s
     \<and> too_early s \<and> reaches (mpi_answers 2 1) (round_of s) u \<and> quiescent u \<and> sent_exactly [] u
     \<and> marked (req u) = {0..<local_parts (req u)}"
proof -
  let ?r = "(demo_plan SENDER 4 1 4 7)\<lparr>state := INACTIVE, local_status := blk_malloc 4\<rparr>" and ?M = "mpi_answers 2 1"
  let ?i = "spawned ?r []"
  let ?j = "?i\<lparr>lreq := set_running (lreq ?i), luser := Inited\<rparr>"
  let ?k = "?j\<lparr>lreq := (lreq ?j)\<lparr>state := ACTIVE\<rparr>, luser := Starting (threaded (lreq ?j))\<rparr>"
  let ?s = "?k\<lparr>lreq := lreq ?k, llog := llog ?k, luser := Started\<rparr>"
  have m: "the_meta ?r = demo_meta\<lparr>tag := 7\<rparr>" by (simp add: demo_plan_def)
  have "prepared ?r" by (simp add: demo_plan_def demo_def prepared_def blk_malloc_def)
  moreover have "fits ?M (the_meta ?r) 2 1" unfolding m by (rule demo_plan_fits) simp_all
  ultimately have a: "awaits ?M [] 2 ?r" unfolding awaits_def by fastforce
  have l: "local_status ?r = blk_malloc (local_parts ?r)" "side ?r = SENDER" "state ?r = INACTIVE"
    "aligned (local_parts ?r) 2" "2 * local_parts ?r \<le> INT_MAX"
    by (simp_all add: demo_plan_def demo_def aligned_def)
  have k: "luser ?k = Starting RUNNING" by (simp add: set_running_def)
  have "life_step ?M ?i ?j" using life_step.store [of ?i ?M] by (simp add: spawned_def)
  moreover have "life_step ?M ?j ?k" using life_step.read_status [of ?j ?M] by (simp add: spawned_def)
  moreover have "life_step ?M ?k ?s" using life_step.start [OF k start_rest_running] .
  ultimately have s: "lives ?M ?i ?s" by (meson r_into_rtranclp rtranclp_trans)
  have e: "luser ?s = Started" "too_early ?s" by (simp_all add: spawned_def too_early_def)
  have nl: "\<not> lost ?s" by (simp add: lost_def spawned_def)
  note T = first_round_under_any_schedule [OF a l(2,3,1,4,5) mpi_run_succeeds mpi_run_fresh s e(1)]
  from T [OF rtranclp.rtrancl_refl] e(2) nl obtain u where u: "reaches ?M (round_of ?s) u" "quiescent u" by auto
  from T [OF u(1)] u(2) e(2) nl have "sent_exactly [] u" "marked (req u) = {0..<local_parts (req u)}" by simp_all
  with s e(2) u show ?thesis by blast
qed

end
