(* ===== verification/Arrival_Races.thy ===== *)
theory Arrival_Races
  imports Examples
begin

text \<open>
  \<open>MPIP_Parrived\<close> called by several threads at once. \<open>map_recv_buffer\<close> takes no lock: between its read
  of a ready flag, its test of the messages and its store of the result, other threads can do the
  same. Each step below is one of these accesses; a thread inside \<open>MPI_Testall\<close> is at \<open>Testing\<close>.
\<close>

section \<open>Configurations and steps\<close>

text \<open>
  \<open>Entered p\<close>: \<open>threaded\<close> has been read, and the thread was not running; \<open>Testing p xs\<close>: inside
  \<open>MPI_Testall\<close> on \<open>xs\<close>; \<open>Tested p f\<close>: the test has stored \<open>f\<close>, the flag is still to be set; \<open>Told p f\<close>:
  the call has returned with \<open>f\<close> in the flag argument.
\<close>

datatype ask_pc = Outside | Entered int | Testing int "nat list" | Tested int int | Told int int

record asking =
  areq :: mpip
  alog :: hist
  apcs :: "nat \<Rightarrow> ask_pc"

abbreviation at :: "nat \<Rightarrow> ask_pc \<Rightarrow> asking \<Rightarrow> asking" where
  "at u c s \<equiv> s\<lparr>apcs := (apcs s)(u := c)\<rparr>"

text \<open>The messages \<open>map_recv_buffer\<close> looks at.\<close>

definition recv_range :: "int \<Rightarrow> mpip \<Rightarrow> (int \<times> int) res" where
  "recv_range part r =
     (if local_parts r \<le> parts r
      then map_local_to_network_partitions part r
      else bindE (c_div (local_parts r) (parts r)) (\<lambda>threshold.
           bindE (c_div part threshold) (\<lambda>start.
           bindE (c_add start 1) (\<lambda>end. Inr (start, end)))))"

inductive ask_step :: "mpi \<Rightarrow> asking \<Rightarrow> asking \<Rightarrow> bool" for M :: mpi where
  early: "apcs s u = Outside \<or> apcs s u = Told q g \<Longrightarrow> side (areq s) \<noteq> SENDER \<Longrightarrow> threaded (areq s) = RUNNING \<Longrightarrow>
    ask_step M s (at u (Told p 0) s)"
| enter: "apcs s u = Outside \<or> apcs s u = Told q g \<Longrightarrow> side (areq s) \<noteq> SENDER \<Longrightarrow> threaded (areq s) \<noteq> RUNNING \<Longrightarrow>
    0 \<le> p \<Longrightarrow> p < local_parts (areq s) \<Longrightarrow> ask_step M s (at u (Entered p) s)"
| known: "apcs s u = Entered p \<Longrightarrow> blk_get (local_status (areq s)) p = Inr True \<Longrightarrow>
    ask_step M s (at u (Told p 1) s)"
| look: "apcs s u = Entered p \<Longrightarrow> blk_get (local_status (areq s)) p = Inr False \<Longrightarrow>
    recv_range p (areq s) = Inr (i, e) \<Longrightarrow> blk_slice (request (areq s)) i (e - i) = Inr xs \<Longrightarrow>
    ask_step M s (at u (Testing p xs) s)"
| test: "apcs s u = Testing p xs \<Longrightarrow> MPI_Testall M xs (alog s) = Inr (f, h) \<Longrightarrow>
    ask_step M s (at u (Tested p f) (s\<lparr>alog := h\<rparr>))"
| save: "apcs s u = Tested p f \<Longrightarrow> blk_set (local_status (areq s)) p (f \<noteq> 0) = Inr st \<Longrightarrow>
    ask_step M s (at u (Told p f) (s\<lparr>areq := (areq s)\<lparr>local_status := st\<rparr>\<rparr>))"

inductive_cases ask_stepE: "ask_step M s s'"

abbreviation asks :: "mpi \<Rightarrow> asking \<Rightarrow> asking \<Rightarrow> bool" where
  "asks M \<equiv> (ask_step M)\<^sup>*\<^sup>*"

definition nobody_asks :: "mpip \<Rightarrow> hist \<Rightarrow> asking" where
  "nobody_asks r h = \<lparr>areq = r, alog = h, apcs = (\<lambda>u. Outside)\<rparr>"

section \<open>The invariant\<close>

text \<open>The messages of a partition are complete.\<close>

definition arrived :: "asking \<Rightarrow> int \<Rightarrow> bool" where
  "arrived s p \<longleftrightarrow> (\<forall>x\<in>set (part_handles (areq s) p). \<not> active (alog s) x)"

definition asker_ok :: "asking \<Rightarrow> nat \<Rightarrow> bool" where
  "asker_ok s u \<longleftrightarrow> (case apcs s u of
      Outside \<Rightarrow> True
    | Entered p \<Rightarrow> 0 \<le> p \<and> p < local_parts (areq s)
    | Testing p xs \<Rightarrow> 0 \<le> p \<and> p < local_parts (areq s) \<and> xs = part_handles (areq s) p
    | Tested p f \<Rightarrow> 0 \<le> p \<and> p < local_parts (areq s) \<and> (f \<noteq> 0 \<longrightarrow> arrived s p)
    | Told p f \<Rightarrow> 0 \<le> p \<and> p < local_parts (areq s) \<and> (f \<noteq> 0 \<longrightarrow> arrived s p))"

definition ask_inv :: "asking \<Rightarrow> bool" where
  "ask_inv s \<longleftrightarrow> receiver_at (areq s, alog s) \<and> (\<forall>u. asker_ok s u)"

lemma recv_range_eq:
  assumes "setup_ok r" "aligned (local_parts r) (parts r)" "0 \<le> p" "p < local_parts r"
  shows "recv_range p r = Inr (net_range (local_parts r) (parts r) p)"
    "net_range (local_parts r) (parts r) p = (i, e) \<Longrightarrow> blk_slice (request r) i (e - i) = Inr (part_handles r p)"
proof -
  show "recv_range p r = Inr (net_range (local_parts r) (parts r) p)"
    using send_range_eq [OF assms(2-4)] by (auto simp: recv_range_def send_range_def split: if_splits)
  assume n: "net_range (local_parts r) (parts r) p = (i, e)"
  have "0 \<le> i" "i < e" "e \<le> int (length (handles r))"
    using net.rng_in [OF assms(2-4)] n setup_okD(6) [OF assms(1)] by auto
  then show "blk_slice (request r) i (e - i) = Inr (part_handles r p)"
    using setup_okD(5) [OF assms(1)] blk_slice_filled [of i "e - i" "handles r"] by (simp add: part_handles_def n)
qed

lemma ask_invD:
  assumes "ask_inv s"
  shows "receiver_at (areq s, alog s)" "asker_ok s u" "p \<in> marked (areq s) \<Longrightarrow> arrived s p"
  using assms receiver_atD(6) [of "areq s" "alog s"] by (auto simp: ask_inv_def arrived_def)

text \<open>What stays true of the other threads.\<close>

lemma asker_ok_mono:
  assumes "asker_ok s v" "apcs s' v = apcs s v" "\<And>p. arrived s p \<Longrightarrow> arrived s' p"
    and "local_parts (areq s') = local_parts (areq s)" "\<And>p. part_handles (areq s') p = part_handles (areq s) p"
  shows "asker_ok s' v"
  using assms by (cases "apcs s v") (auto simp: asker_ok_def)

lemma arrived_test: "arrived s p \<Longrightarrow> arrived (at u c (s\<lparr>alog := CTestall xs f # alog s\<rparr>)) p"
  by (simp add: arrived_def)

lemma blk_set_flag:
  assumes "flags_set r" "0 \<le> p" "p < local_parts r" "blk_set (local_status r) p v = Inr st"
  shows "flags_set (r\<lparr>local_status := st\<rparr>)" "blk_len st = blk_len (local_status r)"
    "marked (r\<lparr>local_status := st\<rparr>) = (if v then insert p (marked r) else marked r - {p})"
proof -
  obtain xs where xs: "local_status r = filled xs" "int (length xs) = local_parts r"
    using assms(1) by (auto simp: flags_set_def elim: is_filledE)
  then show "flags_set (r\<lparr>local_status := st\<rparr>)" "blk_len st = blk_len (local_status r)"
    using assms by (auto simp: flags_set_def blk_set_filled_iff)
  show "marked (r\<lparr>local_status := st\<rparr>) = (if v then insert p (marked r) else marked r - {p})"
  proof (intro set_eqI)
    fix q show "q \<in> marked (r\<lparr>local_status := st\<rparr>) \<longleftrightarrow> q \<in> (if v then insert p (marked r) else marked r - {p})"
      using blk.get_put_same [OF assms(4)] blk.get_put_other [OF assms(4), of q]
      by (cases "q = p") (auto simp: marked_def)
  qed
qed

lemma ask_inv_at:
  assumes I: "ask_inv s" and u: "asker_ok (at u c s) u"
  shows "ask_inv (at u c s)"
proof -
  have "asker_ok (at u c s) v" for v
  proof (cases "v = u")
    case False
    then show ?thesis by (intro asker_ok_mono [OF ask_invD(2) [OF I, of v]]) (simp_all add: arrived_def)
  qed (simp add: u)
  with I show ?thesis by (simp add: ask_inv_def)
qed

lemma testall_result: "MPI_Testall M xs h = Inr (f, k) \<Longrightarrow> k = CTestall xs f # h \<and> f = testall_flag M h xs"
  by (auto simp: MPI_Testall_def mpi_call_eq_Inr Let_def)

lemma ask_inv_step:
  assumes step: "ask_step M s s'" and I: "ask_inv s"
  shows "ask_inv s'"
  using step
proof cases
  case (early u q g p)
  then show ?thesis using receiver_atD(5) [OF ask_invD(1) [OF I]] by simp
next
  case (enter u q g p)
  then show ?thesis using ask_inv_at [OF I] by (simp add: asker_ok_def)
next
  case (known u p)
  have "arrived s p" using ask_invD(3) [OF I] known(3) by (simp add: marked_def)
  then show ?thesis unfolding known(1) using known(2) ask_invD(2) [OF I, of u]
    by (intro ask_inv_at [OF I]) (simp add: asker_ok_def arrived_def)
next
  case (look u p i e xs)
  note R = receiver_atD [OF ask_invD(1) [OF I]]
  have p: "0 \<le> p" "p < local_parts (areq s)" using ask_invD(2) [OF I, of u] look(2) by (simp_all add: asker_ok_def)
  have "xs = part_handles (areq s) p" using recv_range_eq [OF R(1,2) p] look(4,5) by simp
  with look p show ?thesis using ask_inv_at [OF I] by (simp add: asker_ok_def)
next
  case (test u p xs f h)
  have h: "h = CTestall xs f # alog s" using testall_result [OF test(3)] by simp
  have x: "xs = part_handles (areq s) p" "0 \<le> p" "p < local_parts (areq s)"
    using ask_invD(2) [OF I, of u] test(2) by (simp_all add: asker_ok_def)
  have arr: "arrived s q \<Longrightarrow> arrived s' q" for q unfolding test(1) h by (rule arrived_test)
  have "asker_ok s' v" for v
  proof (cases "v = u")
    case True
    then show ?thesis using x h test(1) by (simp add: asker_ok_def arrived_def)
  next
    case False
    then show ?thesis using test(1) by (intro asker_ok_mono [OF ask_invD(2) [OF I, of v] _ arr]) simp_all
  qed
  moreover have "receiver_at (areq s', alog s')"
    using ask_invD(1) [OF I] test(1) h by (auto simp: receiver_at_def)
  ultimately show ?thesis by (simp add: ask_inv_def)
next
  case (save u p f st)
  note R = receiver_atD [OF ask_invD(1) [OF I]]
  have x: "0 \<le> p" "p < local_parts (areq s)" "f \<noteq> 0 \<Longrightarrow> arrived s p"
    using ask_invD(2) [OF I, of u] save(2) by (simp_all add: asker_ok_def)
  note S = blk_set_flag [OF R(3) x(1,2) save(3)]
  let ?r = "(areq s)\<lparr>local_status := st\<rparr>"
  have ph: "part_handles ?r q = part_handles (areq s) q" for q by (rule part_handles_cong) simp_all
  have "asker_ok s' v" for v
  proof (cases "v = u")
    case True
    then show ?thesis using x save(1) ph by (simp add: asker_ok_def arrived_def)
  next
    case False
    then show ?thesis using save(1) ph by (intro asker_ok_mono [OF ask_invD(2) [OF I, of v]]) (simp_all add: arrived_def)
  qed
  moreover have "receiver_at (?r, alog s)"
  proof -
    have "\<not> active (alog s) y" if "q \<in> marked ?r" "y \<in> set (part_handles ?r q)" for q y
      using that S(3) R(6) x(3) ph by (auto simp: arrived_def split: if_splits)
    then show ?thesis using R S(1,2) by (simp add: receiver_at_def setup_ok_def)
  qed
  ultimately show ?thesis using save(1) by (simp add: ask_inv_def)
qed

lemma ask_inv_reaches: "asks M s s' \<Longrightarrow> ask_inv s \<Longrightarrow> ask_inv s'"
  by (induction rule: rtranclp_induct) (auto intro: ask_inv_step)

lemma ask_inv_start: "receiver_at (r, h) \<Longrightarrow> ask_inv (nobody_asks r h)"
  by (simp add: ask_inv_def nobody_asks_def asker_ok_def)

lemma ask_step_frame:
  "ask_step M s s' \<Longrightarrow> same_messages (areq s) (areq s') \<and> (\<forall>x. starts (alog s') x = starts (alog s) x)"
  by (erule ask_stepE) (auto simp: same_messages_def dest!: testall_result)

lemma asks_frame:
  "asks M s s' \<Longrightarrow> same_messages (areq s) (areq s') \<and> (\<forall>x. starts (alog s') x = starts (alog s) x)"
proof (induction rule: rtranclp_induct)
  case (step t u)
  with ask_step_frame [OF step.hyps(2)] show ?case by (auto intro: same_messages_trans)
qed simp

section \<open>Answers of different threads\<close>

text \<open>
  Once the messages of a partition are complete, every thread that has not tested before is told 1.
\<close>

definition settled :: "nat \<Rightarrow> int \<Rightarrow> asking \<Rightarrow> bool" where
  "settled v p s \<longleftrightarrow> arrived s p \<and> (\<forall>f. apcs s v = Tested p f \<or> apcs s v = Told p f \<longrightarrow> f = 1)"

lemma settled_step:
  assumes step: "ask_step M s s'" and I: "ask_inv s" and M: "inactive_tests_true M" and S: "settled v p s"
  shows "settled v p s'"
  using step
proof cases
  case (early u q g p)
  then show ?thesis using receiver_atD(5) [OF ask_invD(1) [OF I]] by simp
next
  case (test u q xs f h)
  have h: "h = CTestall xs f # alog s" "f = testall_flag M (alog s) xs"
    using testall_result [OF test(3)] by simp_all
  have x: "xs = part_handles (areq s) q" using ask_invD(2) [OF I, of u] test(2) by (simp add: asker_ok_def)
  have "f = 1" if "q = p" using S M that h(2) x by (simp add: settled_def arrived_def inactive_tests_true_def)
  moreover have "arrived s' p" unfolding test(1) h(1) using S by (intro arrived_test) (simp add: settled_def)
  ultimately show ?thesis using S test(1) by (auto simp: settled_def)
next
  case (save u q f st)
  have "part_handles ((areq s)\<lparr>local_status := st\<rparr>) p = part_handles (areq s) p" by (rule part_handles_cong) simp_all
  then show ?thesis using S save by (auto simp: settled_def arrived_def)
qed (use S in \<open>auto simp: settled_def arrived_def\<close>)

lemma settled_reaches:
  assumes "asks M s s'" "ask_inv s" "inactive_tests_true M" "settled v p s"
  shows "settled v p s'"
  using assms(1)
proof (induction rule: rtranclp_induct)
  case (step t u)
  with settled_step [OF step.hyps(2) ask_inv_reaches [OF step.hyps(1) assms(2)] assms(3)] show ?case by blast
qed (use assms in simp)

text \<open>No call gets stuck.\<close>

lemma asker_moves:
  assumes I: "ask_inv s" and M: "mpi_succeeds M" and u: "apcs s u \<noteq> Outside" "\<And>p f. apcs s u \<noteq> Told p f"
  shows "\<exists>c s'. ask_step M s s' \<and> apcs s' = (apcs s)(u := c) \<and> c \<noteq> apcs s u"
proof -
  note R = receiver_atD [OF ask_invD(1) [OF I]] and A = ask_invD(2) [OF I, of u]
  show ?thesis
  proof (cases "apcs s u")
    case (Entered p)
    then have p: "0 \<le> p" "p < local_parts (areq s)" using A by (simp_all add: asker_ok_def)
    show ?thesis
    proof (cases "p \<in> marked (areq s)")
      case True
      from ask_step.known [OF Entered, of M] True Entered show ?thesis
        by (intro exI [of _ "Told p 1"] exI [of _ "at u (Told p 1) s"]) (simp add: marked_def)
    next
      case False
      obtain i e where n: "net_range (local_parts (areq s)) (parts (areq s)) p = (i, e)" by fastforce
      have "blk_get (local_status (areq s)) p = Inr False" using flags_setD [OF R(3) p] False by simp
      from ask_step.look [OF Entered this _ recv_range_eq(2) [OF R(1,2) p n], of M] recv_range_eq(1) [OF R(1,2) p] n Entered
      show ?thesis by (intro exI [of _ "Testing p (part_handles (areq s) p)"]
          exI [of _ "at u (Testing p (part_handles (areq s) p)) s"]) simp
    qed
  next
    case (Testing p xs)
    from ask_step.test [OF Testing MPI_Testall_succeeds [OF M]] Testing show ?thesis by fastforce
  next
    case (Tested p f)
    then have "0 \<le> p" "p < local_parts (areq s)" using A by (simp_all add: asker_ok_def)
    then obtain st where "blk_set (local_status (areq s)) p (f \<noteq> 0) = Inr st"
      using blk.put_ok [of p "local_status (areq s)"] setup_okD(10) [OF R(1)] by metis
    from ask_step.save [OF Tested this, of M] Tested show ?thesis by fastforce
  qed (use u in auto)
qed

section \<open>A whole call is a run\<close>

lemma map_recv_buffer_split:
  "map_recv_buffer M part (r, h) = bindE (blk_get (local_status r) part) (\<lambda>known.
     if known then Inr (1, r, h)
     else bindE (recv_range part r) (\<lambda>(start, end).
       bindE (blk_slice (request r) start (end - start)) (\<lambda>xs.
       bindE (MPI_Testall M xs h) (\<lambda>(flag, h).
       bindE (blk_set (local_status r) part (flag \<noteq> 0)) (\<lambda>st.
       Inr (flag, r\<lparr>local_status := st\<rparr>, h))))))"
  unfolding map_recv_buffer_def recv_range_def split_conv by (rule refl)

lemma parrived_is_run:
  assumes u: "apcs s u = Outside \<or> apcs s u = Told q g" and p: "0 \<le> p" "p < local_parts (areq s)"
    and e: "MPIP_Parrived M p (areq s, alog s) = Inr (f, r', h')"
  shows "\<exists>s'. asks M s s' \<and> areq s' = r' \<and> alog s' = h' \<and> apcs s' = (apcs s)(u := Told p f)"
proof -
  have sd: "side (areq s) \<noteq> SENDER" using e by (auto simp: MPIP_Parrived_def)
  show ?thesis
  proof (cases "threaded (areq s) = RUNNING")
    case True
    with e have "f = 0" "r' = areq s" "h' = alog s" by (auto simp: MPIP_Parrived_def)
    then show ?thesis using ask_step.early [OF u sd True, of M p] by (intro exI [of _ "at u (Told p 0) s"]) auto
  next
    case False
    let ?a = "at u (Entered p) s"
    have a: "ask_step M s ?a" by (rule ask_step.enter [OF u sd False p])
    have m: "map_recv_buffer M p (areq s, alog s) = Inr (f, r', h')" using e False by (auto simp: MPIP_Parrived_def)
    then obtain k where k: "blk_get (local_status (areq s)) p = Inr k" by (auto simp: map_recv_buffer_split)
    show ?thesis
    proof (cases k)
      case True
      with m k have "f = 1" "r' = areq s" "h' = alog s" by (auto simp: map_recv_buffer_split)
      moreover have "ask_step M ?a (at u (Told p 1) ?a)" using k True by (intro ask_step.known) simp_all
      ultimately show ?thesis using a
        by (intro exI [of _ "at u (Told p 1) ?a"]) (auto intro: converse_rtranclp_into_rtranclp)
    next
      case False
      with m k obtain i n xs st where w: "recv_range p (areq s) = Inr (i, n)" "blk_slice (request (areq s)) i (n - i) = Inr xs"
        "MPI_Testall M xs (alog s) = Inr (f, h')" "blk_set (local_status (areq s)) p (f \<noteq> 0) = Inr st"
        "r' = (areq s)\<lparr>local_status := st\<rparr>"
        by (auto simp: map_recv_buffer_split)
      let ?b = "at u (Testing p xs) ?a" and ?c = "at u (Tested p f) ((at u (Testing p xs) ?a)\<lparr>alog := h'\<rparr>)"
      let ?d = "at u (Told p f) (?c\<lparr>areq := (areq ?c)\<lparr>local_status := st\<rparr>\<rparr>)"
      have "ask_step M ?a ?b" using k False w by (intro ask_step.look) simp_all
      moreover have "ask_step M ?b ?c" using w by (intro ask_step.test) simp_all
      moreover have "ask_step M ?c ?d" using w by (intro ask_step.save) simp_all
      ultimately have "asks M s ?d" using a by (meson converse_rtranclp_into_rtranclp rtranclp.rtrancl_refl)
      with w(5) show ?thesis by (intro exI [of _ ?d]) simp
    qed
  qed
qed

section \<open>The properties\<close>

text \<open>
  C21: calls of \<open>MPIP_Parrived\<close> by any number of threads, interleaved in any way. A call that answers
  with 1 is right: the messages that share data with its partition are complete. After such an
  answer no call for the partition answers otherwise unless it had tested before. A call never
  gets stuck or into undefined behaviour, no message is started or changed, and a call that is not
  interrupted is \<open>MPIP_Parrived\<close> as a whole.
\<close>

theorem arrival_under_any_schedule:
  assumes at: "receiver_at (r, h)" and M: "mpi_succeeds M" "inactive_tests_true M" and run: "asks M (nobody_asks r h) s"
  shows "(\<forall>u p f i. apcs s u = Told p f \<and> f \<noteq> 0 \<and> 0 \<le> i \<and> i < parts r \<and> p \<in> deps (local_parts r) (parts r) i
        \<longrightarrow> \<not> active (alog s) (handles r ! nat i))
    \<and> (\<forall>u v p s' f. apcs s u = Told p 1 \<and> (\<forall>g. apcs s v = Tested p g \<or> apcs s v = Told p g \<longrightarrow> g = 1)
        \<and> asks M s s' \<and> apcs s' v = Told p f \<longrightarrow> f = 1)
    \<and> (\<forall>u. apcs s u \<noteq> Outside \<and> (\<forall>p f. apcs s u \<noteq> Told p f)
        \<longrightarrow> (\<exists>c s'. ask_step M s s' \<and> apcs s' = (apcs s)(u := c) \<and> c \<noteq> apcs s u))
    \<and> same_messages r (areq s) \<and> (\<forall>x. starts (alog s) x = starts h x)
    \<and> (\<forall>u p f r' h'. apcs s u = Outside \<and> 0 \<le> p \<and> p < local_parts r \<and> MPIP_Parrived M p (areq s, alog s) = Inr (f, r', h')
        \<longrightarrow> (\<exists>s'. asks M s s' \<and> areq s' = r' \<and> alog s' = h' \<and> apcs s' = (apcs s)(u := Told p f)))"
proof -
  have I: "ask_inv s" by (rule ask_inv_reaches [OF run ask_inv_start [OF at]])
  note R = receiver_atD [OF at]
  have F: "same_messages r (areq s)" "starts (alog s) x = starts h x" for x
    using asks_frame [OF run] by (simp_all add: nobody_asks_def)
  have arr: "\<not> active (alog s) (handles r ! nat i)"
    if t: "apcs s u = Told p f" "f \<noteq> 0" and i: "0 \<le> i" "i < parts r" "p \<in> deps (local_parts r) (parts r) i" for u p f i
  proof -
    have a: "arrived s p" "0 \<le> p" "p < local_parts (areq s)" using ask_invD(2) [OF I, of u] t by (simp_all add: asker_ok_def)
    have "part_handles (areq s) p = part_handles r p" using F(1) by (intro part_handles_cong) (simp_all add: same_messages_def)
    moreover have "handles r ! nat i \<in> set (part_handles r p)"
      using set_part_handles [OF R(1,2), of p] a(2,3) i F(1) by (auto simp: same_messages_def)
    ultimately show ?thesis using a(1) by (simp add: arrived_def)
  qed
  have stick: "f = 1" if t: "apcs s u = Told p 1" "\<forall>g. apcs s v = Tested p g \<or> apcs s v = Told p g \<longrightarrow> g = 1"
    "asks M s s'" "apcs s' v = Told p f" for u v p s' f
  proof -
    have "arrived s p" using ask_invD(2) [OF I, of u] t(1) by (simp add: asker_ok_def)
    with t(2) have "settled v p s" by (simp add: settled_def)
    from settled_reaches [OF t(3) I M(2) this] t(4) show ?thesis by (simp add: settled_def)
  qed
  have moves: "\<exists>c s'. ask_step M s s' \<and> apcs s' = (apcs s)(u := c) \<and> c \<noteq> apcs s u"
    if "apcs s u \<noteq> Outside" "\<forall>p f. apcs s u \<noteq> Told p f" for u using asker_moves [OF I M(1)] that by blast
  have whole: "\<exists>s'. asks M s s' \<and> areq s' = r' \<and> alog s' = h' \<and> apcs s' = (apcs s)(u := Told p f)"
    if "apcs s u = Outside" "0 \<le> p" "p < local_parts r" "MPIP_Parrived M p (areq s, alog s) = Inr (f, r', h')" for u p f r' h'
    using parrived_is_run [of s u p 0 p M] that F(1) by (simp add: same_messages_def)
  show ?thesis
  proof (intro conjI)
    show "\<forall>u p f i. apcs s u = Told p f \<and> f \<noteq> 0 \<and> 0 \<le> i \<and> i < parts r \<and> p \<in> deps (local_parts r) (parts r) i
        \<longrightarrow> \<not> active (alog s) (handles r ! nat i)" by (intro allI impI, elim conjE) (rule arr)
    show "\<forall>u v p s' f. apcs s u = Told p 1 \<and> (\<forall>g. apcs s v = Tested p g \<or> apcs s v = Told p g \<longrightarrow> g = 1)
        \<and> asks M s s' \<and> apcs s' v = Told p f \<longrightarrow> f = 1" by (intro allI impI, elim conjE) (rule stick)
    show "\<forall>u. apcs s u \<noteq> Outside \<and> (\<forall>p f. apcs s u \<noteq> Told p f)
        \<longrightarrow> (\<exists>c s'. ask_step M s s' \<and> apcs s' = (apcs s)(u := c) \<and> c \<noteq> apcs s u)"
      by (intro allI impI, elim conjE) (rule moves)
    show "\<forall>u p f r' h'. apcs s u = Outside \<and> 0 \<le> p \<and> p < local_parts r \<and> MPIP_Parrived M p (areq s, alog s) = Inr (f, r', h')
        \<longrightarrow> (\<exists>s'. asks M s s' \<and> areq s' = r' \<and> alog s' = h' \<and> apcs s' = (apcs s)(u := Told p f))"
      by (intro allI impI, elim conjE) (rule whole)
  qed (use F in auto)
qed

text \<open>One thread asks for partition 0 of four, after the message has completed.\<close>

lemma demo_receiver_at:
  "aligned lp n \<Longrightarrow> receiver_at (demo RECEIVER lp n, h) \<and> marked (demo RECEIVER lp n) = {}"
  using demo_setup_ok [of lp n RECEIVER] demo_flags [of lp RECEIVER n] by (simp add: receiver_at_def aligned_def)

theorem arrival_under_any_schedule_witness:
  "\<exists>s. asks mpi_done (nobody_asks (demo RECEIVER 4 2) [CStartall [0, 1]]) s \<and> apcs s 0 = Told 0 1 \<and> \<not> active (alog s) 0"
proof -
  let ?r = "demo RECEIVER 4 2" and ?h = "[CStartall [0, 1]]"
  have at: "receiver_at (?r, ?h)" "marked ?r = {}" using demo_receiver_at [of 4 2 ?h] by (simp_all add: aligned_def)
  have ph: "part_handles ?r 0 = [0]" by (simp add: part_handles_def net_range_def numeral_2_eq_2)
  have tf: "testall_flag mpi_done ?h [0] = 1" by (simp add: mpi_run_def)
  have "0 < local_parts ?r" by simp
  with at(2) obtain st where "MPIP_Parrived mpi_done 0 (?r, ?h) = Inr (testall_flag mpi_done ?h (part_handles ?r 0),
      ?r\<lparr>local_status := st\<rparr>, CTestall (part_handles ?r 0) (testall_flag mpi_done ?h (part_handles ?r 0)) # ?h)"
    using parrived_eq [OF at(1) order_refl _ _ mpi_run_succeeds] by blast
  note e = this [unfolded ph tf]
  obtain s where s: "asks mpi_done (nobody_asks ?r ?h) s" "apcs s = (apcs (nobody_asks ?r ?h))(0 := Told 0 1)"
    using parrived_is_run [of "nobody_asks ?r ?h" 0 0 0 0 mpi_done] e by (auto simp: nobody_asks_def)
  note T = arrival_under_any_schedule [OF at(1) mpi_run_succeeds mpi_run_inactive(1)]
  have d: "0 \<in> deps 4 2 0" by (simp add: deps_def net_range_def)
  from T [OF s(1), THEN conjunct1, rule_format, of 0 0 1 0] s(2) d have "\<not> active (alog s) (handles ?r ! nat 0)" by simp
  with s show ?thesis by (intro exI [of _ s]) simp
qed

text \<open>A thread can get into its test whatever the others are doing.\<close>

lemma reach_testing:
  assumes I: "ask_inv s" and u: "apcs s u = Outside" and p: "0 \<le> p" "p < local_parts (areq s)" "p \<notin> marked (areq s)"
  shows "asks M s (at u (Testing p (part_handles (areq s) p)) s)"
proof -
  note R = receiver_atD [OF ask_invD(1) [OF I]]
  obtain i e where n: "net_range (local_parts (areq s)) (parts (areq s)) p = (i, e)" by fastforce
  let ?a = "at u (Entered p) s"
  have "ask_step M s ?a" using u R(4,5) p by (intro ask_step.enter) auto
  moreover have "blk_get (local_status (areq s)) p = Inr False" using flags_setD [OF R(3) p(1,2)] p(3) by simp
  then have "ask_step M ?a (at u (Testing p (part_handles (areq s) p)) ?a)"
    using recv_range_eq [OF R(1,2) p(1,2)] n by (intro ask_step.look [where i = i and e = e]) simp_all
  ultimately show ?thesis by (auto intro: converse_rtranclp_into_rtranclp)
qed

lemma testing_part:
  assumes "receiver_at (r, h)" "asks M (nobody_asks r h) s" "apcs s u = Testing p xs"
  shows "xs = part_handles r p"
proof -
  have "ask_inv s" by (rule ask_inv_reaches [OF assms(2) ask_inv_start [OF assms(1)]])
  then have "xs = part_handles (areq s) p" using ask_invD(2) [of s u] assms(3) by (simp add: asker_ok_def)
  also have "\<dots> = part_handles r p"
    using asks_frame [OF assms(2)] by (intro part_handles_cong) (simp_all add: nobody_asks_def same_messages_def)
  finally show ?thesis .
qed

lemma both_testing:
  assumes at: "receiver_at (r, h)" and uv: "u \<noteq> v"
    and p: "0 \<le> p" "p < local_parts r" "p \<notin> marked r" and q: "0 \<le> q" "q < local_parts r" "q \<notin> marked r"
  shows "asks M (nobody_asks r h) (at v (Testing q (part_handles r q)) (at u (Testing p (part_handles r p)) (nobody_asks r h)))"
proof -
  let ?s = "nobody_asks r h"
  have s: "ask_inv ?s" "areq ?s = r" "apcs ?s w = Outside" for w using ask_inv_start [OF at] by (simp_all add: nobody_asks_def)
  let ?t = "at u (Testing p (part_handles r p)) ?s"
  have t: "asks M ?s ?t" using reach_testing [OF s(1,3), where p = p and u = u and M = M] s(2) p by simp
  moreover have "asks M ?t (at v (Testing q (part_handles r q)) ?t)"
    using reach_testing [OF ask_inv_reaches [OF t s(1)], where u = v and p = q and M = M] s(2,3) q uv by simp
  ultimately show ?thesis by (rule rtranclp_trans)
qed

lemma part_handles_meet:
  assumes at: "receiver_at (r, h)" and p: "0 \<le> p" "p < local_parts r" and q: "0 \<le> q" "q < local_parts r"
  shows "set (part_handles r p) \<inter> set (part_handles r q) \<noteq> {}
    \<longleftrightarrow> (\<exists>i. 0 \<le> i \<and> i < parts r \<and> p \<in> deps (local_parts r) (parts r) i \<and> q \<in> deps (local_parts r) (parts r) i)"
proof -
  note R = receiver_atD [OF at]
  have "i = j" if "0 \<le> i" "i < parts r" "0 \<le> j" "j < parts r" "handles r ! nat i = handles r ! nat j" for i j
    using that nth_eq_iff_index_eq [OF setup_okD(7) [OF R(1)], of "nat i" "nat j"] setup_okD(6) [OF R(1)] by auto
  then show ?thesis
    unfolding set_part_handles [OF R(1,2) p] set_part_handles [OF R(1,2) q] by blast
qed

lemma common_message_iff:
  assumes al: "aligned lp n" and p: "0 \<le> p" "p < lp" and q: "0 \<le> q" "q < lp"
  shows "(\<exists>i. 0 \<le> i \<and> i < n \<and> p \<in> deps lp n i \<and> q \<in> deps lp n i)
    \<longleftrightarrow> (if lp \<le> n then p = q else p div (lp div n) = q div (lp div n))" (is "?L \<longleftrightarrow> ?R")
proof
  assume ?L
  then obtain i where i: "p \<in> deps lp n i" "q \<in> deps lp n i" by blast
  from al show ?R
  proof (cases rule: aligned_cases)
    case (split k)
    then have "i div k = p" "i div k = q"
      using i div_eq_iff_interval [of k i] by (auto simp: deps_def net_range_def ac_simps)
    with split show ?thesis by simp
  qed (use i in \<open>auto simp: deps_def net_range_def\<close>)
next
  assume R: ?R
  obtain i where i: "0 \<le> i" "i < n" "p \<in> deps lp n i" using net.every_partition_has_a_message [OF al p] by blast
  moreover have "q \<in> deps lp n i" using R i(3) q by (auto simp: deps_def net_range_def split: if_splits)
  ultimately show ?L by blast
qed

text \<open>A late store: the test of \<open>u\<close> fails, that of \<open>v\<close> succeeds, and \<open>u\<close> stores last.\<close>

lemma late_store:
  assumes at: "receiver_at (r, h)" and uv: "u \<noteq> v" and p: "0 \<le> p" "p < local_parts r" "p \<notin> marked r" and M: "mpi_succeeds M"
    and f: "testall_flag M h (part_handles r p) = 0"
      "testall_flag M (CTestall (part_handles r p) 0 # h) (part_handles r p) = 1"
  shows "\<exists>s. asks M (nobody_asks r h) s \<and> apcs s u = Told p 0 \<and> apcs s v = Told p 1 \<and> p \<notin> marked (areq s)"
proof -
  note R = receiver_atD [OF at]
  let ?x = "part_handles r p"
  let ?k = "CTestall ?x 0 # h" and ?l = "CTestall ?x 1 # CTestall ?x 0 # h"
  obtain st where st: "blk_set (local_status r) p True = Inr st"
    using blk.put_ok [of p "local_status r"] p setup_okD(10) [OF R(1)] by metis
  let ?r = "r\<lparr>local_status := st\<rparr>"
  note S = blk_set_flag [OF R(3) p(1,2) st]
  obtain su where su: "blk_set st p False = Inr su"
    using blk.put_ok [of p st] p S(2) setup_okD(10) [OF R(1)] by metis
  let ?q = "?r\<lparr>local_status := su\<rparr>"
  have mk: "p \<notin> marked ?q" using blk_set_flag(3) [of ?r p False su] S(1) p su by simp
  define s0 where "s0 = at v (Testing p ?x) (at u (Testing p ?x) (nobody_asks r h))"
  define s1 where "s1 = at u (Tested p 0) (s0\<lparr>alog := ?k\<rparr>)"
  define s2 where "s2 = at v (Tested p 1) (s1\<lparr>alog := ?l\<rparr>)"
  define s3 where "s3 = at v (Told p 1) (s2\<lparr>areq := ?r\<rparr>)"
  define s4 where "s4 = at u (Told p 0) (s3\<lparr>areq := ?q\<rparr>)"
  note defs = s0_def s1_def s2_def s3_def s4_def nobody_asks_def
  have "asks M (nobody_asks r h) s0" unfolding s0_def by (rule both_testing [OF at uv p p])
  moreover have "ask_step M s0 s1" unfolding s1_def
    using uv f(1) MPI_Testall_succeeds [OF M, of ?x h] by (intro ask_step.test [where xs = ?x]) (simp_all add: s0_def nobody_asks_def)
  moreover have "ask_step M s1 s2" unfolding s2_def
    using uv f(2) MPI_Testall_succeeds [OF M, of ?x ?k]
    by (intro ask_step.test [where xs = ?x]) (simp_all add: s0_def s1_def nobody_asks_def)
  moreover have "ask_step M s2 s3"
    using ask_step.save [of s2 v p 1 st M] uv st by (simp add: defs)
  moreover have "ask_step M s3 s4"
    using ask_step.save [of s3 u p 0 su M] uv su by (simp add: defs)
  ultimately have "asks M (nobody_asks r h) s4" by (meson rtranclp.rtrancl_into_rtrancl)
  moreover have "apcs s4 u = Told p 0" "apcs s4 v = Told p 1" "areq s4 = ?q" using uv by (simp_all add: defs)
  ultimately show ?thesis using mk by (intro exI [of _ s4]) simp
qed

text \<open>
  C22: what concurrent calls of \<open>MPIP_Parrived\<close> do to each other. Two threads can be inside
  \<open>MPI_Testall\<close> with a common request, which the MPI standard forbids, exactly when their partitions share a
  message: with at least as many messages as partitions only if they ask for the same partition,
  otherwise also for different ones. And the results of a race differ: if a message completes
  between two tests, one thread is told 0 and the other 1, and the flag can be left cleared.
\<close>

theorem concurrent_tests_overlap:
  assumes at: "receiver_at (r, h)" and M: "mpi_succeeds M" and uv: "u \<noteq> v"
    and p: "0 \<le> p" "p < local_parts r" "p \<notin> marked r" and q: "0 \<le> q" "q < local_parts r" "q \<notin> marked r"
  shows "((\<exists>s xs ys. asks M (nobody_asks r h) s \<and> apcs s u = Testing p xs \<and> apcs s v = Testing q ys \<and> set xs \<inter> set ys \<noteq> {})
      \<longleftrightarrow> (if local_parts r \<le> parts r then p = q
           else p div (local_parts r div parts r) = q div (local_parts r div parts r)))
    \<and> (testall_flag M h (part_handles r p) = 0 \<and> testall_flag M (CTestall (part_handles r p) 0 # h) (part_handles r p) = 1
       \<longrightarrow> (\<exists>s. asks M (nobody_asks r h) s \<and> apcs s u = Told p 0 \<and> apcs s v = Told p 1 \<and> p \<notin> marked (areq s)))"
proof (intro conjI impI)
  note R = receiver_atD [OF at]
  have "(\<exists>s xs ys. asks M (nobody_asks r h) s \<and> apcs s u = Testing p xs \<and> apcs s v = Testing q ys \<and> set xs \<inter> set ys \<noteq> {})
      \<longleftrightarrow> set (part_handles r p) \<inter> set (part_handles r q) \<noteq> {}" (is "?L \<longleftrightarrow> ?R")
  proof
    assume ?L then show ?R using testing_part [OF at] by metis
  next
    assume ?R with both_testing [OF at uv p q, of M] uv show ?L
      by (intro exI [of _ "at v (Testing q (part_handles r q)) (at u (Testing p (part_handles r p)) (nobody_asks r h))"]) simp
  qed
  also have "\<dots> \<longleftrightarrow> (if local_parts r \<le> parts r then p = q
           else p div (local_parts r div parts r) = q div (local_parts r div parts r))"
    unfolding part_handles_meet [OF at p(1,2) q(1,2)] by (rule common_message_iff [OF R(2) p(1,2) q(1,2)])
  finally show "?L \<longleftrightarrow> (if local_parts r \<le> parts r then p = q
           else p div (local_parts r div parts r) = q div (local_parts r div parts r))" .
qed (use late_store [OF at uv p M] in blast)

text \<open>Two partitions in one message, which completes after the first test.\<close>

theorem concurrent_tests_overlap_witness:
  "(\<exists>s xs ys. asks (mpi_run (\<lambda>j k. None) None (\<lambda>h x. 2 \<le> length h)) (nobody_asks (demo RECEIVER 2 1) [CStartall [0]]) s
      \<and> apcs s 0 = Testing 0 xs \<and> apcs s 1 = Testing 1 ys \<and> set xs \<inter> set ys \<noteq> {})
   \<and> (\<exists>s. asks (mpi_run (\<lambda>j k. None) None (\<lambda>h x. 2 \<le> length h)) (nobody_asks (demo RECEIVER 2 1) [CStartall [0]]) s
      \<and> apcs s 0 = Told 0 0 \<and> apcs s 1 = Told 0 1 \<and> 0 \<notin> marked (areq s))"
proof -
  let ?r = "demo RECEIVER 2 1" and ?h = "[CStartall [0]]" and ?M = "mpi_run (\<lambda>j k. None) None (\<lambda>h x. 2 \<le> length h)"
  have at: "receiver_at (?r, ?h)" "marked ?r = {}" using demo_receiver_at [of 2 1 ?h] by (simp_all add: aligned_def)
  have ph: "part_handles ?r 0 = [0]" by (simp add: part_handles_def net_range_def)
  have f: "testall_flag ?M ?h [0] = 0" "testall_flag ?M (CTestall [0] 0 # ?h) [0] = 1" by (simp_all add: mpi_run_def)
  have uv: "(0 :: nat) \<noteq> 1" by simp
  note T = concurrent_tests_overlap [OF at(1) mpi_run_succeeds uv, where p = 0]
  from T [where q = 1, of "\<lambda>j k. None" None "\<lambda>h x. 2 \<le> length h"] at(2) show ?thesis by (simp add: ph f)
qed

end
