(* ===== verification/Sync_Order.thy ===== *)
theory Sync_Order
  imports Examples
begin

text \<open>
  Several requests between the same two processes whose partitioning the peer decides. The
  synchronisation messages of all of them have one tag, and each request has a background thread
  that receives one, so it is the order in which the threads run that decides which request
  gets which partitioning.
\<close>

section \<open>The synchronisation messages of a peer\<close>

text \<open>How many of them have been received from \<open>p\<close> on communicator \<open>k\<close>.\<close>

fun taken :: "int \<Rightarrow> nat \<Rightarrow> hist \<Rightarrow> nat" where
  "taken p k [] = 0"
| "taken p k (CRecv d p' t k' # h) = (if p' = p \<and> t = sync_tag \<and> k' = k then Suc (taken p k h) else taken p k h)"
| "taken p k (c # h) = taken p k h"

lemma taken_append: "taken p k (g @ h) = taken p k g + taken p k h"
proof (induction g)
  case (Cons c g)
  then show ?case by (cases c) auto
qed simp

lemma taken_init_calls [simp]: "taken p k (rev (init_calls M s mes sz xs)) = 0"
proof -
  have "taken p k (rev (map (\<lambda>i. init_call s (f i) (g i)) ks)) = 0" for f g and ks :: "nat list"
    by (induction ks) (auto simp: init_call_def taken_append)
  then show ?thesis by (simp add: init_calls_def)
qed

text \<open>
  MPI does not let messages of one peer with one tag overtake each other: the \<open>j\<close>-th receive gets
  the \<open>j\<close>-th message of the queue \<open>q\<close>, and blocks when there is none.
\<close>

definition queued :: "mpi \<Rightarrow> int \<Rightarrow> nat \<Rightarrow> (int \<times> int) list \<Rightarrow> bool" where
  "queued M p k q \<longleftrightarrow> (\<forall>h. recv_data M h p sync_tag k = (if taken p k h < length q then Some (q ! taken p k h) else None))"

section \<open>The threads of several requests\<close>

text \<open>A request whose thread has been created and has not run, before its start.\<close>

definition spawned_for :: "int \<Rightarrow> nat \<Rightarrow> mpip \<Rightarrow> bool" where
  "spawned_for p k r \<longleftrightarrow> prepared r \<and> sync_thread r = Spawned \<and> state r = INACTIVE
     \<and> partner (the_meta r) = p \<and> comm (the_meta r) = k"

text \<open>The threads of the requests run one after the other, in the order \<open>ord\<close>.\<close>

fun run_threads :: "mpi \<Rightarrow> nat list \<Rightarrow> mpip list \<times> hist \<Rightarrow> (mpip list \<times> hist) res" where
  "run_threads M [] t = Inr t"
| "run_threads M (i # ord) (rs, h) = bindE (run_thread M (rs ! i, h)) (\<lambda>(r, h). run_threads M ord (rs[i := r], h))"

lemma run_thread_queued:
  assumes r: "spawned_for p k r" and q: "queued M p k q" "taken p k h < length q" "q ! taken p k h = (n, sz)"
    and ft: "fits M (the_meta r) n sz" and M: "mpi_succeeds M" "fresh_handles M"
  shows "\<exists>r' h'. run_thread M (r, h) = Inr (r', h') \<and> parts r' = n \<and> psize r' = sz \<and> setup_ok r'
    \<and> threaded r' = FINISHED \<and> taken p k h' = Suc (taken p k h)"
proof -
  have R: "prepared r" "sync_thread r = Spawned" "state r = INACTIVE" "partner (the_meta r) = p" "comm (the_meta r) = k"
    using r by (auto simp: spawned_for_def)
  have "recv_data M h (partner (the_meta r)) sync_tag (comm (the_meta r)) = Some (n, sz)"
    using q R(4,5) by (simp add: queued_def)
  from threaded_sync_driver_eq [OF R(1) ft M this] obtain xs where xs: "threaded_sync_driver M (r, h)
      = thread_catch_up M (with_messages n sz xs r, thread_setup_log M r n sz xs h)" "setup_ok (with_messages n sz xs r)"
    by blast
  have "thread_catch_up M (with_messages n sz xs r, thread_setup_log M r n sz xs h)
      = Inr ((with_messages n sz xs r)\<lparr>threaded := FINISHED\<rparr>, thread_setup_log M r n sz xs h)"
    using setup_okD(11) [OF xs(2)] R(3) by (intro thread_catch_up_inactive) (simp_all add: with_messages_def)
  with xs R(2) have "run_thread M (r, h)
      = Inr ((with_messages n sz xs r)\<lparr>threaded := FINISHED, sync_thread := Exited\<rparr>, thread_setup_log M r n sz xs h)"
    by (simp add: run_thread_def)
  with xs(2) R(4,5) show ?thesis
    by (simp add: with_messages_def setup_ok_def thread_setup_log_def taken_append)
qed

lemma run_threads_queued:
  assumes "\<forall>i\<in>set ord. i < length rs \<and> spawned_for p k (rs ! i) \<and> (\<forall>(n, sz)\<in>set q. fits M (the_meta (rs ! i)) n sz)"
    and "distinct ord" "taken p k h + length ord \<le> length q"
    and q: "queued M p k q" and M: "mpi_succeeds M" "fresh_handles M"
  shows "\<exists>rs' h'. run_threads M ord (rs, h) = Inr (rs', h') \<and> length rs' = length rs
    \<and> (\<forall>j<length ord. (parts (rs' ! (ord ! j)), psize (rs' ! (ord ! j))) = q ! (taken p k h + j)
         \<and> setup_ok (rs' ! (ord ! j)) \<and> threaded (rs' ! (ord ! j)) = FINISHED)
    \<and> (\<forall>i. i \<notin> set ord \<longrightarrow> rs' ! i = rs ! i)"
  using assms(1-3)
proof (induction ord arbitrary: rs h)
  case (Cons i ord)
  obtain n sz where n: "q ! taken p k h = (n, sz)" by fastforce
  have lt: "taken p k h < length q" using Cons.prems(3) by simp
  then have "(n, sz) \<in> set q" using n by (metis nth_mem)
  then have i: "i < length rs" "spawned_for p k (rs ! i)" "fits M (the_meta (rs ! i)) n sz" using Cons.prems(1) by auto
  obtain r' h1 where r': "run_thread M (rs ! i, h) = Inr (r', h1)" "parts r' = n" "psize r' = sz" "setup_ok r'"
    "threaded r' = FINISHED" "taken p k h1 = Suc (taken p k h)"
    using run_thread_queued [OF i(2) q lt n i(3) M] by blast
  have "\<forall>j\<in>set ord. j < length (rs[i := r']) \<and> spawned_for p k (rs[i := r'] ! j)
      \<and> (\<forall>(n, sz)\<in>set q. fits M (the_meta (rs[i := r'] ! j)) n sz)"
    using Cons.prems(1,2) by (auto simp: nth_list_update)
  moreover have "distinct ord" "taken p k h1 + length ord \<le> length q" using Cons.prems(2,3) r'(6) by simp_all
  ultimately obtain rs' h' where rs': "run_threads M ord (rs[i := r'], h1) = Inr (rs', h')" "length rs' = length rs"
    "\<forall>j<length ord. (parts (rs' ! (ord ! j)), psize (rs' ! (ord ! j))) = q ! (taken p k h1 + j)
         \<and> setup_ok (rs' ! (ord ! j)) \<and> threaded (rs' ! (ord ! j)) = FINISHED"
    "\<forall>j. j \<notin> set ord \<longrightarrow> rs' ! j = rs[i := r'] ! j"
    using Cons.IH [of "rs[i := r']" h1] by auto
  have "rs' ! i = r'" using rs'(4) Cons.prems(2) i(1) by simp
  then have "(parts (rs' ! ((i # ord) ! j)), psize (rs' ! ((i # ord) ! j))) = q ! (taken p k h + j)
         \<and> setup_ok (rs' ! ((i # ord) ! j)) \<and> threaded (rs' ! ((i # ord) ! j)) = FINISHED"
    if "j < length (i # ord)" for j
    using that rs'(3) r' n by (cases j) auto
  moreover have "\<forall>j. j \<notin> set (i # ord) \<longrightarrow> rs' ! j = rs ! j" using rs'(4) by auto
  ultimately show ?case using r'(1) rs'(1,2) by auto
qed simp

text \<open>
  C14: the background threads of several requests between two processes take the synchronisation
  messages of the peer in the order in which they run, not in the order of the requests: with \<open>q\<close> the
  partitionings of the requests in the order in which the peer has sent them, the thread that runs
  \<open>j\<close>-th gives its request the \<open>j\<close>-th. If the partitionings differ, all requests get their own only
  when the threads run in the order of the requests, which nothing in the code enforces.
\<close>

theorem threads_take_messages_in_run_order:
  assumes rs: "\<forall>r\<in>set rs. spawned_for p k r \<and> (\<forall>(n, sz)\<in>set q. fits M (the_meta r) n sz)"
    and ord: "distinct ord" "set ord = {..<length rs}" and h: "taken p k h = 0" and q: "queued M p k q" "length q = length rs" "distinct q"
    and M: "mpi_succeeds M" "fresh_handles M"
  shows "\<exists>rs' h'. run_threads M ord (rs, h) = Inr (rs', h')
    \<and> (\<forall>j<length ord. (parts (rs' ! (ord ! j)), psize (rs' ! (ord ! j))) = q ! j \<and> setup_ok (rs' ! (ord ! j)))
    \<and> ((\<forall>i<length rs. (parts (rs' ! i), psize (rs' ! i)) = q ! i) \<longleftrightarrow> ord = [0..<length rs])"
proof -
  have len: "length ord = length rs" using distinct_card [OF ord(1)] ord(2) by simp
  obtain rs' h' where r: "run_threads M ord (rs, h) = Inr (rs', h')"
    "\<forall>j<length ord. (parts (rs' ! (ord ! j)), psize (rs' ! (ord ! j))) = q ! j \<and> setup_ok (rs' ! (ord ! j))"
    using run_threads_queued [of ord rs p k q M h] rs ord h q(1,2) len M by auto
  have "(\<forall>i<length rs. (parts (rs' ! i), psize (rs' ! i)) = q ! i) \<longleftrightarrow> ord = [0..<length rs]"
  proof
    assume own: "\<forall>i<length rs. (parts (rs' ! i), psize (rs' ! i)) = q ! i"
    show "ord = [0..<length rs]"
    proof (rule nth_equalityI)
      fix j assume j: "j < length ord"
      then have "ord ! j < length rs" using ord(2) nth_mem by fastforce
      with own r(2) j have "q ! (ord ! j) = q ! j" by metis
      with q(2,3) j len \<open>ord ! j < length rs\<close> have "ord ! j = j" by (simp add: nth_eq_iff_index_eq)
      with j len show "ord ! j = [0..<length rs] ! j" by simp
    qed (simp add: len)
  qed (use r(2) len in auto)
  with r show ?thesis by blast
qed

theorem threads_take_messages_in_run_order_witness:
  "\<exists>rs' h'. run_threads (mpi_done\<lparr>recv_data := \<lambda>h p t k. if taken p k h < 2 then Some ([(2, 1), (4, 1)] ! taken p k h) else None\<rparr>)
      [1, 0] (replicate 2 ((demo_waiting RECEIVER 4)\<lparr>state := INACTIVE\<rparr>), []) = Inr (rs', h')
    \<and> parts (rs' ! 0) = 4 \<and> parts (rs' ! 1) = 2"
proof -
  let ?r = "(demo_waiting RECEIVER 4)\<lparr>state := INACTIVE\<rparr>" and ?q = "[(2, 1), (4, 1)] :: (int \<times> int) list"
  let ?M = "mpi_done\<lparr>recv_data := \<lambda>h p t k. if taken p k h < 2 then Some (?q ! taken p k h) else None\<rparr>"
  have M: "mpi_succeeds ?M" "fresh_handles ?M" "queued ?M 1 0 ?q"
    using mpi_run_succeeds [of "\<lambda>j k. None" None "\<lambda>h x. True"] mpi_run_fresh [of "\<lambda>j k. None" None "\<lambda>h x. True"]
    by (simp_all add: mpi_succeeds_def fresh_handles_def queued_def)
  have "\<forall>(n, sz)\<in>set ?q. fits ?M (the_meta ?r) n sz"
    by (simp add: demo_waiting_def demo_def demo_meta_def fits_def)
  moreover have "spawned_for 1 0 ?r"
    by (simp add: spawned_for_def prepared_def demo_waiting_def demo_def demo_meta_def)
  ultimately have rs: "\<forall>r\<in>set (replicate 2 ?r). spawned_for 1 0 r \<and> (\<forall>(n, sz)\<in>set ?q. fits ?M (the_meta r) n sz)"
    by simp
  have ord: "distinct [1, 0 :: nat]" "set [1, 0] = {..<length (replicate 2 ?r)}" by auto
  obtain rs' h' where r: "run_threads ?M [1, 0] (replicate 2 ?r, []) = Inr (rs', h')"
    "\<forall>j<length [1, 0 :: nat]. (parts (rs' ! ([1, 0] ! j)), psize (rs' ! ([1, 0] ! j))) = ?q ! j \<and> setup_ok (rs' ! ([1, 0] ! j))"
    using threads_take_messages_in_run_order [OF rs ord _ M(3) _ _ M(1,2), of "[]"] by auto
  from r(2) [rule_format, of 0] r(2) [rule_format, of 1] have "parts (rs' ! 1) = 2" "parts (rs' ! 0) = 4" by simp_all
  with r(1) show ?thesis by blast
qed

end
