(* ===== verification/Init_Limits.thy ===== *)
theory Init_Limits
  imports Setup_Properties
begin

text \<open>
  The limits of the init functions: the element count is stored in an \<open>int\<close>, the product of
  partitions and elements is computed in \<open>int\<close>, the synchronisation of the two sides depends
  on both of them naming the same side under \<open>PMODE\<close>, and not every info object can be read.
\<close>

section \<open>The element count\<close>

lemma int32_of_twice [simp]: "int32_of (int32_of c) = int32_of c"
  using int32_of_range [of c] by (intro int32_of_id) auto

lemma int32_of_congruent: "(c - int32_of c) mod 4294967296 = 0"
proof -
  have "(c - int32_of c) = ((c + 2147483648) - (c + 2147483648) mod 4294967296)" by (simp add: int32_of_def)
  then show ?thesis by (simp add: minus_mod_eq_mult_div)
qed

lemma init_request_narrows:
  "init_request s M buf n count ty peer tg cm info t = init_request s M buf n (int32_of count) ty peer tg cm info t"
  by (cases t) (simp add: init_request_eq prepped_def prep_def)

lemma init_overflows:
  assumes k: "settled M info = Some k" and n: "0 < n" and over: "INT_MAX < n * int32_of count"
  shows "init_request s M buf n count ty peer tg cm info (r, h) = Inl (Undefined SignedOverflow)"
  using over by (simp add: init_request_eq sync_driver_settled [OF k] sync_hard_def c_mul_def chk_int_def)

text \<open>
  C27: the init functions use the count only modulo \<open>2 ^ 32\<close>, as the \<open>int\<close> it is narrowed to. When
  they settle the number of messages themselves, and that \<open>int\<close> is not negative, they succeed if
  and only if the number of elements \<open>n * c\<close> of the buffer fits in \<open>int\<close> too, given that the messages
  fit: the request then transfers \<open>n * c\<close> elements less the remainder, whatever count was asked for;
  otherwise a signed multiplication overflows.
\<close>

theorem count_is_narrowed:
  assumes n: "0 < n" "n \<le> INT_MAX" and c: "c = int32_of count" "0 \<le> c" and k: "settled M info = Some k"
    and ft: "n * c \<le> INT_MAX \<Longrightarrow> fits M \<lparr>buff = buf, partner = peer, tag = tg, comm = cm, mtype = ty\<rparr> k (n * c div k)"
    and M: "mpi_succeeds M" "fresh_handles M"
  shows "(count - c) mod 4294967296 = 0
    \<and> init_request s M buf n count ty peer tg cm info t = init_request s M buf n c ty peer tg cm info t
    \<and> (if n * c \<le> INT_MAX
       then \<exists>q h'. init_request s M buf n count ty peer tg cm info (r, h) = Inr (q, h')
            \<and> parts q = k \<and> parts q * psize q + (n * c) mod k = n * c
       else init_request s M buf n count ty peer tg cm info (r, h) = Inl (Undefined SignedOverflow))"
proof (intro conjI)
  show "(count - c) mod 4294967296 = 0" using int32_of_congruent c by simp
  show "init_request s M buf n count ty peer tg cm info t = init_request s M buf n c ty peer tg cm info t"
    unfolding c(1) by (rule init_request_narrows)
  show "if n * c \<le> INT_MAX
       then \<exists>q h'. init_request s M buf n count ty peer tg cm info (r, h) = Inr (q, h')
            \<and> parts q = k \<and> parts q * psize q + (n * c) mod k = n * c
       else init_request s M buf n count ty peer tg cm info (r, h) = Inl (Undefined SignedOverflow)"
  proof (cases "n * c \<le> INT_MAX")
    case True
    let ?r = "prepped s buf n count ty peer tg cm r"
    have "prepared ?r" "local_size ?r = c" using prepped_prepared n c by auto
    with hard_setup [OF this(1) settled_pos [OF k], of M "lookups M info @ h"] c ft [OF True] True M
    show ?thesis by (auto simp: init_request_eq sync_driver_settled [OF k])
  qed (use init_overflows [OF k n(1), of count] c in auto)
qed

text \<open>Four partitions of \<open>2 ^ 32 + 5\<close> elements are 20 elements; two of \<open>2 ^ 30\<close> elements overflow.\<close>

theorem count_is_narrowed_witness:
  "(\<exists>q h'. MPIP_Psend_init mpi_done 0 4 4294967301 0 1 7 0 MPI_INFO_NULL (blank, []) = Inr (q, h') \<and> parts q * psize q = 20)
   \<and> MPIP_Psend_init mpi_done 0 2 1073741824 0 1 7 0 MPI_INFO_NULL (blank, []) = Inl (Undefined SignedOverflow)"
proof -
  have k: "settled mpi_done MPI_INFO_NULL = Some 1" by (simp add: settled_def)
  have ft: "fits mpi_done \<lparr>buff = 0, partner = 1, tag = 7, comm = 0, mtype = 0\<rparr> 1 20" by (simp add: fits_def)
  have c: "int32_of 4294967301 = 5" "int32_of 1073741824 = 1073741824" by (simp_all add: int32_of_def)
  from count_is_narrowed [of 4 5 4294967301 mpi_done MPI_INFO_NULL 1 0 1 7 0 0 SENDER "(blank, [])" blank "[]"] k ft c(1)
  have "\<exists>q h'. MPIP_Psend_init mpi_done 0 4 4294967301 0 1 7 0 MPI_INFO_NULL (blank, []) = Inr (q, h') \<and> parts q * psize q = 20"
    by (simp only: init_request_def) fastforce
  moreover have "MPIP_Psend_init mpi_done 0 2 1073741824 0 1 7 0 MPI_INFO_NULL (blank, []) = Inl (Undefined SignedOverflow)"
    using count_is_narrowed [of 2 1073741824 1073741824 mpi_done MPI_INFO_NULL 1 0 1 7 0 0 SENDER "(blank, [])" blank "[]"] k c(2)
    by (simp add: init_request_def)
  ultimately show ?thesis by blast
qed

section \<open>Two different modes\<close>

text \<open>The side that is not named waits for a message; without one its thread stays in the receive.\<close>

lemma waiting_side:
  assumes n: "0 < n" "n \<le> INT_MAX" and i: "info_get M i ''PMODE'' 20 = Some (mode_of (not_side s))"
    and silent: "recv_data M (CInfoGet i ''PMODE'' # h) peer sync_tag cm = None"
  shows "\<exists>q. init_request s M buf n count ty peer tg cm (Info i) (r, h) = Inr (q, CInfoGet i ''PMODE'' # h)
    \<and> run_thread M (q, CInfoGet i ''PMODE'' # h) = Inl Blocked
    \<and> MPIP_Start M (q, CInfoGet i ''PMODE'' # h) = Inr (MPI_SUCCESS, q\<lparr>state := ACTIVE\<rparr>, CInfoGet i ''PMODE'' # h)
    \<and> MPIP_Wait M (q\<lparr>state := ACTIVE\<rparr>, CInfoGet i ''PMODE'' # h) = Inl Blocked"
proof -
  let ?h = "CInfoGet i ''PMODE'' # h" and ?q = "set_running (pthread_create (prepped s buf n count ty peer tg cm r))"
  have q: "prepared ?q" "side ?q = s" "threaded ?q = RUNNING" "sync_thread ?q = Spawned"
    using prepped_prepared [OF n, of s buf count ty peer tg cm r]
    by (simp_all add: set_running_def pthread_create_def prepared_def)
  have "run_thread M (?q, ?h) = Inl Blocked" "run_thread M (?q\<lparr>state := ACTIVE\<rparr>, ?h) = Inl Blocked"
    using silent not_side_neq
    by (simp_all add: run_thread_def threaded_sync_driver_def sync_side_def set_running_def pthread_create_def)
  then show ?thesis
    using q preparedD(5) [OF q(1)] not_side_neq
    by (intro exI [of _ ?q]) (simp add: init_request_eq sync_driver_side [OF i] MPIP_Start_running MPIP_Wait_def
        pthread_join_def set_running_def pthread_create_def)
qed

text \<open>
  The side that is named sends its partitioning with a blocking send. If that returns, the side goes
  on with its own numbers, whatever the other side does.
\<close>

lemma driving_side:
  assumes n: "0 < n" "n \<le> INT_MAX" "0 \<le> count" "count \<le> INT_MAX"
    and i: "info_get M i ''PMODE'' 20 = Some (mode_of s)"
    and ft: "fits M \<lparr>buff = buf, partner = peer, tag = tg, comm = cm, mtype = ty\<rparr> n count"
    and M: "mpi_succeeds M" "fresh_handles M"
    and snd: "send_ret M (CInfoGet i ''PMODE'' # h) peer sync_tag cm"
  shows "\<exists>q h'. init_request s M buf n count ty peer tg cm (Info i) (r, h) = Inr (q, h') \<and> setup_ok q
    \<and> parts q = n \<and> psize q = count \<and> threaded q = NONE
    \<and> CSend [n, count] peer sync_tag cm \<in> set h'
    \<and> (\<forall>a b p t c. CRecv [a, b] p t c \<in> set h' \<longleftrightarrow> CRecv [a, b] p t c \<in> set h)"
proof -
  let ?p = "prepped s buf n count ty peer tg cm r"
  have p: "prepared ?p" "local_size ?p = count" using prepped_prepared n by (auto simp: int32_of_id)
  with driver_setup [OF p(1), of s M "CInfoGet i ''PMODE'' # h"] ft M snd
  obtain q h' where "bindE (sync_side M s (?p, CInfoGet i ''PMODE'' # h)) (internal_setup M) = Inr (q, h')"
    "set_up M (CSend [n, count] peer sync_tag cm # CInfoGet i ''PMODE'' # h) ?p q h'" "parts q = n" "psize q = count"
    by auto
  then show ?thesis
    by (auto simp: init_request_eq sync_driver_side [OF i] set_up_def init_calls_def init_call_def)
qed

lemma driving_side_blocked:
  assumes n: "0 < n" "n \<le> INT_MAX" and i: "info_get M i ''PMODE'' 20 = Some (mode_of s)"
    and snd: "\<not> send_ret M (CInfoGet i ''PMODE'' # h) peer sync_tag cm"
  shows "init_request s M buf n count ty peer tg cm (Info i) (r, h) = Inl Blocked"
proof -
  let ?p = "prepped s buf n count ty peer tg cm r"
  have "prepared ?p" using prepped_prepared n by simp
  with snd show ?thesis by (simp add: init_request_eq sync_driver_side [OF i] sync_side_def)
qed

text \<open>
  C15: what happens when the two sides name different sides under \<open>PMODE\<close>. If each names the
  other, neither sends its partitioning: both init functions and both starts return, both
  background threads stay in their receive and \<open>MPIP_Wait\<close> never returns. If each names itself,
  each init function sends the side's partitioning with a blocking send that no receive ever
  matches: it stays there for ever unless MPI buffers the message, which MPI does not promise. If it
  does, the init function succeeds with its own numbers, has received nothing, and the messages of the
  two sides correspond only if the numbers happen to be equal. The last hypotheses say that
  nothing is received that has not been sent.
\<close>

theorem modes_have_to_agree:
  assumes n: "0 < n" "n \<le> INT_MAX" "0 \<le> count" "count \<le> INT_MAX" "0 < n'" "n' \<le> INT_MAX" "0 \<le> count'" "count' \<le> INT_MAX"
    and i: "info_get M i ''PMODE'' 20 = Some (mode_of d)" "info_get M' j ''PMODE'' 20 = Some (mode_of (not_side d))"
    and ft: "fits M \<lparr>buff = buf, partner = peer, tag = tg, comm = cm, mtype = ty\<rparr> n count"
      "fits M' \<lparr>buff = buf', partner = peer', tag = tg, comm = cm, mtype = ty\<rparr> n' count'"
    and M: "mpi_succeeds M" "fresh_handles M" "mpi_succeeds M'" "fresh_handles M'"
    and silent: "(\<forall>q h. init_request RECEIVER M' buf' n' count' ty peer' tg cm (Info j) (r', []) = Inr (q, h)
          \<longrightarrow> (\<forall>a b p. CSend [a, b] p sync_tag cm \<notin> set h)) \<Longrightarrow> recv_data M [CInfoGet i ''PMODE''] peer sync_tag cm = None"
      "(\<forall>q h. init_request SENDER M buf n count ty peer tg cm (Info i) (r, []) = Inr (q, h)
          \<longrightarrow> (\<forall>a b p. CSend [a, b] p sync_tag cm \<notin> set h)) \<Longrightarrow> recv_data M' [CInfoGet j ''PMODE''] peer' sync_tag cm = None"
  shows "if d = RECEIVER
    then \<exists>q q'. init_request SENDER M buf n count ty peer tg cm (Info i) (r, []) = Inr (q, [CInfoGet i ''PMODE''])
        \<and> init_request RECEIVER M' buf' n' count' ty peer' tg cm (Info j) (r', []) = Inr (q', [CInfoGet j ''PMODE''])
        \<and> run_thread M (q, [CInfoGet i ''PMODE'']) = Inl Blocked \<and> run_thread M' (q', [CInfoGet j ''PMODE'']) = Inl Blocked
        \<and> bindE (MPIP_Start M (q, [CInfoGet i ''PMODE''])) (\<lambda>(_, t). MPIP_Wait M t) = Inl Blocked
        \<and> bindE (MPIP_Start M' (q', [CInfoGet j ''PMODE''])) (\<lambda>(_, t). MPIP_Wait M' t) = Inl Blocked
    else (if send_ret M [CInfoGet i ''PMODE''] peer sync_tag cm
          then \<exists>q h. init_request SENDER M buf n count ty peer tg cm (Info i) (r, []) = Inr (q, h)
            \<and> setup_ok q \<and> parts q = n \<and> psize q = count \<and> CSend [n, count] peer sync_tag cm \<in> set h
            \<and> (\<forall>a b p t c. CRecv [a, b] p t c \<notin> set h)
          else init_request SENDER M buf n count ty peer tg cm (Info i) (r, []) = Inl Blocked)
      \<and> (if send_ret M' [CInfoGet j ''PMODE''] peer' sync_tag cm
          then \<exists>q h. init_request RECEIVER M' buf' n' count' ty peer' tg cm (Info j) (r', []) = Inr (q, h)
            \<and> setup_ok q \<and> parts q = n' \<and> psize q = count' \<and> CSend [n', count'] peer' sync_tag cm \<in> set h
            \<and> (\<forall>a b p t c. CRecv [a, b] p t c \<notin> set h)
          else init_request RECEIVER M' buf' n' count' ty peer' tg cm (Info j) (r', []) = Inl Blocked)"
proof (cases d)
  case RECEIVER
  have init: "init_request s N b k c ty p tg cm (Info x) (u, []) = Inr (set_running (pthread_create (prepped s b k c ty p tg cm u)), [CInfoGet x ''PMODE''])"
    if "info_get N x ''PMODE'' 20 = Some (mode_of (not_side s))" for s N b k c p x u
    using that not_side_neq by (simp add: init_request_eq sync_driver_side)
  have m: "info_get M i ''PMODE'' 20 = Some (mode_of (not_side SENDER))" "info_get M' j ''PMODE'' 20 = Some (mode_of (not_side RECEIVER))"
    using i RECEIVER by simp_all
  have S: "recv_data M [CInfoGet i ''PMODE''] peer sync_tag cm = None" "recv_data M' [CInfoGet j ''PMODE''] peer' sync_tag cm = None"
    using silent init [OF m(2)] init [OF m(1)] by simp_all
  show ?thesis
    using waiting_side [OF n(1,2) m(1), of "[]" peer cm buf count ty tg r] S(1)
      waiting_side [OF n(5,6) m(2), of "[]" peer' cm buf' count' ty tg r'] S(2) RECEIVER by auto
next
  case SENDER
  then have m: "info_get M i ''PMODE'' 20 = Some (mode_of SENDER)" "info_get M' j ''PMODE'' 20 = Some (mode_of RECEIVER)"
    using i by simp_all
  show ?thesis
    using driving_side [OF n(1-4) m(1) ft(1) M(1,2), of "[]" r] driving_side_blocked [OF n(1,2) m(1), of "[]" peer cm buf count ty tg r]
      driving_side [OF n(5-8) m(2) ft(2) M(3,4), of "[]" r'] driving_side_blocked [OF n(5,6) m(2), of "[]" peer' cm buf' count' ty tg r'] SENDER
    by auto
qed

text \<open>
  Each side names the other; and each names itself, where the send of the sender is buffered and that
  of the receiver is not.
\<close>

theorem modes_have_to_agree_witness:
  "(\<exists>q q'. MPIP_Psend_init (mpi_run (\<lambda>j k. Some ''RECEIVER'') None (\<lambda>h x. True)) 0 4 5 0 1 7 0 (Info 0) (blank, []) = Inr (q, [CInfoGet 0 ''PMODE''])
     \<and> MPIP_Precv_init (mpi_run (\<lambda>j k. Some ''SENDER'') None (\<lambda>h x. True)) 0 2 10 0 0 7 0 (Info 0) (blank, []) = Inr (q', [CInfoGet 0 ''PMODE''])
     \<and> run_thread (mpi_run (\<lambda>j k. Some ''RECEIVER'') None (\<lambda>h x. True)) (q, [CInfoGet 0 ''PMODE'']) = Inl Blocked
     \<and> run_thread (mpi_run (\<lambda>j k. Some ''SENDER'') None (\<lambda>h x. True)) (q', [CInfoGet 0 ''PMODE'']) = Inl Blocked)
   \<and> (\<exists>q h. MPIP_Psend_init (mpi_run (\<lambda>j k. Some ''SENDER'') None (\<lambda>h x. True)) 0 4 5 0 1 7 0 (Info 0) (blank, []) = Inr (q, h) \<and> parts q = 4)
   \<and> MPIP_Precv_init ((mpi_run (\<lambda>j k. Some ''RECEIVER'') None (\<lambda>h x. True))\<lparr>send_ret := \<lambda>h p t k. False\<rparr>) 0 2 10 0 0 7 0 (Info 0) (blank, []) = Inl Blocked"
proof -
  let ?R = "mpi_run (\<lambda>j k. Some ''RECEIVER'') None (\<lambda>h x. True)" and ?S = "mpi_run (\<lambda>j k. Some ''SENDER'') None (\<lambda>h x. True)"
  let ?U = "?R\<lparr>send_ret := \<lambda>h p t k. False\<rparr>"
  have ft: "fits ?R \<lparr>buff = 0, partner = 1, tag = 7, comm = 0, mtype = 0\<rparr> 4 5" "fits ?S \<lparr>buff = 0, partner = 1, tag = 7, comm = 0, mtype = 0\<rparr> 4 5"
    "fits ?S \<lparr>buff = 0, partner = 0, tag = 7, comm = 0, mtype = 0\<rparr> 2 10" "fits ?U \<lparr>buff = 0, partner = 0, tag = 7, comm = 0, mtype = 0\<rparr> 2 10"
    by (simp_all add: fits_def)
  have i: "info_get ?R 0 ''PMODE'' 20 = Some (mode_of RECEIVER)" "info_get ?S 0 ''PMODE'' 20 = Some (mode_of (not_side RECEIVER))"
    "info_get ?S 0 ''PMODE'' 20 = Some (mode_of SENDER)" "info_get ?U 0 ''PMODE'' 20 = Some (mode_of (not_side SENDER))"
    by (simp_all add: mode_of_def)
  have U: "mpi_succeeds ?U" "fresh_handles ?U"
    using mpi_run_fresh [of "\<lambda>j k. Some ''RECEIVER''" None "\<lambda>h x. True"] by (simp_all add: mpi_succeeds_def fresh_handles_def)
  have "\<exists>q q'. MPIP_Psend_init ?R 0 4 5 0 1 7 0 (Info 0) (blank, []) = Inr (q, [CInfoGet 0 ''PMODE''])
     \<and> MPIP_Precv_init ?S 0 2 10 0 0 7 0 (Info 0) (blank, []) = Inr (q', [CInfoGet 0 ''PMODE''])
     \<and> run_thread ?R (q, [CInfoGet 0 ''PMODE'']) = Inl Blocked \<and> run_thread ?S (q', [CInfoGet 0 ''PMODE'']) = Inl Blocked"
    using modes_have_to_agree [OF _ _ _ _ _ _ _ _ i(1,2) ft(1,3), of blank blank] by (auto simp: init_request_def)
  moreover have "(\<exists>q h. MPIP_Psend_init ?S 0 4 5 0 1 7 0 (Info 0) (blank, []) = Inr (q, h) \<and> parts q = 4)
     \<and> MPIP_Precv_init ?U 0 2 10 0 0 7 0 (Info 0) (blank, []) = Inl Blocked"
    using modes_have_to_agree [OF _ _ _ _ _ _ _ _ i(3,4) ft(2,4) mpi_run_succeeds mpi_run_fresh U, of blank blank] by (auto simp: init_request_def)
  ultimately show ?thesis by blast
qed

section \<open>Every info object\<close>

text \<open>Bounds under which the messages fit whatever number of them is settled.\<close>

lemma scale_below:
  fixes a b c :: int
  assumes "0 \<le> c" "a \<le> b" "b * c < 2 ^ 63"
  shows "a * c < 2 ^ 63"
  using mult_right_mono [OF assms(2,1)] assms(3) by linarith

lemma fits_any_number:
  assumes N: "0 \<le> N" "N \<le> INT_MAX" "N * type_extent M (mtype mes) < 2 ^ 63" and e: "0 \<le> type_extent M (mtype mes)"
    and t: "0 \<le> tag mes" "tag mes + 10 ^ 9 \<le> INT_MAX" and k: "0 < k" "k < 10 ^ 9"
  shows "fits M mes k (N div k)"
proof -
  have d: "0 \<le> N div k" using N(1) k(1) by (simp add: pos_imp_zdiv_nonneg_iff)
  then have "(k - 1) * (N div k) \<le> k * (N div k)" by (intro mult_right_mono) simp_all
  also have "\<dots> \<le> N" using pos_mod_sign [OF k(1), of N] by (simp add: minus_mod_eq_mult_div [symmetric])
  finally have le: "(k - 1) * (N div k) \<le> N" .
  with scale_below [OF e le N(3)] d N(2) e t k show ?thesis by (simp add: fits_def)
qed

lemma fits_own_number:
  assumes n: "0 < n" "0 \<le> count" "n * count \<le> INT_MAX" "n * count * type_extent M (mtype mes) < 2 ^ 63"
    and e: "0 \<le> type_extent M (mtype mes)" and t: "0 \<le> tag mes" "tag mes + n \<le> INT_MAX"
  shows "fits M mes n count"
proof -
  have le: "(n - 1) * count \<le> n * count" using n(2) by (intro mult_right_mono) simp_all
  with scale_below [OF e le n(4)] n e t show ?thesis by (simp add: fits_def)
qed

text \<open>The sides of the synchronisation are different words, and neither is \<open>HARD\<close>.\<close>

lemma mode_of_facts:
  "length (mode_of s) < 10" "mode_of s \<noteq> mode_of (not_side s)" "mode_of s \<noteq> ''HARD''" "mode_of s \<in> {''SENDER'', ''RECEIVER''}"
  by (cases s; simp add: mode_of_def)+

lemma mode_cases: "v = ''SENDER'' \<or> v = ''RECEIVER'' \<longleftrightarrow> v = mode_of s \<or> v = mode_of (not_side s)"
  by (cases s) (auto simp: mode_of_def)

text \<open>
  C28: what the init functions do with an info object, for every content of it. Without \<open>PMODE\<close> they
  compare an uninitialised string; a value of \<open>PMODE\<close>, or of \<open>SET\<close> where it is read, of ten or more
  characters is written past the end of a buffer; \<open>HARD\<close> without \<open>SET\<close> fails an assertion. In all
  other cases they return, unless the synchronisation message of the named side is never received:
  with as many messages as partitions on the named side, with a running thread on the other side, with
  the number under \<open>SET\<close>, which never overflows, or 1 when it is not positive, and with 1 message in an
  unknown mode. The bounds make every number of messages a \<open>SET\<close> of nine characters can ask for fit.
\<close>

theorem info_object_outcome:
  assumes n: "0 < n" "0 \<le> count" "n * count \<le> INT_MAX" "n * count * type_extent M ty < 2 ^ 63" "0 \<le> type_extent M ty"
    and t: "0 \<le> tg" "tg + n \<le> INT_MAX" "tg + 10 ^ 9 \<le> INT_MAX" and M: "mpi_succeeds M" "fresh_handles M"
  shows "case info_get M i ''PMODE'' 20 of
      None \<Rightarrow> init_request s M buf n count ty peer tg cm (Info i) (r, h) = Inl (Undefined UninitRead)
    | Some mode \<Rightarrow>
        if 10 \<le> length mode
        then init_request s M buf n count ty peer tg cm (Info i) (r, h) = Inl (Undefined BufferOverflow)
        else if mode = mode_of s
        then if send_ret M (CInfoGet i ''PMODE'' # h) peer sync_tag cm
          then \<exists>q h'. init_request s M buf n count ty peer tg cm (Info i) (r, h) = Inr (q, h')
            \<and> setup_ok q \<and> parts q = n \<and> psize q = count \<and> threaded q = NONE
          else init_request s M buf n count ty peer tg cm (Info i) (r, h) = Inl Blocked
        else if mode = mode_of (not_side s)
        then \<exists>q. init_request s M buf n count ty peer tg cm (Info i) (r, h) = Inr (q, CInfoGet i ''PMODE'' # h)
            \<and> threaded q = RUNNING \<and> sync_thread q = Spawned
        else if mode = ''HARD''
        then case info_get M i ''SET'' 20 of
            None \<Rightarrow> init_request s M buf n count ty peer tg cm (Info i) (r, h) = Inl AssertFailed
          | Some v \<Rightarrow>
              if 10 \<le> length v
              then init_request s M buf n count ty peer tg cm (Info i) (r, h) = Inl (Undefined BufferOverflow)
              else \<exists>q h' k. init_request s M buf n count ty peer tg cm (Info i) (r, h) = Inr (q, h') \<and> atoi v = Inr k
                \<and> setup_ok q \<and> parts q = (if k \<le> 0 then 1 else k) \<and> threaded q = NONE
        else \<exists>q h'. init_request s M buf n count ty peer tg cm (Info i) (r, h) = Inr (q, h')
            \<and> setup_ok q \<and> parts q = 1 \<and> threaded q = NONE"
    (is "case _ of None \<Rightarrow> ?init = _ | Some mode \<Rightarrow> ?some mode")
proof -
  let ?mes = "\<lparr>buff = buf, partner = peer, tag = tg, comm = cm, mtype = ty\<rparr>"
  have n': "n \<le> INT_MAX" "count \<le> INT_MAX" using t count_bounds [OF n(1-3)] by simp_all
  have N: "0 \<le> n * count" using n(1,2) by simp
  have settles: "\<exists>q h'. ?init = Inr (q, h') \<and> setup_ok q \<and> parts q = k \<and> threaded q = NONE"
    if k: "settled M (Info i) = Some k" "k < 10 ^ 9" for k
  proof -
    have "fits M ?mes k (n * count div k)"
      using fits_any_number [OF N n(3), of M ?mes k] n(4,5) t settled_pos [OF k(1)] k(2) by simp
    from init_settled [OF n(1) n'(1) n(2,3) k(1) this M, of s r h] show ?thesis by (auto simp: set_up_def)
  qed
  consider "info_get M i ''PMODE'' 20 = None" | v where "info_get M i ''PMODE'' 20 = Some v" "10 \<le> length v"
    | "info_get M i ''PMODE'' 20 = Some (mode_of s)" | "info_get M i ''PMODE'' 20 = Some (mode_of (not_side s))"
    | "info_get M i ''PMODE'' 20 = Some ''HARD''"
    | v where "info_get M i ''PMODE'' 20 = Some v" "length v < 10" "v \<noteq> mode_of s" "v \<noteq> mode_of (not_side s)" "v \<noteq> ''HARD''"
    by (cases "info_get M i ''PMODE'' 20") (auto, meson not_less)
  then show ?thesis
  proof cases
    case 1
    then show ?thesis by (simp add: init_request_eq sync_driver_no_mode)
  next
    case (2 v)
    then show ?thesis by (simp add: init_request_eq sync_driver_long_mode)
  next
    case 3
    have ft: "fits M ?mes n count" using fits_own_number [of n count M ?mes] n t by simp
    show ?thesis
    proof (cases "send_ret M (CInfoGet i ''PMODE'' # h) peer sync_tag cm")
      case True
      from driving_side [OF n(1) n'(1) n(2) n'(2) 3 ft M True, of r] True 3 mode_of_facts(1) [of s]
      show ?thesis by auto
    next
      case False
      from driving_side_blocked [OF n(1) n'(1) 3 False] False 3 mode_of_facts(1) [of s] show ?thesis by simp
    qed
  next
    case 4
    have "?init = Inr (set_running (pthread_create (prepped s buf n count ty peer tg cm r)), CInfoGet i ''PMODE'' # h)"
      using not_side_neq [of s] by (simp add: init_request_eq sync_driver_side [OF 4])
    with 4 mode_of_facts(1) [of "not_side s"] mode_of_facts(2) [of s] show ?thesis
      by (simp add: set_running_def pthread_create_def)
  next
    case 5
    note hd = mode_of_facts(3) [of s] mode_of_facts(3) [of "not_side s"]
    show ?thesis
    proof (cases "info_get M i ''SET'' 20")
      case None
      with 5 hd show ?thesis by (simp add: init_request_eq sync_driver_no_set)
    next
      case (Some v)
      show ?thesis
      proof (cases "10 \<le> length v")
        case True
        then have "?init = Inl (Undefined BufferOverflow)"
          using 5 Some by (simp add: init_request_eq sync_driver_def info_read_def)
        with True 5 Some hd show ?thesis by simp
      next
        case False
        then obtain k where k: "atoi v = Inr k" "k < 10 ^ 9" using atoi_short [of v] by auto
        then have "settled M (Info i) = Some (if k \<le> 0 then 1 else k)" using 5 Some False by (simp add: settled_def clamp_set_def)
        from settles [OF this] k False 5 Some hd show ?thesis by simp
      qed
    qed
  next
    case (6 v)
    then have "settled M (Info i) = Some 1" using mode_cases [of v s] by (simp add: settled_def)
    from settles [OF this] 6 show ?thesis by simp
  qed
qed

text \<open>Without \<open>PMODE\<close>; with a \<open>SET\<close> of ten digits; and with a \<open>SET\<close> of white space and 12.\<close>

theorem info_object_outcome_witness:
  "MPIP_Psend_init mpi_done 0 4 6 0 1 7 0 (Info 0) (blank, []) = Inl (Undefined UninitRead)
    \<and> MPIP_Psend_init (mpi_run (\<lambda>j k. if k = ''PMODE'' then Some ''HARD'' else Some ''1000000000'') None (\<lambda>h x. True))
        0 4 6 0 1 7 0 (Info 0) (blank, []) = Inl (Undefined BufferOverflow)
    \<and> (\<exists>q h'. MPIP_Precv_init (mpi_run (\<lambda>j k. if k = ''PMODE'' then Some ''HARD'' else Some '' 12'') None (\<lambda>h x. True))
        0 4 6 0 1 7 0 (Info 0) (blank, []) = Inr (q, h') \<and> parts q = 12)"
proof (intro conjI)
  let ?I = "\<lambda>v (j :: nat) k. if k = ''PMODE'' then Some ''HARD'' else Some v"
  show "MPIP_Psend_init mpi_done 0 4 6 0 1 7 0 (Info 0) (blank, []) = Inl (Undefined UninitRead)"
    using info_object_outcome [where M = "mpi_run (\<lambda>j k. None) None (\<lambda>h x. True)" and n = 4 and count = 6 and ty = 0 and tg = 7 and i = 0 and s = SENDER and h = "[]" and peer = 1 and cm = 0 and buf = 0 and r = blank] by (simp add: init_request_def)
  show "MPIP_Psend_init (mpi_run (?I ''1000000000'') None (\<lambda>h x. True)) 0 4 6 0 1 7 0 (Info 0) (blank, []) = Inl (Undefined BufferOverflow)"
    using info_object_outcome [where M = "mpi_run (?I ''1000000000'') None (\<lambda>h x. True)" and n = 4 and count = 6 and ty = 0 and tg = 7 and i = 0 and s = SENDER and h = "[]" and peer = 1 and cm = 0 and buf = 0 and r = blank]
    by (simp add: init_request_def mode_of_def)
  have "atoi '' 12'' = Inr 12" by (simp add: atoi_def is_space_def)
  then show "\<exists>q h'. MPIP_Precv_init (mpi_run (?I '' 12'') None (\<lambda>h x. True)) 0 4 6 0 1 7 0 (Info 0) (blank, []) = Inr (q, h') \<and> parts q = 12"
    using info_object_outcome [where M = "mpi_run (?I '' 12'') None (\<lambda>h x. True)" and n = 4 and count = 6 and ty = 0 and tg = 7 and i = 0 and s = RECEIVER and h = "[]" and peer = 1 and cm = 0 and buf = 0 and r = blank]
    by (auto simp add: init_request_def mode_of_def)
qed

end
