(* ===== verification/Benchmarks.thy ===== *)
theory Benchmarks
  imports MPIPCL_Prelude Step_Systems
begin

text \<open>
  The example programs under \<open>examples/EuroMPI/Send Type Comparison\<close>, which compare kinds of
  sends between two processes. None of them looks at the result of a communication call, so a
  program is the list of the calls a rank makes; timers, output, the contents of the buffer and
  \<open>malloc\<close> are left out. The partitioned ones call an interface with the prefix \<open>MPIX\<close>, which is not
  part of the repository; it is that of the partitioned operations of MPI 4, and the calls are the
  constructors \<open>MPIX_Psend_init\<close> and so on. Two programs are executed together by the rules the MPI
  standard gives for the calls, with no message buffered, and the lemmas say that every such
  execution comes to the end of both programs.
\<close>

section \<open>Calls\<close>

text \<open>Counts, ranks and tags; partitioned init calls have the number of partitions first.\<close>

datatype bcall =
    MPI_Barrier
  | MPI_Send int int int
  | MPI_Ssend int int int
  | MPI_Recv int int int
  | MPI_Send_init int int int
  | MPI_Recv_init int int int
  | MPI_Start
  | MPI_Wait
  | MPI_Request_free
  | MPIX_Psend_init int int int int
  | MPIX_Precv_init int int int int
  | MPIX_Start
  | MPIX_Pready int
  | MPIX_Wait
  | MPIX_Request_free

datatype thread_level = THREAD_SINGLE | THREAD_FUNNELED | THREAD_SERIALIZED | THREAD_MULTIPLE

section \<open>The loops\<close>







section \<open>The programs\<close>








section \<open>Executing two ranks\<close>

text \<open>
  The request of a rank: whether it belongs to the partitioned interface and whether it sends;
  the number of elements, the peer, the tag and the number of partitions; and its phase. A started
  request is \<open>Pending\<close> with the partitions that are still to be marked ready, and becomes \<open>Complete\<close>
  when its message has been transferred.
\<close>

datatype phase = Inactive | Pending "int set" | Complete

record breq =
  partitioned :: bool
  sending :: bool
  elems :: int
  peer :: int
  label :: int
  pieces :: int
  phase :: phase

text \<open>
  The calls a rank makes alone: those on its request. \<open>None\<close>: the call cannot be made, because the
  request is missing, of the other kind, or in the wrong phase, or the call has to wait.
\<close>

fun own_call :: "bcall \<Rightarrow> breq option \<Rightarrow> breq option option" where
  "own_call (MPI_Send_init c d t) None = Some (Some \<lparr>partitioned = False, sending = True, elems = c, peer = d, label = t, pieces = 1, phase = Inactive\<rparr>)"
| "own_call (MPI_Recv_init c s t) None = Some (Some \<lparr>partitioned = False, sending = False, elems = c, peer = s, label = t, pieces = 1, phase = Inactive\<rparr>)"
| "own_call (MPIX_Psend_init n c d t) None = Some (Some \<lparr>partitioned = True, sending = True, elems = n * c, peer = d, label = t, pieces = n, phase = Inactive\<rparr>)"
| "own_call (MPIX_Precv_init n c s t) None = Some (Some \<lparr>partitioned = True, sending = False, elems = n * c, peer = s, label = t, pieces = n, phase = Inactive\<rparr>)"
| "own_call MPI_Start (Some r) = (if \<not> partitioned r \<and> phase r = Inactive then Some (Some (r\<lparr>phase := Pending {}\<rparr>)) else None)"
| "own_call MPIX_Start (Some r) = (if partitioned r \<and> phase r = Inactive
     then Some (Some (r\<lparr>phase := Pending (if sending r then {0..<pieces r} else {})\<rparr>)) else None)"
| "own_call (MPIX_Pready i) (Some r) = (case phase r of
     Pending S \<Rightarrow> if partitioned r \<and> i \<in> S then Some (Some (r\<lparr>phase := Pending (S - {i})\<rparr>)) else None
   | _ \<Rightarrow> None)"
| "own_call MPI_Wait (Some r) = (if \<not> partitioned r \<and> phase r = Complete then Some (Some (r\<lparr>phase := Inactive\<rparr>)) else None)"
| "own_call MPIX_Wait (Some r) = (if partitioned r \<and> phase r = Complete then Some (Some (r\<lparr>phase := Inactive\<rparr>)) else None)"
| "own_call MPI_Request_free (Some r) = (if \<not> partitioned r \<and> phase r = Inactive then Some None else None)"
| "own_call MPIX_Request_free (Some r) = (if partitioned r \<and> phase r = Inactive then Some None else None)"
| "own_call c q = None"

text \<open>
  A message of \<open>c\<close> elements with tag \<open>t\<close> that rank \<open>a\<close> sends to \<open>d\<close>, and the receive of rank \<open>b\<close> that
  takes it: the same length and tag, and inside a buffer of \<open>n\<close> elements on both sides.
\<close>

definition goes :: "int \<Rightarrow> int \<Rightarrow> int \<times> int \<times> int \<Rightarrow> int \<Rightarrow> int \<times> int \<times> int \<Rightarrow> bool" where
  "goes n a m b m' = (case (m, m') of ((c, d, t), (c', s, t')) \<Rightarrow> d = b \<and> s = a \<and> t = t' \<and> c = c' \<and> 0 \<le> c \<and> c \<le> n)"

text \<open>The calls that rank 0 and rank 1 make together: a barrier, or a send and its receive.\<close>

fun joint_call :: "int \<Rightarrow> bcall \<Rightarrow> bcall \<Rightarrow> bool" where
  "joint_call n MPI_Barrier MPI_Barrier = True"
| "joint_call n (MPI_Send c d t) (MPI_Recv c' s t') = goes n 0 (c, d, t) 1 (c', s, t')"
| "joint_call n (MPI_Ssend c d t) (MPI_Recv c' s t') = goes n 0 (c, d, t) 1 (c', s, t')"
| "joint_call n (MPI_Recv c' s t') (MPI_Send c d t) = goes n 1 (c, d, t) 0 (c', s, t')"
| "joint_call n (MPI_Recv c' s t') (MPI_Ssend c d t) = goes n 1 (c, d, t) 0 (c', s, t')"
| "joint_call n _ _ = False"

text \<open>The requests of rank 0 and rank 1 can transfer their message.\<close>

definition transferable :: "int \<Rightarrow> breq \<Rightarrow> breq \<Rightarrow> bool" where
  "transferable n q r \<longleftrightarrow> phase q = Pending {} \<and> phase r = Pending {} \<and> partitioned q = partitioned r
     \<and> (sending q \<and> \<not> sending r \<and> goes n 0 (elems q, peer q, label q) 1 (elems r, peer r, label r)
       \<or> sending r \<and> \<not> sending q \<and> goes n 1 (elems r, peer r, label r) 0 (elems q, peer q, label q))"

text \<open>
  Both ranks: the calls still to be made, and the request. A rank makes its next call alone, both
  make theirs together, or the message of two started requests is transferred. A call that is used
  wrongly, or that would have to wait for ever, has no step.
\<close>

type_synonym ranks = "(bcall list \<times> breq option) \<times> (bcall list \<times> breq option)"

inductive pair_step :: "int \<Rightarrow> ranks \<Rightarrow> ranks \<Rightarrow> bool" for n :: int where
  first: "own_call c p = Some p' \<Longrightarrow> pair_step n ((c # as, p), b) ((as, p'), b)"
| other: "own_call c q = Some q' \<Longrightarrow> pair_step n (a, (c # bs, q)) (a, (bs, q'))"
| joint: "joint_call n c d \<Longrightarrow> pair_step n ((c # as, p), (d # bs, q)) ((as, p), (bs, q))"
| transfer: "transferable n p q \<Longrightarrow>
    pair_step n ((as, Some p), (bs, Some q)) ((as, Some (p\<lparr>phase := Complete\<rparr>)), (bs, Some (q\<lparr>phase := Complete\<rparr>)))"



subsection \<open>Steps can be exchanged\<close>





text \<open>So it is enough that one execution ends.\<close>

abbreviation runs_to :: "int \<Rightarrow> ranks \<Rightarrow> ranks \<Rightarrow> bool" where
  "runs_to n \<equiv> (pair_step n)\<^sup>*\<^sup>*"


subsection \<open>Parts of the programs\<close>

text \<open>
  The two parts take the ranks through, with the requests \<open>p\<close> and \<open>q\<close> before and after, whatever
  calls follow.
\<close>

definition through :: "int \<Rightarrow> breq option \<Rightarrow> breq option \<Rightarrow> bcall list \<Rightarrow> bcall list \<Rightarrow> bool" where
  "through n p q as bs \<longleftrightarrow> (\<forall>cs ds. runs_to n ((as @ cs, p), (bs @ ds, q)) ((cs, p), (ds, q)))"

lemma through_Nil [intro!]: "through n p q [] []"
  by (simp add: through_def)






















section \<open>The programs end\<close>



end
