(* ===== verification/Spec2Isabelle.thy ===== *)
theory Spec2Isabelle
  imports Session_Modes Delivery Array_Properties First_Round Arrival_Races Sync_Order Init_Limits Benchmarks
begin

text \<open>
  MPIPCL implements the partitioned communication of MPI-4 on top of persistent point-to-point
  messages. A user buffer of \<open>local_parts\<close> partitions is carried by \<open>parts\<close> messages; a sender
  marks its partitions ready one by one, from any of its threads, and a message leaves when the
  last of its partitions is ready; a receiver asks for the arrival of single partitions. The
  number of messages is given (\<open>sync_hard\<close>) or sent by one side to the other (\<open>sync_side\<close>), in
  which case a background thread of the other side completes the setup while the user goes on.

  \<^bold>\<open>Theories and code.\<close> Paths are relative to \<open>src/\<close>.

  \<^item> \<open>MPIPCL_Prelude\<close>: ways a C function stops, the error monad, checked C integers, the
    counting loop \<open>for_up\<close> with its rules; \<open>C_Blocks\<close>: \<open>malloc\<close>ed arrays with uninitialised
    cells, the locale \<open>c_array\<close> and its interpretation \<open>blk\<close>.
  \<^item> \<open>MPI_Layer\<close>: MPI as a parameter. A value of the record \<open>mpi\<close> answers every call, depending on
    the history of all calls; the promises of the MPI standard the properties need are named
    predicates on it (\<open>mpi_succeeds\<close>, \<open>fresh_handles\<close>, \<open>flags_boolean\<close>, \<open>inactive_tests_true\<close>,
    \<open>inactive_waits_return\<close>; and \<open>delivers\<close>, \<open>progress_within\<close>, \<open>progress_from\<close> in \<open>Delivery\<close>, about the
    histories of two processes). \<open>mpi_run\<close> is a concrete one.
  \<^item> \<open>Request\<close>: \<open>include/mpipcl.h\<close>, the enums, \<open>meta\<close> and \<open>MPIP_Request\<close> (record \<open>mpip\<close>, its field
    \<open>psize\<close> is the source's \<open>size\<close>); \<open>setup_ok\<close> is the well-formedness of a request whose
    messages exist.
  \<^item> \<open>Partition_Map\<close> and \<open>Send\<close>: \<open>library/source/send.c\<close>; \<open>Sync\<close> and \<open>Sync_Thread\<close>:
    \<open>library/source/sync.c\<close>; \<open>Setup\<close>: \<open>library/source/setup.c\<close>.
  \<^item> \<open>Api\<close>: the functions of \<open>library/bindings\<close> on one request; \<open>Array_Loops\<close>, \<open>Array_Api\<close>: those on
    arrays of requests.
  \<^item> \<open>Concurrency\<close>: the interleavings of a sending round as a step relation, with the reads, the
    increments, the starts and the critical sections of \<open>MPIP_Pready\<close>, \<open>general_send\<close> and
    \<open>threaded_sync_driver\<close> as separate steps. \<open>Lifecycle\<close>: the interleavings of the first start of a
    request with its background thread, from \<open>pthread_create\<close> in \<open>sync_driver\<close> to the return of
    \<open>MPIP_Start\<close>, a second step relation (\<open>life_step\<close>) with the two halves of \<open>MPIP_Start\<close> and of the
    thread as steps. \<open>Arrival_Races\<close>: calls of \<open>MPIP_Parrived\<close> by several threads, a third
    (\<open>ask_step\<close>), with the read of a flag, the test and the store of \<open>map_recv_buffer\<close> as steps.
  \<^item> \<open>Benchmarks\<close>: the five programs under \<open>examples/EuroMPI/Send Type Comparison\<close>, each the list of
    the communication calls a rank makes, and a step relation (\<open>pair_step\<close>) that executes two ranks by
    the rules of the MPI standard. The partitioned ones call an interface \<open>MPIX\<close> that is not in the
    repository; the relation takes its calls to be the partitioned operations of MPI 4.

  \<^bold>\<open>State and operations.\<close> An operation takes and returns a pair of a request and the history of the
  MPI calls; the history is what the program does to the outside. Its result is \<open>Inl\<close> of a
  failed assertion, of undefined behaviour or of a call that blocks for ever, or \<open>Inr\<close> of the
  code the function returns, its output arguments and the new state. Memory is kept per pointer
  field of the request. The two polling loops \<open>MPIP_Waitany\<close> and \<open>MPIP_Waitsome\<close> are partial
  functions, where \<open>None\<close> is a loop that runs for ever; no fuel is used anywhere.

  \<^bold>\<open>Lemmas.\<close>
  \<^item> \<open>Partition_Map\<close>: the contract \<open>partition_map\<close> between partitions and messages, interpreted as
    \<open>net\<close> on the range the code computes, for counts of which one divides the other
    (\<open>aligned\<close>, the supported configurations); \<open>deps\<close> is the set of partitions of a message, which are the ones that share
    data with it. \<open>Unaligned\<close> has what happens for other counts.
  \<^item> \<open>Send\<close>, \<open>Sender\<close>: the round invariant \<open>round_at\<close> between the counters, the marked partitions
    and the messages started in the round, kept by \<open>general_send\<close>, the \<open>MPIP_Pready\<close> functions and
    the catch-up of the thread; the abstract machine \<open>partitioned\<close> and its simulation.
    \<open>Ready_Order\<close>: range and list as repeated \<open>MPIP_Pready\<close>, whose order does not matter.
  \<^item> \<open>Setup\<close>: \<open>internal_setup\<close> in closed form where its arithmetic stays in range (\<open>fits\<close>), and its
    overflow everywhere else. \<open>Init\<close>: the init functions mode by mode; \<open>Info_Values\<close>: the number
    stored under \<open>SET\<close> and what \<open>atoi\<close>, a function of the C library, reads; \<open>Completion\<close>: receiving, test, wait and free.
  \<^item> \<open>Call_Safety\<close>: the calls on a request as data, and the invariant every sequence of them keeps.
  \<^item> \<open>Array_Facts\<close>, \<open>Polling\<close>: a loop over an array is one pass \<open>poll_all\<close>; the locale \<open>pollable\<close>,
    interpreted as \<open>poll\<close> on \<open>MPIP_Test\<close>; when the polling loops return: MPI completes a started
    receive within \<open>k\<close> further tests once its matching sends have been started (\<open>progress_from\<close>), and
    each fruitless pass is one of these tests.
  \<^item> \<open>Concurrency\<close>, \<open>Interleaving\<close>, \<open>Races\<close>: the invariants of every reachable configuration, and
    the schedules in which the code goes wrong. A bound of \<open>2 * local_parts \<le> INT_MAX\<close> keeps the
    counters, which a race can increment twice per partition, in range. \<open>Run_Length\<close>: a measure
    of the work left, which every step decreases, so that every schedule ends, by the locale
    \<open>measured_steps\<close> of \<open>Step_Systems\<close>, which \<open>Lifecycle\<close> uses as well. \<open>Uninterrupted\<close>:
    the calls as whole functions are runs of the step relation, which ties the two models of the
    code together. \<open>Rounds\<close>: sequences of rounds, each with a schedule of its own.
  \<^item> \<open>Lifecycle\<close>: the invariant of a receiver's first start, which orders of \<open>RUNNING\<close>, \<open>FINISHED\<close> and
    the start lose the receives or leave the ready flags uninitialised, and that no order is stuck.
    \<open>Sender_Start\<close>: the same for a sender, whose run is stuck, while no partition is marked, exactly
    when its start has read \<open>RUNNING\<close> before the catch-up (\<open>too_early\<close>); the other runs end by
    \<open>measured_steps\<close> again.
    \<open>First_Round\<close> puts \<open>Lifecycle\<close> and \<open>Concurrency\<close> together: the first round of a sender from
    \<open>pthread_create\<close> to its last \<open>MPIP_Pready\<close>, with the thread in any place. A start that came too early
    leaves flags uninitialised; \<open>Cleared_Flags\<close> maps such a run to one with cleared flags, by the locale
    \<open>step_map\<close> of \<open>Step_Systems\<close>, so that the invariants of \<open>Concurrency\<close> apply to it. It also says where
    the thread is stopped by an uninitialised flag (\<open>reads_uninit\<close>), and that flags nobody has cleared
    cannot be counted before they are stored (\<open>never_cleared\<close>).
  \<^item> \<open>Arrival_Races\<close>: the invariant of every interleaving of \<open>MPIP_Parrived\<close> calls: an answer 1 is
    true, and is given again by every test begun after it. Which calls can be in \<open>MPI_Testall\<close> with a common message, and how a late store
    takes an answer back.
  \<^item> \<open>Sync_Order\<close>: the background threads of several requests, which receive from one channel;
    \<open>Init_Limits\<close>: the narrowing of the count, the overflow of the buffer size, sides that do not
    name the same side under \<open>PMODE\<close>, and the outcome of the init functions for every info object.
  \<^item> \<open>Sessions\<close>, \<open>Session_Modes\<close>: whole lives of a request, from the init function to
    \<open>MPIP_Request_free\<close>, without and with a background thread, which runs there between two calls of the
    user. \<open>Benchmarks\<close> shows that every execution of two ranks of a program comes to
    the end of both (\<open>ends_always\<close>), even if no send is buffered: one execution does, put together
    from those of the parts (\<open>through\<close>), and any two steps can be exchanged (locale \<open>one_way\<close> of
    \<open>Step_Systems\<close>). Its loops are total functions on the values the source's loops run through.
  \<^item> \<open>Delivery\<close>: the two processes together. They share only MPI, whose promise is \<open>delivers\<close>: a
    receive completes only with a matching send that has been started; and its progress, which is
    \<open>progress_within\<close>: a receive whose matching send has been started completes within \<open>k\<close> tests.
    \<open>ask\<close> is a client that polls \<open>MPIP_Parrived\<close> that often.
  \<^item> The properties stand in \<open>Setup_Properties\<close>, \<open>Round_Properties\<close>, \<open>Array_Properties\<close>, \<open>Unaligned\<close>,
    \<open>First_Round\<close>, \<open>Arrival_Races\<close>, \<open>Sync_Order\<close>, \<open>Init_Limits\<close>, \<open>Session_Modes\<close>, \<open>Benchmarks\<close> and this theory. A witness
    applies each that has hypotheses to a concrete input, mostly one of the requests of \<open>Examples\<close>.

  \<^bold>\<open>What is not modelled.\<close> The contents of user buffers (only which elements a message covers), the
  status arguments, which the code never writes, debug output, the failure of \<open>malloc\<close> for
  non-negative sizes and of the pthread functions, and weak memory: the accesses of the step
  relation are sequentially consistent, although the ready flags are plain variables that the
  background thread reads while user threads write them. A conversion of an \<open>MPI_Count\<close> to \<open>int\<close>
  and the atomic increment wrap around. Initialising the mutex a second time is taken to have
  no effect. In \<open>Concurrency\<close> the user marks each partition at most once per round, as MPI
  requires, and \<open>MPIP_Start\<close> has returned. In \<open>Arrival_Races\<close> the setup is not under way, a call of
  \<open>MPI_Testall\<close> is one step, and no other function runs; \<open>MPIP_Test\<close> and \<open>MPIP_Wait\<close> are modelled
  as whole calls only. In \<open>Lifecycle\<close> the setup by the thread, its catch-up
  and the reset and start of \<open>MPIP_Start\<close> are one step each. In \<open>Sync_Order\<close> a thread runs as one step.
  Of the examples, \<open>MPI_Init\<close>, \<open>MPI_Finalize\<close>, timers, output, the allocation of the buffer and its
  contents are left out. Tests and build files are not part of the model.
\<close>

section \<open>Every interleaving of a round\<close>

text \<open>
  A round begins after the setup, with a request that \<open>MPIP_Start\<close> has reset, or during it, with
  ready flags nobody has initialised; \<open>waiting_sender\<close> allows any contents for them, also \<open>False\<close>.
\<close>

definition begins :: "mpi \<Rightarrow> hist \<Rightarrow> mpip \<Rightarrow> pc \<Rightarrow> bool" where
  "begins M h r c \<longleftrightarrow> (c = Done \<and> ready_sender r) \<or> (c = Setup \<and> (\<exists>n. waiting_sender M h r n))"

lemma begins_good:
  assumes "begins M h r c" "mpi_succeeds M" "fresh_handles M" "reaches M (conf_of r h c) s"
  shows "good M h (clear_conf s)"
proof -
  obtain n where "in_round M h n (clear_conf (conf_of r h c))"
    using assms(1) begun_in_round [OF _ assms(2,3)] unfolding begins_def by blast
  from round.run_ok [OF clear.run_abs [OF assms(4)] this] show ?thesis by (simp add: in_round_def)
qed

lemma begins_setup_ok:
  assumes "begins M h r c" "mpi_succeeds M" "fresh_handles M" "reaches M (conf_of r h c) s" "pcs s Background \<noteq> Setup"
  shows "setup_ok (req s)" "aligned (local_parts (req s)) (parts (req s))"
  using goodD(1,2) [OF begins_good [OF assms(1-4)]] assms(5) by simp_all

lemma begins_sent:
  assumes b: "begins M h r c" "mpi_succeeds M" "fresh_handles M" "reaches M (conf_of r h c) s"
    and i: "0 \<le> i" "i < parts (req s)"
  shows "pcs s Background \<noteq> Setup \<Longrightarrow> starts (log s) (handles (req s) ! nat i) \<le> Suc (starts h (handles (req s) ! nat i))"
    "quiescent s \<Longrightarrow> deps (local_parts (req s)) (parts (req s)) i \<subseteq> marked (req s) \<Longrightarrow>
       starts (log s) (handles (req s) ! nat i) = Suc (starts h (handles (req s) ! nat i))"
proof -
  note g = begins_good [OF b]
  show "pcs s Background \<noteq> Setup \<Longrightarrow> starts (log s) (handles (req s) ! nat i) \<le> Suc (starts h (handles (req s) ! nat i))"
    using good_once [OF g, of i] i by simp
  assume "quiescent s" "deps (local_parts (req s)) (parts (req s)) i \<subseteq> marked (req s)"
  then show "starts (log s) (handles (req s) ! nat i) = Suc (starts h (handles (req s) ! nat i))"
    using good_quiescent [OF g, of i] i by (simp add: quiescent_def)
qed

lemma one_partition_run:
  "\<exists>s. reaches mpi_done (conf_of (demo SENDER 1 1) h Done) s \<and> quiescent s \<and> log s = CStart 0 # h \<and> parts (req s) = 1
     \<and> local_parts (req s) = 1 \<and> local_size (req s) = 1 \<and> psize (req s) = 1 \<and> marked (req s) = {0} \<and> handles (req s) = [0]"
proof -
  let ?r = "demo SENDER 1 1"
  define r1 where "r1 = ?r\<lparr>local_status := filled [True]\<rparr>"
  define r2 where "r2 = r1\<lparr>internal_status := filled [1]\<rparr>"
  let ?c = "\<lambda>u q h C. goto (User 0) u ((conf_of q h Done)\<lparr>counted := C\<rparr>)"
  have mk: "marked ?r = {}" using demo_flags [of 1 SENDER 1] by simp
  have "step mpi_done (conf_of ?r h Done) (?c (Marked 0) r1 h {})"
    using step.mark [of "conf_of ?r h Done" 0 0 "filled [True]" mpi_done] mk by (simp add: conf_of_def r1_def)
  moreover have "step mpi_done (?c (Marked 0) r1 h {}) (?c (Sending 0 0 1 1) r1 h {})"
    using step.go [of "?c (Marked 0) r1 h {}" 0 0 0 1 1 mpi_done]
    by (simp add: conf_of_def locked_def r1_def send_range_def map_local_to_network_partitions_def c_div_pos c_mul_def c_add_def Let_def)
  moreover have "step mpi_done (?c (Sending 0 0 1 1) r1 h {}) (?c (Firing 0 0 1 1) r2 h {(False, 0, 0)})"
  proof -
    have "fetch_add 0 r1 = Inr (0, r2)" by (simp add: fetch_add_def r1_def r2_def int32_of_id)
    then show ?thesis
      using step.count [of "?c (Sending 0 0 1 1) r1 h {}" "User 0" 0 0 1 1 0 r2 1 mpi_done]
      by (simp add: conf_of_def c_add_def)
  qed
  moreover have "step mpi_done (?c (Firing 0 0 1 1) r2 h {(False, 0, 0)}) (?c (Sending 0 1 1 1) r2 (CStart 0 # h) {(False, 0, 0)})"
    using step.fire [of "?c (Firing 0 0 1 1) r2 h {(False, 0, 0)}" "User 0" 0 0 1 1 mpi_done r2 "CStart 0 # h"]
    by (simp add: conf_of_def start_message_def r1_def r2_def)
  moreover have "step mpi_done (?c (Sending 0 1 1 1) r2 (CStart 0 # h) {(False, 0, 0)}) (?c Idle r2 (CStart 0 # h) {(False, 0, 0)})"
    using step.sent [of "?c (Sending 0 1 1 1) r2 (CStart 0 # h) {(False, 0, 0)}" "User 0" 0 1 1 1 mpi_done]
    by (simp add: conf_of_def)
  ultimately have "reaches mpi_done (conf_of ?r h Done) (?c Idle r2 (CStart 0 # h) {(False, 0, 0)})"
    by (meson rtranclp.rtrancl_refl converse_rtranclp_into_rtranclp)
  moreover have "marked r2 = {0}" by (auto simp: r2_def r1_def marked_def blk_get_filled_iff)
  ultimately show ?thesis
    by (intro exI [of _ "?c Idle r2 (CStart 0 # h) {(False, 0, 0)}"]) (simp add: quiescent_def conf_of_def r2_def r1_def demo_def)
qed

text \<open>A message that has started has all its partitions marked, where nobody counts twice.\<close>

lemma begins_safe:
  assumes b: "begins M h r c" "mpi_succeeds M" "fresh_handles M" and run: "reaches M (conf_of r h c) s"
    and i: "pcs s Background \<noteq> Setup" "0 \<le> i" "i < parts (req s)"
    and st: "starts (log s) (handles (req s) ! nat i) \<noteq> starts h (handles (req s) ! nat i)"
    and safe: "c = Done \<or> never_cleared (local_status r) \<or> local_parts (req s) \<le> parts (req s)"
  shows "deps (local_parts (req s)) (parts (req s)) i \<subseteq> marked (req s)"
proof -
  have g: "good M h (clear_conf s)" by (rule begins_good [OF b run])
  consider "c = Done" | "c = Setup" "never_cleared (local_status r)" | "local_parts (req s) \<le> parts (req s)"
    using safe b(1) by (auto simp: begins_def)
  then show ?thesis
  proof cases
    case 1
    then have "\<forall>p i. (True, p, i) \<notin> counted s"
      using reaches_users_only [OF run] by (simp add: conf_of_def)
    then show ?thesis using good_safe_users [OF g, of i] i st by simp
  next
    case 2
    then obtain n where "waiting_sender M h r n" using b(1) by (auto simp: begins_def)
    with 2 show ?thesis using never_cleared_safe [OF _ _ b(2,3) _ i st] run by blast
  next
    case 3
    then show ?thesis using good_safe_split [OF g, of i] i st by simp
  qed
qed

text \<open>
  C1: end to end. The sender's partitions are marked by any number of threads in any schedule, the
  receiver has another partitioning of the same elements; when \<open>MPIP_Parrived\<close> says that partition
  \<open>p\<close> of the receiver has arrived, every element of \<open>p\<close> belongs to a partition the sender has marked
  in this round. The messages of the two sides are paired, both sides are in the same round, MPI
  delivers what was sent. The round begins after the setup, or during it with ready flags as
  \<open>prep\<close> leaves them, allocated and not cleared, or there are no more partitions than messages on
  the sending side. The rounds of the program begin in the first two ways, except those whose status
  has been lost (\<open>First_Round\<close>), which start nothing.
\<close>

theorem arrived_data_was_ready:
  assumes b: "begins M h r c" "mpi_succeeds M" "fresh_handles M" and run: "reaches M (conf_of r h c) s"
    and bg: "pcs s Background \<noteq> Setup"
    and safe: "c = Done \<or> never_cleared (local_status r) \<or> local_parts (req s) \<le> parts (req s)"
    and rr: "receiver_at (rr, hr)" "mpi_succeeds M'" "0 \<le> p" "p < local_parts rr"
    and arrived: "MPIP_Parrived M' p (rr, hr) = Inr (1, rr', hr')"
    and sizes: "parts rr = parts (req s)" "psize rr = psize (req s)"
      "parts (req s) * psize (req s) = local_parts (req s) * local_size (req s)" "0 < local_size (req s)"
      "parts rr * psize rr = local_parts rr * local_size rr" "0 < local_size rr"
    and pair: "paired (log s) (handles (req s)) hr (handles rr)" and del: "delivers (log s) hr'"
    and round: "\<forall>i<length (handles rr). starts hr (handles rr ! i) = Suc (starts h (handles (req s) ! i))"
    and e: "p * local_size rr \<le> e" "e < (p + 1) * local_size rr"
    and q: "0 \<le> q" "q < local_parts (req s)" "q * local_size (req s) \<le> e" "e < (q + 1) * local_size (req s)"
  shows "q \<in> marked (req s)"
proof -
  note R = receiver_atD [OF rr(1)] and G = begins_setup_ok [OF b run bg]
  let ?i = "e div psize (req s)"
  have n: "0 < parts (req s)" using setup_okD(3) [OF G(1)] .
  note P = element_message [OF sizes(5,6) _ rr(3,4) e] and Q = element_message [OF sizes(3,4) n q]
  have dp: "p \<in> deps (local_parts rr) (parts rr) ?i" and i: "0 \<le> ?i" "?i < parts rr"
    using P n sizes(1,2) deps_iff_shares_data [OF R(2) sizes(5,6) rr(3,4)] by auto
  have "nat ?i < length (handles rr)" using i setup_okD(6) [OF R(1)] by linarith
  with round have "starts hr (handles rr ! nat ?i) = Suc (starts h (handles (req s) ! nat ?i))" by blast
  from arrival_implies_start [OF rr(1,3,4,2) arrived pair del i dp this]
  have "deps (local_parts (req s)) (parts (req s)) ?i \<subseteq> marked (req s)"
    using i sizes(1) by (intro begins_safe [OF b run bg _ _ _ safe]) auto
  moreover have "q \<in> deps (local_parts (req s)) (parts (req s)) ?i"
    using deps_iff_shares_data [OF G(2) sizes(3,4) q(1,2) Q(1,2)] Q(3) by blast
  ultimately show ?thesis by blast
qed

theorem arrived_data_was_ready_witness:
  "\<exists>s rr' hr'. reaches mpi_done (conf_of (demo SENDER 1 1) [CSendInit (message mpi_done demo_meta 1 0) 0] Done) s
     \<and> MPIP_Parrived mpi_done 0 (demo RECEIVER 1 1, [CStartall [0], CRecvInit (message mpi_done demo_meta 1 0) 0]) = Inr (1, rr', hr')
     \<and> 0 \<in> marked (req s)"
proof -
  let ?m = "message mpi_done demo_meta 1 0" and ?rr = "demo RECEIVER 1 1"
  let ?h = "[CSendInit ?m 0]" and ?hr = "[CStartall [0], CRecvInit ?m 0]"
  obtain s where s: "reaches mpi_done (conf_of (demo SENDER 1 1) ?h Done) s" "quiescent s" "log s = CStart 0 # ?h" "parts (req s) = 1"
    "local_parts (req s) = 1" "local_size (req s) = 1" "psize (req s) = 1" "handles (req s) = [0]"
    using one_partition_run by blast
  have b: "begins mpi_done ?h (demo SENDER 1 1) Done" using demo_ready [of 1 1] by (simp add: begins_def aligned_def)
  have rr: "receiver_at (?rr, ?hr)" "local_size ?rr = 1" "psize ?rr = 1" "0 \<notin> marked ?rr"
    using demo_setup_ok [of 1 1 RECEIVER] demo_flags [of 1 RECEIVER 1] by (simp_all add: receiver_at_def aligned_def, simp_all add: demo_def)
  have ph: "part_handles ?rr 0 = [0]" by (simp add: part_handles_def net_range_def)
  have tf: "testall_flag mpi_done ?hr [0] = 1" by (simp add: mpi_run_def)
  have lp: "0 < local_parts ?rr" by (simp add: demo_def)
  obtain rr' where arr: "MPIP_Parrived mpi_done 0 (?rr, ?hr) = Inr (1, rr', CTestall [0] 1 # ?hr)"
    using parrived_eq [OF rr(1) order_refl lp rr(4) mpi_run_succeeds] by (simp add: ph tf)
  have pair: "paired (log s) (handles (req s)) ?hr (handles ?rr)"
    unfolding s(3,8) by (simp add: paired_def only_match_def matches_def)
  have del: "delivers (log s) (CTestall [0] 1 # ?hr)"
    unfolding s(3) by (auto simp: delivers_def only_match_def completions_def)
  have bg: "pcs s Background \<noteq> Setup" using s(2) by (simp add: quiescent_def)
  have "0 \<in> marked (req s)"
    by (rule arrived_data_was_ready [OF b mpi_run_succeeds mpi_run_fresh s(1) bg _ rr(1) mpi_run_succeeds _ _ arr _ _ _ _ _ _ pair del, where e = 0])
      (simp_all add: s rr)
  with s(1) arr show ?thesis by blast
qed

text \<open>
  C2: what is ready arrives. When the actors of the sender are done and the messages of partition
  \<open>p\<close> of the receiver have all their partitions marked, a client that asks for \<open>p\<close> gets the answer 1
  by its call number \<open>k + 1\<close>, if MPI completes what both sides have started within \<open>k\<close> tests. The
  receiver may have started each message at most once more often than the sender had before.
\<close>

theorem ready_data_arrives:
  assumes b: "begins M h r c" "mpi_succeeds M" "fresh_handles M" and run: "reaches M (conf_of r h c) s" "quiescent s"
    and rr: "receiver_at (rr, hr)" "0 \<le> p" "p < local_parts rr" "parts rr = parts (req s)"
    and M': "mpi_succeeds M'" "flags_boolean M'" "progress_within k M' (log s)"
    and pair: "paired (log s) (handles (req s)) hr (handles rr)"
    and round: "\<forall>i<length (handles rr). starts hr (handles rr ! i) \<le> Suc (starts h (handles (req s) ! i))"
    and ready: "\<forall>i. p \<in> deps (local_parts rr) (parts rr) i \<longrightarrow> deps (local_parts (req s)) (parts (req s)) i \<subseteq> marked (req s)"
  shows "\<exists>rr' hr'. ask M' p (Suc k) (rr, hr) = Inr (1, rr', hr')"
proof (rule started_data_arrives [OF rr(1-3) M' pair])
  fix i assume i: "0 \<le> i" "i < parts rr" "p \<in> deps (local_parts rr) (parts rr) i"
  have "nat i < length (handles rr)" using i setup_okD(6) [OF receiver_atD(1) [OF rr(1)]] by linarith
  with round have "starts hr (handles rr ! nat i) \<le> Suc (starts h (handles (req s) ! nat i))" by blast
  also have "\<dots> = starts (log s) (handles (req s) ! nat i)"
    using begins_sent(2) [OF b run(1) i(1) _ run(2)] i(2,3) rr(4) ready by simp
  finally show "starts hr (handles rr ! nat i) \<le> starts (log s) (handles (req s) ! nat i)" .
qed

theorem ready_data_arrives_witness:
  "\<exists>rr' hr'. ask mpi_done 0 1 (demo RECEIVER 1 1, [CStartall [0], CRecvInit (message mpi_done demo_meta 1 0) 0]) = Inr (1, rr', hr')"
proof -
  let ?m = "message mpi_done demo_meta 1 0" and ?rr = "demo RECEIVER 1 1"
  let ?h = "[CSendInit ?m 0]" and ?hr = "[CStartall [0], CRecvInit ?m 0]"
  obtain s where s: "reaches mpi_done (conf_of (demo SENDER 1 1) ?h Done) s" "quiescent s" "log s = CStart 0 # ?h" "parts (req s) = 1"
    "local_parts (req s) = 1" "marked (req s) = {0}" "handles (req s) = [0]"
    using one_partition_run by blast
  have b: "begins mpi_done ?h (demo SENDER 1 1) Done" using demo_ready [of 1 1] by (simp add: begins_def aligned_def)
  have rr: "receiver_at (?rr, ?hr)" "0 < local_parts ?rr" "parts ?rr = parts (req s)"
    using demo_setup_ok [of 1 1 RECEIVER] demo_flags [of 1 RECEIVER 1] s(4) by (simp_all add: receiver_at_def aligned_def)
  have pair: "paired (log s) (handles (req s)) ?hr (handles ?rr)"
    unfolding s(3,7) by (simp add: paired_def only_match_def matches_def)
  have pr: "progress_within 0 mpi_done (log s)" by (auto simp: progress_within_def mpi_run_def list_all_iff)
  have "\<forall>i<length (handles ?rr). starts ?hr (handles ?rr ! i) \<le> Suc (starts ?h (handles (req s) ! i))" by (simp add: s(7))
  moreover have "\<forall>i. 0 \<in> deps (local_parts ?rr) (parts ?rr) i \<longrightarrow> deps (local_parts (req s)) (parts (req s)) i \<subseteq> marked (req s)"
    by (auto simp: s(5,6) deps_def)
  ultimately show ?thesis
    using ready_data_arrives [OF b mpi_run_succeeds mpi_run_fresh s(1,2) rr(1) order_refl rr(2,3) mpi_run_succeeds mpi_run_flags pr pair]
    by simp
qed

section \<open>Schedules and calls\<close>

lemma demo_thread_returns:
  "\<exists>q g. threaded_sync_driver (mpi_answers 2 1) (demo_waiting SENDER 4, []) = Inr (q, g)"
proof -
  have a: "aligned (local_parts (demo_waiting SENDER 4)) 2" using demo_waiting_delayed [of 4] by (simp add: aligned_def)
  have f: "fits (mpi_answers 2 1) (the_meta (demo_waiting SENDER 4)) 2 1"
    using demo_waiting_delayed [of 4] demo_fits [of 2 1] by simp
  from run_thread_sender [OF demo_waiting_delayed(1,2) a f mpi_run_succeeds mpi_run_fresh, of "[]"]
  show ?thesis by (auto simp: run_thread_def bindE_def split: sum.splits if_splits)
qed

text \<open>
  C11: the step relation takes apart what the functions of the code do as a whole. A call of
  \<open>MPIP_Pready\<close> by an idle user, when nobody holds the lock, and the body of the background thread are
  runs of the step relation that lead to the same request and the same MPI calls.
\<close>

theorem uninterrupted_calls_are_runs:
  "(pcs s (User u) = Idle \<and> \<not> locked s \<and> p \<notin> marked (req s) \<and> MPIP_Pready M p (req s, log s) = Inr (v, r, h) \<longrightarrow>
      (\<exists>s'. reaches M s s' \<and> req s' = r \<and> log s' = h \<and> pcs s' = pcs s))
    \<and> (pcs s Background = Setup \<and> side (req s) = SENDER \<and> threaded_sync_driver M (req s, log s) = Inr (r', h') \<longrightarrow>
      (\<exists>s'. reaches M s s' \<and> req s' = r' \<and> log s' = h' \<and> pcs s' = (pcs s)(Background := Done)))"
  using pready_solo [of s u p M v r h] thread_solo [of s M r' h'] by (auto simp: solo_def fun_upd_idem)

theorem uninterrupted_calls_are_runs_witness:
  "(\<exists>r h s'. MPIP_Pready mpi_done 3 (demo SENDER 4 2, []) = Inr (MPI_SUCCESS, r, h)
      \<and> reaches mpi_done (conf_of (demo SENDER 4 2) [] Done) s' \<and> req s' = r \<and> log s' = h)
    \<and> (\<exists>r h s'. threaded_sync_driver (mpi_answers 2 1) (demo_waiting SENDER 4, []) = Inr (r, h)
      \<and> reaches (mpi_answers 2 1) (conf_of (demo_waiting SENDER 4) [] Setup) s' \<and> req s' = r \<and> log s' = h)"
proof
  let ?s = "conf_of (demo SENDER 4 2) [] Done" and ?t = "conf_of (demo_waiting SENDER 4) [] Setup"
  have "sender_at [] {} (demo SENDER 4 2, [])" by (rule demo_sender_at) (simp add: aligned_def)
  then obtain r h where r: "MPIP_Pready mpi_done 3 (demo SENDER 4 2, []) = Inr (MPI_SUCCESS, r, h)"
    using pready_sender [of "[]" "{}" "demo SENDER 4 2" "[]" 3 mpi_done] by auto
  have "marked (demo SENDER 4 2) = {}" using demo_flags [of 4 SENDER 2] by simp
  with r uninterrupted_calls_are_runs [of ?s 0 3 mpi_done MPI_SUCCESS r h]
  show "\<exists>r h s'. MPIP_Pready mpi_done 3 (demo SENDER 4 2, []) = Inr (MPI_SUCCESS, r, h)
      \<and> reaches mpi_done ?s s' \<and> req s' = r \<and> log s' = h"
    by (auto simp: conf_of_def locked_def)
  obtain q g where q: "threaded_sync_driver (mpi_answers 2 1) (demo_waiting SENDER 4, []) = Inr (q, g)"
    using demo_thread_returns by blast
  moreover have "side (demo_waiting SENDER 4) = SENDER" by (simp add: demo_waiting_def)
  ultimately show "\<exists>r h s'. threaded_sync_driver (mpi_answers 2 1) (demo_waiting SENDER 4, []) = Inr (r, h)
      \<and> reaches (mpi_answers 2 1) ?t s' \<and> req s' = r \<and> log s' = h"
    using uninterrupted_calls_are_runs [of ?t 0 0 "mpi_answers 2 1" 0 "demo_waiting SENDER 4" "[]" q g]
    by (auto simp: conf_of_def)
qed

text \<open>
  C4: rounds of arbitrary schedules can follow each other without end. Any partitions can be marked
  in each of them, and however the threads interleave, a message has been started once in each
  round in which all its partitions were marked and not at all in the others.
\<close>

theorem rounds_under_any_schedule:
  assumes r: "at_rest r" and M: "mpi_succeeds M" "fresh_handles M" "\<And>h xs. waitall_ret M h xs"
    and Rs: "\<forall>R\<in>set Rs. R \<subseteq> {0..<local_parts r}"
  shows "(\<exists>t. threaded_rounds M Rs (r, h) t)
    \<and> (\<forall>r' h'. threaded_rounds M Rs (r, h) (r', h') \<longrightarrow> at_rest r' \<and> same_messages r r'
         \<and> (\<forall>i. 0 \<le> i \<and> i < parts r \<longrightarrow> starts h' (handles r ! nat i) = starts h (handles r ! nat i)
               + length (filter (\<lambda>R. deps (local_parts r) (parts r) i \<subseteq> R) Rs)))"
  using threaded_rounds_exist [OF r Rs M] threaded_rounds_count [of M Rs "(r, h)"] r M(1,2) by fastforce

theorem rounds_under_any_schedule_witness:
  "\<exists>r' h'. threaded_rounds mpi_done [{0, 1, 2, 3}, {0, 1}] (demo SENDER 4 2, []) (r', h') \<and> starts h' 0 = 2 \<and> starts h' 1 = 1"
proof -
  have "at_rest (demo SENDER 4 2)" by (simp add: at_rest_def demo_setup_ok aligned_def)
  moreover have "waitall_ret mpi_done h xs" for h xs by (simp add: mpi_run_def list_all_iff)
  moreover have "\<forall>R\<in>set [{0, 1, 2, 3}, {0, 1 :: int}]. R \<subseteq> {0..<local_parts (demo SENDER 4 2)}" by simp
  ultimately obtain r' h' where t: "threaded_rounds mpi_done [{0, 1, 2, 3}, {0, 1}] (demo SENDER 4 2, []) (r', h')"
    and c: "\<forall>i. 0 \<le> i \<and> i < 2 \<longrightarrow> starts h' ([0..<2] ! nat i) = length (filter (\<lambda>R. deps 4 2 i \<subseteq> R) [{0, 1, 2, 3}, {0, 1}])"
    using rounds_under_any_schedule [of "demo SENDER 4 2" mpi_done "[{0, 1, 2, 3}, {0, 1}]" "[]"]
    by (auto simp del: filter.simps)
  have "deps 4 2 0 = {0, 1}" "deps 4 2 1 = {2, 3}" by (auto simp: deps_def net_range_def)
  with c [rule_format, of 0] c [rule_format, of 1] have "starts h' 0 = 2" "starts h' 1 = 1" by auto
  with t show ?thesis by blast
qed

text \<open>
  C8: in every interleaving of user threads that mark each partition at most once and the
  background thread, no message of the request is ever started twice in a round; and once every
  actor is done, a message all of whose partitions have been marked has been started exactly once,
  whether they were marked before, during or after the catch-up of the background thread.
\<close>

theorem ready_messages_start_once:
  assumes b: "begins M h r c" "mpi_succeeds M" "fresh_handles M" and run: "reaches M (conf_of r h c) s"
    and i: "pcs s Background \<noteq> Setup" "0 \<le> i" "i < parts (req s)"
  shows "starts (log s) (handles (req s) ! nat i) \<le> Suc (starts h (handles (req s) ! nat i))
    \<and> (quiescent s \<and> deps (local_parts (req s)) (parts (req s)) i \<subseteq> marked (req s)
       \<longrightarrow> starts (log s) (handles (req s) ! nat i) = Suc (starts h (handles (req s) ! nat i)))"
  using begins_sent [OF b run i(2,3)] i(1) by blast

theorem ready_messages_start_once_witness:
  "\<exists>s. reaches mpi_done (conf_of (demo SENDER 1 1) [] Done) s \<and> quiescent s \<and> starts (log s) 0 = 1"
proof -
  have b: "begins mpi_done [] (demo SENDER 1 1) Done" using demo_ready [of 1 1] by (simp add: begins_def aligned_def)
  obtain s where s: "reaches mpi_done (conf_of (demo SENDER 1 1) [] Done) s" "quiescent s" "parts (req s) = 1"
    "local_parts (req s) = 1" "marked (req s) = {0}" "handles (req s) = [0]" using one_partition_run by blast
  have "pcs s Background \<noteq> Setup" using s(2) by (simp add: quiescent_def)
  moreover have "deps 1 1 0 \<subseteq> {0}" by (auto simp: deps_def)
  ultimately have "starts (log s) 0 = 1"
    using ready_messages_start_once [OF b mpi_run_succeeds mpi_run_fresh s(1), of 0] s(2-6) by simp
  with s(1,2) show ?thesis by blast
qed

text \<open>
  C9: a message that has been started has all its partitions marked, in every interleaving: when
  the setup was over before the round; when the round begins during the setup with ready flags that
  nobody has cleared, as \<open>prep\<close> leaves them, since the thread can only go past a flag that has been
  stored; and with any flags when there are at least as many messages as partitions.
\<close>

theorem sent_data_was_ready:
  assumes "begins M h r c" "mpi_succeeds M" "fresh_handles M"
    and "reaches M (conf_of r h c) s" "pcs s Background \<noteq> Setup" "0 \<le> i" "i < parts (req s)"
    and "starts (log s) (handles (req s) ! nat i) \<noteq> starts h (handles (req s) ! nat i)"
    and "c = Done \<or> never_cleared (local_status r) \<or> local_parts (req s) \<le> parts (req s)"
  shows "deps (local_parts (req s)) (parts (req s)) i \<subseteq> marked (req s)"
  using begins_safe [OF assms] .

theorem sent_data_was_ready_witness:
  "\<exists>s. reaches mpi_done (conf_of (demo SENDER 1 1) [] Done) s \<and> starts (log s) 0 = 1 \<and> deps 1 1 0 \<subseteq> marked (req s)"
proof -
  have b: "begins mpi_done [] (demo SENDER 1 1) Done" using demo_ready [of 1 1] by (simp add: begins_def aligned_def)
  obtain s where s: "reaches mpi_done (conf_of (demo SENDER 1 1) [] Done) s" "quiescent s" "log s = [CStart 0]" "parts (req s) = 1"
    "local_parts (req s) = 1" "handles (req s) = [0]" using one_partition_run by blast
  have "pcs s Background \<noteq> Setup" using s(2) by (simp add: quiescent_def)
  then have "deps 1 1 0 \<subseteq> marked (req s)"
    using sent_data_was_ready [OF b mpi_run_succeeds mpi_run_fresh s(1), of 0] s(3-6) by simp
  with s(1,3) show ?thesis by (intro exI [of _ s]) simp
qed

text \<open>
  C10: whatever the schedule, a round takes at most \<open>round_bound\<close> steps (a number linear in the
  product of partitions and messages), and from every configuration it reaches some schedule, in
  which the users mark what is missing, leads to one where all actors are done: nothing is
  deadlocked. An actor that is not done can make its next step at any time, with two exceptions: a
  user waits while the thread holds the lock, and the thread has no next step where it is about to
  read a ready flag that nobody has stored, which is undefined behaviour. The latter does not happen
  when the flags are initialised at the beginning, as \<open>MPIP_Start\<close> does when the setup is over.
\<close>

theorem every_round_ends:
  assumes b: "(c = Done \<and> ready_sender r \<and> n = parts r) \<or> (c = Setup \<and> waiting_sender M h r n)"
    and M: "mpi_succeeds M" "fresh_handles M" and run: "(step M ^^ k) (conf_of r h c) s"
  shows "k \<le> round_bound (local_parts r) n \<and> (\<exists>s'. reaches M s s' \<and> quiescent s')
    \<and> (\<forall>a. pcs s a \<noteq> Idle \<and> pcs s a \<noteq> Done \<longrightarrow> (\<exists>s'. step M s s' \<and> pcs s' a \<noteq> pcs s a)
         \<or> (a \<noteq> Background \<and> locked s) \<or> (a = Background \<and> reads_uninit s))
    \<and> (c = Done \<or> flags_set r \<longrightarrow> \<not> reads_uninit s)"
proof -
  let ?s0 = "conf_of r h c"
  have r: "in_round M h n (clear_conf ?s0)" by (rule begun_in_round [OF b M])
  have s: "in_round M h n (clear_conf s)" by (rule round.run_ok [OF clear.run_abs [OF relpowp_imp_rtranclp [OF run]] r])
  have "k + work (nat n) (clear_conf s) \<le> work (nat n) (clear_conf ?s0)" by (rule round.run_work [OF clear.run_abs_length [OF run] r])
  moreover have "work (nat n) (clear_conf ?s0) \<le> round_bound (local_parts r) n"
    using b work_start [of c n "clear_flags r" h] by auto
  moreover have "\<not> reads_uninit s" if "c = Done \<or> flags_set r"
  proof -
    from that b have "clear_flags r = r" by (auto simp: ready_sender_def intro: clear_flags_same)
    with r have "in_round M h n ?s0" by simp
    from no_uninit [OF round.run_ok [OF relpowp_imp_rtranclp [OF run] this]] show ?thesis .
  qed
  ultimately show ?thesis using can_finish [OF s] actor_stopped [OF s] by auto
qed

text \<open>A start before the setup, with the flags as \<open>prep\<close> leaves them.\<close>

theorem every_round_ends_witness:
  "\<exists>s'. reaches (mpi_answers 2 1) (conf_of ((demo_waiting SENDER 4)\<lparr>local_status := blk_malloc 4\<rparr>) [] Setup) s' \<and> quiescent s'"
proof -
  let ?r = "(demo_waiting SENDER 4)\<lparr>local_status := blk_malloc 4\<rparr>"
  have "waiting_sender (mpi_answers 2 1) [] (demo_waiting SENDER 4) 2" using demo_waiting_sender [of 4 2 "[]"] by (simp add: aligned_def)
  then have "waiting_sender (mpi_answers 2 1) [] ?r 2"
    by (simp add: waiting_sender_def delayed_def held_def prepared_def blk_malloc_def demo_waiting_def demo_def)
  then show ?thesis using every_round_ends [of Setup ?r 2 "mpi_answers 2 1" "[]" 0 "conf_of ?r [] Setup"] by simp
qed

section \<open>Races\<close>

text \<open>
  Why the properties above ask how the flags begin. If \<open>prep\<close> cleared the ready flags, a
  partition marked while the background thread scans them could be counted by the thread and by
  its own \<open>MPIP_Pready\<close>: with two partitions in one message, the message would start although
  partition 1 is not marked.
\<close>

lemma premature_send:
  "\<exists>s. waiting_sender (mpi_answers 1 2) [] (demo_waiting SENDER 2) 1 \<and> flags_set (demo_waiting SENDER 2)
    \<and> reaches (mpi_answers 1 2) (conf_of (demo_waiting SENDER 2) [] Setup) s
    \<and> starts (log s) (handles (req s) ! 0) = 1 \<and> 1 \<in> deps (local_parts (req s)) (parts (req s)) 0
    \<and> 1 \<notin> marked (req s)"
proof -
  let ?s = "double_at [2] FINISHED (CStart 0 # double_log) (Sending 0 1 1 2) Done {(False, 0, 0), (True, 0, 0)}"
  have "waiting_sender (mpi_answers 1 2) [] (demo_waiting SENDER 2) 1"
    using demo_waiting_delayed [of 2] demo_fits [of 1 2 "\<lambda>j k. None" "Some (1, 2)" "\<lambda>h x. True"]
    by (auto simp: waiting_sender_def aligned_def)
  moreover have "1 \<notin> marked (req ?s)" "local_parts (req ?s) = 2" "parts (req ?s) = 1" "handles (req ?s) = [0]" "log ?s = CStart 0 # double_log"
    by (simp_all add: double_at_def marked_def blk_get_filled_iff demo_waiting_def)
  moreover have "1 \<in> deps 2 1 0" by (simp add: deps_def net_range_def)
  ultimately show ?thesis using double_reaches demo_waiting_delayed(2) [of 2] by (intro exI [of _ ?s]) simp
qed

text \<open>
  When the background thread of a sender finishes before the init function stores
  \<open>RUNNING\<close>, the request keeps that status for ever: a whole round marks the partitions, waits
  and returns success without having started any message.
\<close>

lemma lost_finished_sends_nothing:
  assumes r: "prepared r" "state r = INACTIVE" "side r = SENDER" and ft: "fits M (the_meta r) n sz"
    and M: "mpi_succeeds M" "fresh_handles M" "inactive_waits_return M"
    and d: "recv_data M h (partner (the_meta r)) sync_tag (comm (the_meta r)) = Some (n, sz)"
    and h: "\<forall>x. active h x \<longrightarrow> x \<in> issued h" and ps: "set ps \<subseteq> {0..<local_parts r}"
  shows "\<exists>r1 h1 r2 h2. finished_first M (r, h) = Inr (r1, h1)
    \<and> bindE (MPIP_Start M (r1, h1)) (\<lambda>(_, t). bindE (MPIP_Pready_list M (int (length ps)) ps t) (\<lambda>(_, t). MPIP_Wait M t))
        = Inr (MPI_SUCCESS, r2, h2)
    \<and> state r2 = INACTIVE \<and> threaded r2 = RUNNING \<and> (\<forall>x. starts h2 x = starts h x)"
proof -
  obtain r1 h1 where r1: "finished_first M (r, h) = Inr (r1, h1)" "orphaned r1" "side r1 = SENDER"
    "local_parts r1 = local_parts r" "\<forall>x. starts h1 x = starts h x" "set (handles r1) \<inter> issued h = {}"
    "\<forall>x\<in>set (handles r1). active h1 x = active h x"
    using finished_first_orphaned [OF r(1,2) ft M(1,2) d] r(3) by auto
  have "\<forall>x\<in>set (handles r1). \<not> active h1 x" using r1(6,7) h by blast
  then obtain r2 where "bindE (MPIP_Start M (r1, h1)) (\<lambda>(_, t).
      bindE (MPIP_Pready_list M (int (length ps)) ps t) (\<lambda>(_, t). MPIP_Wait M t))
      = Inr (MPI_SUCCESS, r2, CWaitall (handles r1) # h1)" "orphaned r2" "state r2 = INACTIVE"
    using orphaned_sender_round [OF r1(2,3) _ M(1,3), of ps h1] ps r1(4) by auto
  with r1(1,5) show ?thesis by (auto simp: orphaned_def)
qed

lemma demo_plan_prepared:
  "prepared (demo_plan s 2 1 2 7\<lparr>state := INACTIVE\<rparr>)" "the_meta (demo_plan s 2 1 2 7\<lparr>state := INACTIVE\<rparr>) = demo_meta\<lparr>tag := 7\<rparr>"
  "fits (mpi_answers 1 2) (demo_meta\<lparr>tag := 7\<rparr>) 1 2"
  using demo_plan_fits [of 1 2 7 "\<lambda>j k. None" "Some (1, 2)" "\<lambda>h x. True"]
  by (simp_all add: demo_plan_def demo_def prepared_def)

lemma lost_finished_sends_nothing_witness:
  "\<exists>r1 h1 r2 h2. finished_first (mpi_answers 1 2) (demo_plan SENDER 2 1 2 7\<lparr>state := INACTIVE\<rparr>, []) = Inr (r1, h1)
    \<and> bindE (MPIP_Start (mpi_answers 1 2) (r1, h1)) (\<lambda>(_, t).
        bindE (MPIP_Pready_list (mpi_answers 1 2) (int (length [0, 1 :: int])) [0, 1] t) (\<lambda>(_, t). MPIP_Wait (mpi_answers 1 2) t))
        = Inr (MPI_SUCCESS, r2, h2)
    \<and> state r2 = INACTIVE \<and> threaded r2 = RUNNING \<and> (\<forall>x. starts h2 x = starts [] x)"
proof -
  let ?r = "demo_plan SENDER 2 1 2 7\<lparr>state := INACTIVE\<rparr>"
  have r: "state ?r = INACTIVE" "side ?r = SENDER" "set [0, 1] \<subseteq> {0..<local_parts ?r}" by (simp_all add: demo_plan_def)
  have d: "recv_data (mpi_answers 1 2) [] (partner (the_meta ?r)) 990 (comm (the_meta ?r)) = Some (1, 2)" by simp
  have f: "fits (mpi_answers 1 2) (the_meta ?r) 1 2" unfolding demo_plan_prepared(2) by (rule demo_plan_prepared(3))
  have h: "\<forall>x. active [] x \<longrightarrow> x \<in> issued []" by simp
  show ?thesis
    by (rule lost_finished_sends_nothing [OF demo_plan_prepared(1) r(1,2) f mpi_run_succeeds mpi_run_fresh mpi_run_inactive(2) d h r(3)])
qed

end
